(* ===== verification/Prelude.thy ===== *)
theory Prelude
  imports Main "HOL-Library.Word" "HOL-Library.Monad_Syntax"
begin

text \<open>
  What every component of the model shares: octets and octet literals, the fixed-width integer
  operations of the Rust standard library (\<open>checked_*\<close>, \<open>saturating_*\<close>, \<open>try_from\<close>), and
  generic facts about option binds and lists.

  An unsigned counter of width \<open>w\<close> is a \<open>nat\<close> kept below \<open>2 ^ w\<close> by the operation that writes
  it, and a signed value of width 64 is an \<open>int\<close> whose range \<open>in_i64\<close> states; every operation
  that can leave the range says so, as the checked and saturating operators of the code do.
  \<open>usize\<close> is \<open>nat\<close>: it only ever counts octets or elements of buffers that are in memory, whose
  lengths Rust bounds by \<open>isize::MAX\<close>, so the saturating additions on it never saturate.
\<close>

section \<open>Octets\<close>

type_synonym octet = "8 word"
type_synonym octets = "octet list"

definition ascii :: "string \<Rightarrow> octets" where
  "ascii s = map of_char s"

abbreviation (input) oct :: "char \<Rightarrow> octet" where
  "oct c \<equiv> of_char c"

lemma ascii_simps [simp]:
  "ascii [] = []"
  "ascii (c # s) = of_char c # ascii s"
  by (simp_all add: ascii_def)

section \<open>Fixed-width integers\<close>

text \<open>The largest values of the unsigned widths the code uses.\<close>

definition u8_max :: nat where "u8_max = 255"
definition u16_max :: nat where "u16_max = 65535"
definition u32_max :: nat where "u32_max = 4294967295"
definition u64_max :: nat where "u64_max = 18446744073709551615"

lemmas width_defs = u8_max_def u16_max_def u32_max_def u64_max_def

text \<open>\<open>saturating_add\<close> on an unsigned width whose largest value is \<open>mx\<close>.\<close>

definition sat_add :: "nat \<Rightarrow> nat \<Rightarrow> nat \<Rightarrow> nat" where
  "sat_add mx a b = min mx (a + b)"

lemma sat_add_le: "sat_add mx a b \<le> mx"
  by (simp add: sat_add_def)

lemma sat_add_exact: "a + b \<le> mx \<Longrightarrow> sat_add mx a b = a + b"
  by (simp add: sat_add_def)

lemma sat_add_ge: "a \<le> mx \<Longrightarrow> a \<le> sat_add mx a b"
  by (simp add: sat_add_def)

text \<open>\<open>i64\<close> and its checked operators.\<close>

definition in_i64 :: "int \<Rightarrow> bool" where
  "in_i64 x \<longleftrightarrow> - 9223372036854775808 \<le> x \<and> x \<le> 9223372036854775807"

definition checked_i64 :: "int \<Rightarrow> int option" where
  "checked_i64 x = (if in_i64 x then Some x else None)"

definition add64 :: "int \<Rightarrow> int \<Rightarrow> int option" where
  "add64 a b = checked_i64 (a + b)"

definition sub64 :: "int \<Rightarrow> int \<Rightarrow> int option" where
  "sub64 a b = checked_i64 (a - b)"

definition mul64 :: "int \<Rightarrow> int \<Rightarrow> int option" where
  "mul64 a b = checked_i64 (a * b)"

text \<open>The saturating operators of \<open>i64\<close>.\<close>

definition sat_i64 :: "int \<Rightarrow> int" where
  "sat_i64 x = max (- 9223372036854775808) (min 9223372036854775807 x)"

lemma sat_i64_exact: "in_i64 x \<Longrightarrow> sat_i64 x = x"
  by (simp add: in_i64_def sat_i64_def)

definition in_i32 :: "int \<Rightarrow> bool" where
  "in_i32 x \<longleftrightarrow> - 2147483648 \<le> x \<and> x \<le> 2147483647"

definition checked_i32 :: "int \<Rightarrow> int option" where
  "checked_i32 x = (if in_i32 x then Some x else None)"

definition add32 :: "int \<Rightarrow> int \<Rightarrow> int option" where
  "add32 a b = checked_i32 (a + b)"

definition sub32 :: "int \<Rightarrow> int \<Rightarrow> int option" where
  "sub32 a b = checked_i32 (a - b)"

definition mul32 :: "int \<Rightarrow> int \<Rightarrow> int option" where
  "mul32 a b = checked_i32 (a * b)"

text \<open>\<open>u8::try_from\<close> and \<open>u16::try_from\<close> on a signed integer.\<close>

definition u8_try_from :: "int \<Rightarrow> nat option" where
  "u8_try_from x = (if 0 \<le> x \<and> x \<le> 255 then Some (nat x) else None)"

definition u16_try_from :: "int \<Rightarrow> nat option" where
  "u16_try_from x = (if 0 \<le> x \<and> x \<le> 65535 then Some (nat x) else None)"

named_theorems checked_defs "the checked integer operators, unfolded to a range test"

lemmas [checked_defs] =
  add64_def sub64_def mul64_def checked_i64_def
  add32_def sub32_def mul32_def checked_i32_def
  u8_try_from_def u16_try_from_def

lemma checked_i64_Some: "in_i64 x \<Longrightarrow> checked_i64 x = Some x"
  by (simp add: checked_i64_def)

lemma checked_i64_eq_Some_iff: "checked_i64 x = Some y \<longleftrightarrow> in_i64 x \<and> y = x"
  by (auto simp: checked_i64_def)

lemma in_i64_small: "\<bar>x\<bar> \<le> 1000000000000 \<Longrightarrow> in_i64 x"
  by (auto simp: in_i64_def)

section \<open>Options\<close>

lemma option_bind_SomeE:
  assumes "Option.bind m f = Some y"
  obtains x where "m = Some x" and "f x = Some y"
  using assms by (cases m) auto

lemma not_None_iff_Some: "x \<noteq> None \<longleftrightarrow> (\<exists>y. x = Some y)"
  by (cases x) auto

section \<open>Fallible steps over a threaded state\<close>

text \<open>The \<open>?\<close> operator over a threaded state.\<close>

definition and_then :: "('e + 'a) \<times> 'w \<Rightarrow> ('a \<Rightarrow> 'w \<Rightarrow> ('e + 'b) \<times> 'w) \<Rightarrow> ('e + 'b) \<times> 'w" where
  "and_then r f = (case r of (Inl e, w) \<Rightarrow> (Inl e, w) | (Inr x, w) \<Rightarrow> f x w)"

lemma and_then_simps [simp]:
  "and_then (Inl e, w) f = (Inl e, w)" "and_then (Inr x, w) f = f x w"
  by (simp_all add: and_then_def)

lemma and_then_InrE:
  assumes "and_then r f = (Inr y, w')"
  obtains x w where "r = (Inr x, w)" "f x w = (Inr y, w')"
  using assms by (auto simp: and_then_def split: prod.splits sum.splits)

end
