(* ===== verification/Gregorian.thy ===== *)
theory Gregorian
  imports Prelude
begin

text \<open>
  The civil-time vocabulary of \<open>core/gregorian.rs\<close> and \<open>core/grammar/instant.rs\<close>: dates, times of
  day, offsets, durations, weekdays and instants, with their validating constructors. A
  constructor of the code that refuses is an \<open>option\<close> here, and the range a constructor
  enforces is stated by the predicates \<open>valid_date\<close>, \<open>valid_time\<close>, \<open>valid_datetime\<close> and
  \<open>valid_offset\<close>: the Rust fields are private, so the values the program can hold are exactly the
  ones these predicates admit.
\<close>

section \<open>Dates\<close>

definition MAX_YEAR :: nat where
  "MAX_YEAR = 9999"

record civil_date =
  year :: nat
  month :: nat
  day :: nat

definition is_leap_year :: "nat \<Rightarrow> bool" where
  "is_leap_year y \<longleftrightarrow> y mod 4 = 0 \<and> (y mod 100 \<noteq> 0 \<or> y mod 400 = 0)"

definition days_in_month :: "nat \<Rightarrow> nat \<Rightarrow> nat option" where
  "days_in_month y m =
     (if m \<in> {1, 3, 5, 7, 8, 10, 12} then Some 31
      else if m \<in> {4, 6, 9, 11} then Some 30
      else if m = 2 \<and> is_leap_year y then Some 29
      else if m = 2 then Some 28
      else None)"

definition date_from_ymd :: "nat \<Rightarrow> nat \<Rightarrow> nat \<Rightarrow> civil_date option" where
  "date_from_ymd y m d =
     (if y > MAX_YEAR \<or> d = 0 then None
      else case days_in_month y m of
             Some len \<Rightarrow> if d \<le> len then Some \<lparr>year = y, month = m, day = d\<rparr> else None
           | None \<Rightarrow> None)"

text \<open>The dates that exist, which are the ones the constructor builds.\<close>

definition valid_date :: "civil_date \<Rightarrow> bool" where
  "valid_date c \<longleftrightarrow> date_from_ymd (year c) (month c) (day c) = Some c"

section \<open>Times of day\<close>

record civil_time =
  hour :: nat
  minute :: nat
  second :: nat

definition MIDNIGHT :: civil_time where
  "MIDNIGHT = \<lparr>hour = 0, minute = 0, second = 0\<rparr>"

definition time_from_hms :: "nat \<Rightarrow> nat \<Rightarrow> nat \<Rightarrow> civil_time option" where
  "time_from_hms h m s =
     (if h > 23 \<or> m > 59 \<or> s > 60 then None
      else Some \<lparr>hour = h, minute = m, second = s\<rparr>)"

definition valid_time :: "civil_time \<Rightarrow> bool" where
  "valid_time t \<longleftrightarrow> hour t \<le> 23 \<and> minute t \<le> 59 \<and> second t \<le> 60"

record civil_datetime =
  date_part :: civil_date
  time_part :: civil_time

definition valid_datetime :: "civil_datetime \<Rightarrow> bool" where
  "valid_datetime dt \<longleftrightarrow> valid_date (date_part dt) \<and> valid_time (time_part dt)"

section \<open>Offsets, durations, instants\<close>

record utc_offset =
  offset_seconds :: int

definition UTC :: utc_offset where "UTC = \<lparr>offset_seconds = 0\<rparr>"

definition offset_from_seconds :: "int \<Rightarrow> utc_offset option" where
  "offset_from_seconds s =
     (if s \<le> - 86400 \<or> s \<ge> 86400 then None else Some \<lparr>offset_seconds = s\<rparr>)"

definition valid_offset :: "utc_offset \<Rightarrow> bool" where
  "valid_offset u \<longleftrightarrow> - 86400 < offset_seconds u \<and> offset_seconds u < 86400"

record duration =
  span_days :: int
  span_seconds :: int

definition valid_duration :: "duration \<Rightarrow> bool" where
  "valid_duration s \<longleftrightarrow> in_i64 (span_days s) \<and> in_i64 (span_seconds s)"

record instant =
  unix_seconds :: int

definition instant_checked_add_seconds :: "instant \<Rightarrow> int \<Rightarrow> instant option" where
  "instant_checked_add_seconds i s =
     (case add64 (unix_seconds i) s of
        Some u \<Rightarrow> Some \<lparr>unix_seconds = u\<rparr>
      | None \<Rightarrow> None)"

definition instant_checked_seconds_until :: "instant \<Rightarrow> instant \<Rightarrow> int option" where
  "instant_checked_seconds_until i later = sub64 (unix_seconds later) (unix_seconds i)"

section \<open>Weekdays\<close>

datatype weekday = Monday | Tuesday | Wednesday | Thursday | Friday | Saturday | Sunday

definition weekday_all :: "weekday list" where
  "weekday_all = [Monday, Tuesday, Wednesday, Thursday, Friday, Saturday, Sunday]"

fun weekday_as_bytes :: "weekday \<Rightarrow> octets" where
  "weekday_as_bytes Monday = ascii ''MO''"
| "weekday_as_bytes Tuesday = ascii ''TU''"
| "weekday_as_bytes Wednesday = ascii ''WE''"
| "weekday_as_bytes Thursday = ascii ''TH''"
| "weekday_as_bytes Friday = ascii ''FR''"
| "weekday_as_bytes Saturday = ascii ''SA''"
| "weekday_as_bytes Sunday = ascii ''SU''"

fun weekday_index :: "weekday \<Rightarrow> nat" where
  "weekday_index Monday = 0"
| "weekday_index Tuesday = 1"
| "weekday_index Wednesday = 2"
| "weekday_index Thursday = 3"
| "weekday_index Friday = 4"
| "weekday_index Saturday = 5"
| "weekday_index Sunday = 6"

definition weekday_from_index :: "nat \<Rightarrow> weekday option" where
  "weekday_from_index i =
     (if i = 0 then Some Monday
      else if i = 1 then Some Tuesday
      else if i = 2 then Some Wednesday
      else if i = 3 then Some Thursday
      else if i = 4 then Some Friday
      else if i = 5 then Some Saturday
      else if i = 6 then Some Sunday
      else None)"

section \<open>What adding months answers\<close>

datatype month_add_outcome =
    Exact civil_date
  | Clamped civil_date nat
  | Overflow

fun outcome_date :: "month_add_outcome \<Rightarrow> civil_date option" where
  "outcome_date (Exact d) = Some d"
| "outcome_date (Clamped d _) = Some d"
| "outcome_date Overflow = None"

section \<open>Date-time values\<close>

datatype datetime_value =
    VDate civil_date
  | VLocal civil_datetime
  | VUtc civil_datetime
  | VZoned civil_datetime octets

fun dtv_date :: "datetime_value \<Rightarrow> civil_date" where
  "dtv_date (VDate d) = d"
| "dtv_date (VLocal s) = date_part s"
| "dtv_date (VUtc s) = date_part s"
| "dtv_date (VZoned s _) = date_part s"

fun dtv_time :: "datetime_value \<Rightarrow> civil_time option" where
  "dtv_time (VDate _) = None"
| "dtv_time (VLocal s) = Some (time_part s)"
| "dtv_time (VUtc s) = Some (time_part s)"
| "dtv_time (VZoned s _) = Some (time_part s)"

fun dtv_tzid :: "datetime_value \<Rightarrow> octets option" where
  "dtv_tzid (VDate _) = None"
| "dtv_tzid (VLocal _) = None"
| "dtv_tzid (VUtc _) = None"
| "dtv_tzid (VZoned _ z) = Some z"

section \<open>Facts about the vocabulary\<close>

lemma days_in_month_bounds: "days_in_month y m = Some n \<Longrightarrow> 28 \<le> n \<and> n \<le> 31"
  by (auto simp: days_in_month_def split: if_splits)

lemma month_cases:
  fixes m :: nat
  assumes "1 \<le> m" "m \<le> 12"
  shows "m = 1 \<or> m = 2 \<or> m = 3 \<or> m = 4 \<or> m = 5 \<or> m = 6 \<or> m = 7 \<or> m = 8 \<or> m = 9
    \<or> m = 10 \<or> m = 11 \<or> m = 12"
  using assms by presburger

lemma days_in_month_Some_iff: "(\<exists>n. days_in_month y m = Some n) \<longleftrightarrow> 1 \<le> m \<and> m \<le> 12"
proof
  assume "1 \<le> m \<and> m \<le> 12"
  then have "m = 1 \<or> m = 2 \<or> m = 3 \<or> m = 4 \<or> m = 5 \<or> m = 6 \<or> m = 7 \<or> m = 8 \<or> m = 9
      \<or> m = 10 \<or> m = 11 \<or> m = 12" by (intro month_cases) auto
  then show "\<exists>n. days_in_month y m = Some n" by (auto simp: days_in_month_def)
qed (auto simp: days_in_month_def split: if_splits)

lemma date_from_ymd_Some_iff:
  "date_from_ymd y m d = Some c \<longleftrightarrow>
     y \<le> MAX_YEAR \<and> 1 \<le> d \<and> (\<exists>n. days_in_month y m = Some n \<and> d \<le> n)
     \<and> c = \<lparr>year = y, month = m, day = d\<rparr>"
  by (auto simp: date_from_ymd_def split: option.splits)

lemma date_from_ymd_valid: "date_from_ymd y m d = Some c \<Longrightarrow> valid_date c"
  by (auto simp: valid_date_def date_from_ymd_Some_iff)

lemma valid_date_iff:
  "valid_date c \<longleftrightarrow> year c \<le> MAX_YEAR \<and> 1 \<le> day c
     \<and> (\<exists>n. days_in_month (year c) (month c) = Some n \<and> day c \<le> n)"
  by (cases c) (auto simp: valid_date_def date_from_ymd_Some_iff)

lemma valid_date_month: "valid_date c \<Longrightarrow> 1 \<le> month c \<and> month c \<le> 12"
  using days_in_month_Some_iff by (auto simp: valid_date_iff)

lemma valid_date_bounds:
  assumes "valid_date c"
  shows "year c \<le> 9999" "1 \<le> month c" "month c \<le> 12" "1 \<le> day c" "day c \<le> 31"
  using assms valid_date_month [OF assms]
  by (auto simp: valid_date_iff MAX_YEAR_def dest: days_in_month_bounds)

lemma time_from_hms_Some_iff:
  "time_from_hms h m s = Some t \<longleftrightarrow>
     h \<le> 23 \<and> m \<le> 59 \<and> s \<le> 60 \<and> t = \<lparr>hour = h, minute = m, second = s\<rparr>"
  by (auto simp: time_from_hms_def)

lemma time_from_hms_valid: "time_from_hms h m s = Some t \<Longrightarrow> valid_time t"
  by (auto simp: time_from_hms_Some_iff valid_time_def)

lemma offset_from_seconds_valid: "offset_from_seconds s = Some u \<Longrightarrow> valid_offset u"
  by (auto simp: offset_from_seconds_def valid_offset_def split: if_splits)

lemma weekday_from_index_inverse: "weekday_from_index (weekday_index w) = Some w"
  by (cases w) (simp_all add: weekday_from_index_def)

lemma weekday_index_inverse: "weekday_from_index i = Some w \<Longrightarrow> weekday_index w = i"
  by (auto simp: weekday_from_index_def split: if_splits)

lemma weekday_index_less: "weekday_index w < 7"
  by (cases w) simp_all

lemma weekday_from_index_Some: "i < 7 \<Longrightarrow> \<exists>w. weekday_from_index i = Some w"
proof -
  assume "i < 7"
  then have "i \<in> {0, 1, 2, 3, 4, 5, 6}" by auto
  then show ?thesis by (auto simp: weekday_from_index_def)
qed

lemma weekday_all_index: "map weekday_index weekday_all = [0..<7]"
  by (simp add: weekday_all_def upt_rec)

end
