(* ===== verification/Civil_Arith.thy ===== *)
theory Civil_Arith
  imports Gregorian
begin

text \<open>
  The checked civil-time arithmetic of \<open>core/arith.rs\<close>. Every operation is the code's chain of
  checked steps, a \<open>?\<close> of the code being a bind on \<open>option\<close>. The lemmas give each operation a
  closed reference meaning: \<open>day_number\<close> counts the days of the proleptic Gregorian calendar by
  summing the lengths of the years and the months that went before, and the era arithmetic of the
  code is proved to compute it, in both directions, for every date that exists. From that follow
  the weekday, the month arithmetic with its three outcomes, and the conversions to and from the
  timeline.
\<close>

section \<open>The operations\<close>

definition DAYS_FROM_ERA_TO_EPOCH :: int where "DAYS_FROM_ERA_TO_EPOCH = 719468"
definition DAYS_PER_ERA :: int where "DAYS_PER_ERA = 146097"
definition YEARS_PER_ERA :: int where "YEARS_PER_ERA = 400"
definition DAYS_PER_COMMON_YEAR :: int where "DAYS_PER_COMMON_YEAR = 365"
definition MONTHS_PER_YEAR :: int where "MONTHS_PER_YEAR = 12"
definition SECONDS_PER_DAY :: int where "SECONDS_PER_DAY = 86400"
definition SECONDS_PER_HOUR :: int where "SECONDS_PER_HOUR = 3600"
definition SECONDS_PER_MINUTE :: int where "SECONDS_PER_MINUTE = 60"
definition MINUTES_PER_HOUR :: int where "MINUTES_PER_HOUR = 60"

lemmas arith_consts =
  DAYS_FROM_ERA_TO_EPOCH_def DAYS_PER_ERA_def YEARS_PER_ERA_def DAYS_PER_COMMON_YEAR_def
  MONTHS_PER_YEAR_def SECONDS_PER_DAY_def SECONDS_PER_HOUR_def SECONDS_PER_MINUTE_def
  MINUTES_PER_HOUR_def

definition day_of_year_from_march :: "int \<Rightarrow> int \<Rightarrow> int option" where
  "day_of_year_from_march m d = do {
     shifted \<leftarrow> add64 m 9;
     let month_index = shifted mod 12;
     scaled \<leftarrow> mul64 month_index 153;
     scaled2 \<leftarrow> add64 scaled 2;
     with_day \<leftarrow> add64 (scaled2 div 5) d;
     sub64 with_day 1
   }"

definition days_from_epoch :: "civil_date \<Rightarrow> int option" where
  "days_from_epoch c = do {
     let y = int (year c);
     let m = int (month c);
     let d = int (day c);
     shifted_year \<leftarrow> (if m \<le> 2 then sub64 y 1 else Some y);
     let era = shifted_year div YEARS_PER_ERA;
     let year_of_era = shifted_year mod YEARS_PER_ERA;
     day_of_year \<leftarrow> day_of_year_from_march m d;
     common \<leftarrow> mul64 year_of_era DAYS_PER_COMMON_YEAR;
     plus_leap \<leftarrow> add64 common (year_of_era div 4);
     less_century \<leftarrow> sub64 plus_leap (year_of_era div 100);
     day_of_era \<leftarrow> add64 less_century day_of_year;
     era_days \<leftarrow> mul64 era DAYS_PER_ERA;
     total \<leftarrow> add64 era_days day_of_era;
     sub64 total DAYS_FROM_ERA_TO_EPOCH
   }"

definition year_of_era_holding :: "int \<Rightarrow> int option" where
  "year_of_era_holding day_of_era = do {
     a \<leftarrow> sub64 day_of_era (day_of_era div 1460);
     b \<leftarrow> add64 a (day_of_era div 36524);
     corrected \<leftarrow> sub64 b (day_of_era div 146096);
     Some (corrected div DAYS_PER_COMMON_YEAR)
   }"

definition from_march_year :: "int \<Rightarrow> int \<Rightarrow> civil_date option" where
  "from_march_year shifted_year day_of_year = do {
     five \<leftarrow> mul64 day_of_year 5;
     scaled \<leftarrow> add64 five 2;
     let month_index = scaled div 153;
     start153 \<leftarrow> mul64 month_index 153;
     month_start \<leftarrow> add64 start153 2;
     let day_offset = month_start div 5;
     from_zero \<leftarrow> sub64 day_of_year day_offset;
     day_of_month \<leftarrow> add64 from_zero 1;
     (mo, ye) \<leftarrow>
       (if month_index < 10 then
          do { mo \<leftarrow> add64 month_index 3; Some (mo, shifted_year) }
        else
          do { mo \<leftarrow> sub64 month_index 9; ye \<leftarrow> add64 shifted_year 1; Some (mo, ye) });
     y16 \<leftarrow> u16_try_from ye;
     m8 \<leftarrow> u8_try_from mo;
     d8 \<leftarrow> u8_try_from day_of_month;
     date_from_ymd y16 m8 d8
   }"

definition from_days_from_epoch :: "int \<Rightarrow> civil_date option" where
  "from_days_from_epoch days = do {
     from_era_origin \<leftarrow> add64 days DAYS_FROM_ERA_TO_EPOCH;
     let era = from_era_origin div DAYS_PER_ERA;
     let day_of_era = from_era_origin mod DAYS_PER_ERA;
     year_of_era \<leftarrow> year_of_era_holding day_of_era;
     leap_days \<leftarrow> sub64 (year_of_era div 4) (year_of_era div 100);
     common \<leftarrow> mul64 year_of_era DAYS_PER_COMMON_YEAR;
     less_common \<leftarrow> sub64 day_of_era common;
     day_of_year \<leftarrow> sub64 less_common leap_days;
     era_start_year \<leftarrow> mul64 era YEARS_PER_ERA;
     shifted_year \<leftarrow> add64 era_start_year year_of_era;
     from_march_year shifted_year day_of_year
   }"

definition weekday_of :: "civil_date \<Rightarrow> weekday option" where
  "weekday_of c = do {
     days \<leftarrow> days_from_epoch c;
     shifted \<leftarrow> add64 days 3;
     index \<leftarrow> u8_try_from (shifted mod 7);
     weekday_from_index index
   }"

definition first_of_shifted_month :: "civil_date \<Rightarrow> int \<Rightarrow> civil_date option" where
  "first_of_shifted_month c count = do {
     a \<leftarrow> mul32 (int (year c)) MONTHS_PER_YEAR;
     b \<leftarrow> add32 a (int (month c));
     b' \<leftarrow> sub32 b 1;
     total_months \<leftarrow> add32 b' count;
     let year_index = total_months div MONTHS_PER_YEAR;
     month_of_year \<leftarrow> add32 (total_months mod MONTHS_PER_YEAR) 1;
     y \<leftarrow> u16_try_from year_index;
     m \<leftarrow> u8_try_from month_of_year;
     date_from_ymd y m 1
   }"

definition add_months :: "civil_date \<Rightarrow> int \<Rightarrow> month_add_outcome" where
  "add_months c count =
     (case first_of_shifted_month c count of
        None \<Rightarrow> Overflow
      | Some target \<Rightarrow>
          (case days_in_month (year target) (month target) of
             None \<Rightarrow> Overflow
           | Some len \<Rightarrow>
               if day c \<le> len then
                 (case date_from_ymd (year target) (month target) (day c) of
                    Some d \<Rightarrow> Exact d
                  | None \<Rightarrow> Overflow)
               else
                 (case date_from_ymd (year target) (month target) len of
                    Some d \<Rightarrow> Clamped d (day c)
                  | None \<Rightarrow> Overflow)))"

definition checked_add_days :: "civil_date \<Rightarrow> int \<Rightarrow> civil_date option" where
  "checked_add_days c days = do {
     start \<leftarrow> days_from_epoch c;
     moved \<leftarrow> add64 start days;
     from_days_from_epoch moved
   }"

definition seconds_of_day :: "civil_time \<Rightarrow> int" where
  "seconds_of_day t =
     (let sec = min (second t) 59;
          from_hours = sat_i64 (int (hour t) * SECONDS_PER_HOUR);
          from_minutes = sat_i64 (int (minute t) * SECONDS_PER_MINUTE)
      in sat_i64 (sat_i64 (from_hours + from_minutes) + int sec))"

definition time_of_day :: "int \<Rightarrow> civil_time option" where
  "time_of_day s = do {
     h \<leftarrow> u8_try_from (s div SECONDS_PER_HOUR);
     m \<leftarrow> u8_try_from (s div SECONDS_PER_MINUTE mod MINUTES_PER_HOUR);
     sec \<leftarrow> u8_try_from (s mod SECONDS_PER_MINUTE);
     time_from_hms h m sec
   }"

definition at_offset :: "civil_datetime \<Rightarrow> utc_offset \<Rightarrow> instant option" where
  "at_offset dt off = do {
     day_count \<leftarrow> days_from_epoch (date_part dt);
     midnight \<leftarrow> mul64 day_count SECONDS_PER_DAY;
     local \<leftarrow> add64 midnight (seconds_of_day (time_part dt));
     u \<leftarrow> sub64 local (offset_seconds off);
     Some \<lparr>unix_seconds = u\<rparr>
   }"

definition from_instant :: "instant \<Rightarrow> utc_offset \<Rightarrow> civil_datetime option" where
  "from_instant i off = do {
     local \<leftarrow> add64 (unix_seconds i) (offset_seconds off);
     d \<leftarrow> from_days_from_epoch (local div SECONDS_PER_DAY);
     t \<leftarrow> time_of_day (local mod SECONDS_PER_DAY);
     Some \<lparr>date_part = d, time_part = t\<rparr>
   }"

definition checked_add_duration :: "civil_datetime \<Rightarrow> duration \<Rightarrow> civil_datetime option" where
  "checked_add_duration dt span = do {
     second_of_day \<leftarrow> add64 (seconds_of_day (time_part dt)) (span_seconds span);
     start_day \<leftarrow> days_from_epoch (date_part dt);
     moved \<leftarrow> add64 start_day (span_days span);
     day_count \<leftarrow> add64 moved (second_of_day div SECONDS_PER_DAY);
     d \<leftarrow> from_days_from_epoch day_count;
     t \<leftarrow> time_of_day (second_of_day mod SECONDS_PER_DAY);
     Some \<lparr>date_part = d, time_part = t\<rparr>
   }"

section \<open>The reference calendar\<close>

definition year_length :: "nat \<Rightarrow> nat" where
  "year_length y = (if is_leap_year y then 366 else 365)"

definition month_length :: "nat \<Rightarrow> nat \<Rightarrow> nat" where
  "month_length y m = (case days_in_month y m of Some n \<Rightarrow> n | None \<Rightarrow> 0)"

definition days_before_year :: "nat \<Rightarrow> nat" where
  "days_before_year y = sum_list (map year_length [0..<y])"

definition days_before_month :: "nat \<Rightarrow> nat \<Rightarrow> nat" where
  "days_before_month y m = sum_list (map (month_length y) [1..<m])"

text \<open>Days from 1970-01-01, by counting: 719528 days lie between 0000-01-01 and the epoch.\<close>

definition day_number :: "civil_date \<Rightarrow> int" where
  "day_number c = int (days_before_year (year c)) + int (days_before_month (year c) (month c))
     + int (day c) - 1 - 719528"

text \<open>The leap-day count of the March-based year, in closed form.\<close>

definition march_count :: "int \<Rightarrow> int" where
  "march_count y = 365 * y + y div 4 - y div 100 + y div 400"

definition leap_int :: "int \<Rightarrow> bool" where
  "leap_int y \<longleftrightarrow> y mod 4 = 0 \<and> (y mod 100 \<noteq> 0 \<or> y mod 400 = 0)"

lemma is_leap_year_int: "is_leap_year y \<longleftrightarrow> leap_int (int y)"
  unfolding is_leap_year_def leap_int_def by presburger

lemma div_step_int:
  fixes y k :: int
  assumes "0 < k"
  shows "y div k = (y - 1) div k + (if y mod k = 0 then 1 else 0)"
proof (cases "y mod k = 0")
  case True
  then have "y - 1 = k * (y div k - 1) + (k - 1)"
    using mult_div_mod_eq [of k y] by (simp add: right_diff_distrib)
  moreover have "0 \<le> k - 1" "k - 1 < k"
    using assms by simp_all
  ultimately have "(y - 1) div k = y div k - 1"
    by (rule int_div_pos_eq)
  with True show ?thesis by simp
next
  case False
  have "y - 1 = k * (y div k) + (y mod k - 1)"
    using mult_div_mod_eq [of k y] by simp
  moreover have "0 \<le> y mod k - 1" "y mod k - 1 < k"
    using assms False pos_mod_bound [of k y] pos_mod_sign [of k y] by linarith+
  ultimately have "(y - 1) div k = y div k"
    by (rule int_div_pos_eq)
  with False show ?thesis by simp
qed

lemma march_count_step_int: "march_count y = march_count (y - 1) + (if leap_int y then 366 else 365)"
proof -
  let ?l = "\<lambda>k. (if y mod k = 0 then 1 else 0 :: int)"
  have sum: "a = a' + l \<Longrightarrow> b = b' + m \<Longrightarrow> c = c' + n \<Longrightarrow>
      365 * z + a - b + c = 365 * (z - 1) + a' - b' + c' + 365 + l - m + n"
    for z a b c a' b' c' l m n :: int
    by simp
  have "march_count y = march_count (y - 1) + 365 + ?l 4 - ?l 100 + ?l 400"
    unfolding march_count_def
    by (rule sum [OF div_step_int div_step_int div_step_int]) simp_all
  moreover have "365 + ?l 4 - ?l 100 + ?l 400 = (if leap_int y then 366 else 365)"
  proof -
    have "y mod 100 = 0 \<Longrightarrow> y mod 4 = 0" "y mod 400 = 0 \<Longrightarrow> y mod 100 = 0"
      using mod_mod_cancel [of 4 100 y] mod_mod_cancel [of 100 400 y] by simp_all
    then show ?thesis
      unfolding leap_int_def
      by (cases "y mod 4 = 0"; cases "y mod 100 = 0"; cases "y mod 400 = 0") simp_all
  qed
  ultimately show ?thesis by linarith
qed

lemma march_count_step: "march_count (int y) = march_count (int y - 1) + int (year_length y)"
  using march_count_step_int [of "int y"] by (simp add: year_length_def is_leap_year_int)

lemma march_count_mono: "x \<le> y \<Longrightarrow> march_count x \<le> march_count y"
proof (induction y rule: int_ge_induct)
  case (step i)
  then show ?case using march_count_step_int [of "i + 1"] by (simp split: if_splits)
qed simp

lemma days_before_year_closed: "int (days_before_year y) = march_count (int y - 1) + 366"
proof (induction y)
  case 0
  show ?case by (simp add: days_before_year_def march_count_def)
next
  case (Suc y)
  have "int (days_before_year (Suc y)) = int (days_before_year y) + int (year_length y)"
    by (simp add: days_before_year_def)
  with Suc.IH march_count_step [of y] show ?case by simp
qed


text \<open>The months before a month, by enumeration; February's length is the year's.\<close>

lemma days_before_month_table:
  "days_before_month y (Suc 0) = 0" "days_before_month y 2 = 31"
  "days_before_month y 3 = year_length y - 306" "days_before_month y 4 = year_length y - 275"
  "days_before_month y 5 = year_length y - 245" "days_before_month y 6 = year_length y - 214"
  "days_before_month y 7 = year_length y - 184" "days_before_month y 8 = year_length y - 153"
  "days_before_month y 9 = year_length y - 122" "days_before_month y 10 = year_length y - 92"
  "days_before_month y 11 = year_length y - 61" "days_before_month y 12 = year_length y - 31"
  "days_before_month y 13 = year_length y"
  by (simp_all add: days_before_month_def month_length_def days_in_month_def year_length_def upt_rec)

lemma year_length_cases: "year_length y = 365 \<or> year_length y = 366"
  by (simp add: year_length_def)

text \<open>The March-based position of a day, as the code computes it, without the checks.\<close>

definition march_day :: "int \<Rightarrow> int \<Rightarrow> int" where
  "march_day m d = ((m + 9) mod 12 * 153 + 2) div 5 + d - 1"

lemma day_of_year_from_march_value:
  assumes "1 \<le> m" "m \<le> 12" "1 \<le> d" "d \<le> 31"
  shows "day_of_year_from_march m d = Some (march_day m d)"
proof -
  define k where "k = (m + 9) mod 12"
  have "0 \<le> k" "k < 12" by (simp_all add: k_def)
  moreover from this have "0 \<le> (k * 153 + 2) div 5" "(k * 153 + 2) div 5 \<le> 400"
    by linarith+
  ultimately show ?thesis
    using assms unfolding day_of_year_from_march_def march_day_def
    by (simp add: checked_defs in_i64_def Let_def flip: k_def)
qed

lemma era_split:
  fixes s :: int
  shows "s div 400 * 146097 + (s mod 400 * 365 + s mod 400 div 4 - s mod 400 div 100)
    = march_count s"
proof -
  define e r where "e = s div 400" and "r = s mod 400"
  have s: "s = 400 * e + r" by (simp add: e_def r_def)
  have r: "0 \<le> r" "r < 400" by (simp_all add: r_def)
  have "s div 4 = 100 * e + r div 4" "s div 100 = 4 * e + r div 100"
    unfolding s by (simp_all add: div_mult_self1 [symmetric]) 
  then show ?thesis
    unfolding march_count_def e_def [symmetric] r_def [symmetric] using s by simp
qed


text \<open>The era arithmetic, with the checks discharged: no step leaves \<open>i64\<close> for a date that exists.\<close>

definition march_year :: "civil_date \<Rightarrow> int" where
  "march_year c = (if month c \<le> 2 then int (year c) - 1 else int (year c))"

lemma days_from_epoch_march:
  assumes "valid_date c"
  shows "days_from_epoch c
    = Some (march_count (march_year c) + march_day (int (month c)) (int (day c)) - 719468)"
proof -
  note b = valid_date_bounds [OF assms]
  define s where "s = march_year c"
  define e r where "e = s div 400" and "r = s mod 400"
  define q h w where "q = r div 4" and "h = r div 100"
    and "w = march_day (int (month c)) (int (day c))"
  have s: "- 1 \<le> s" "s \<le> 9999"
    using b by (auto simp: s_def march_year_def)
  then have e: "- 1 \<le> e" "e \<le> 24" and r: "0 \<le> r" "r < 400"
    unfolding e_def r_def by linarith+
  from r have q: "0 \<le> q" "q \<le> 99" "0 \<le> h" "h \<le> 3"
    unfolding q_def h_def by linarith+
  have w': "day_of_year_from_march (int (month c)) (int (day c)) = Some w"
    unfolding w_def using b by (intro day_of_year_from_march_value) auto
  have "0 \<le> (int (month c) + 9) mod 12" "(int (month c) + 9) mod 12 < 12" by simp_all
  then have w: "0 \<le> w" "w \<le> 400"
    unfolding w_def march_day_def using b by linarith+
  have split: "(if int (month c) \<le> 2 then sub64 (int (year c)) 1 else Some (int (year c))) = Some s"
    using b by (auto simp: s_def march_year_def checked_defs in_i64_def)
  have "days_from_epoch c = Some (e * 146097 + (r * 365 + q - h + w) - 719468)"
    unfolding days_from_epoch_def Let_def split w'
    using s e r q w
    by (simp add: arith_consts checked_defs in_i64_def flip: e_def r_def q_def h_def)
  moreover have "e * 146097 + (r * 365 + q - h) = march_count s"
    unfolding e_def r_def q_def h_def by (rule era_split)
  ultimately show ?thesis by (simp add: s_def w_def)
qed

lemma march_count_pred: "march_count (int y - 1) = march_count (int y) - int (year_length y)"
  using march_count_step [of y] by simp

lemma day_number_march:
  assumes "valid_date c"
  shows "day_number c
    = march_count (march_year c) + march_day (int (month c)) (int (day c)) - 719468"
  using month_cases [OF valid_date_bounds(2,3) [OF assms]] year_length_cases [of "year c"]
  by (elim disjE)
     (simp_all add: day_number_def days_before_year_closed days_before_month_table
        march_year_def march_day_def march_count_pred)

lemma days_from_epoch_value:
  assumes "valid_date c"
  shows "days_from_epoch c = Some (day_number c)"
  using days_from_epoch_march [OF assms] day_number_march [OF assms] by simp

text \<open>The inverse: the year of its era that holds a day.\<close>

lemma year_of_era_bounds:
  fixes doe :: int
  assumes "0 \<le> doe" "doe < 146097"
  defines "yoe \<equiv> (doe - doe div 1460 + doe div 36524 - doe div 146096) div 365"
  defines "doy \<equiv> doe - yoe * 365 - (yoe div 4 - yoe div 100)"
  shows "0 \<le> yoe \<and> yoe < 400 \<and> 0 \<le> doy \<and> doy \<le> 365
    \<and> (doy = 365 \<longrightarrow> leap_int (yoe + 1))"
proof (cases "doe = 146096")
  case True
  then show ?thesis by (simp add: yoe_def doy_def leap_int_def)
next
  case False
  define b r where "b = doe div 36524" and "r = doe mod 36524"
  have doe: "doe = 36524 * b + r" by (simp add: b_def r_def)
  have r: "0 \<le> r" "r < 36524" by (simp_all add: r_def)
  have b: "0 \<le> b" "b \<le> 3" using assms(1,2) False r unfolding doe by linarith+
  define q s where "q = (24 * b + r) div 1460" and "s = (24 * b + r) mod 1460"
  have qs: "24 * b + r = 1460 * q + s" by (simp add: q_def s_def)
  have s: "0 \<le> s" "s < 1460" by (simp_all add: s_def)
  have "doe div 1460 = (1460 * (25 * b + q) + s) div 1460"
    using doe qs by (simp add: algebra_simps)
  then have a: "doe div 1460 = 25 * b + q" using s by simp
  have e: "doe div 146096 = 0" using assms(1,2) False by simp
  define t u where "t = (s - 24 * b - q) div 365" and "u = (s - 24 * b - q) mod 365"
  have tu: "s - 24 * b - q = 365 * t + u" by (simp add: t_def u_def)
  have u: "0 \<le> u" "u < 365" by (simp_all add: u_def)
  have "doe - doe div 1460 + doe div 36524 - doe div 146096 = 365 * (100 * b + 4 * q + t) + u"
    unfolding a e b_def [symmetric] using doe qs tu by (simp add: algebra_simps)
  then have yoe: "yoe = 100 * b + 4 * q + t"
    unfolding yoe_def using u by simp
  have q: "0 \<le> q" "q \<le> 25" using qs r b s by linarith+
  have t: "- 1 \<le> t" "t \<le> 3" using tu u s b q by linarith+
  have tq: "t = - 1 \<Longrightarrow> 1 \<le> q" using qs r s tu u b by linarith
  have q25: "t = - 1 \<and> u \<le> 363" if "q = 25"
  proof -
    have "t \<le> - 1" using that qs r tu u by linarith
    with t have "t = - 1" by linarith
    moreover from this have "u \<le> 363" using that qs r tu by linarith
    ultimately show ?thesis ..
  qed
  have doy: "doy = 36524 * b + r - 365 * (100 * b + 4 * q + t) - (yoe div 4 - yoe div 100)"
    unfolding doy_def doe yoe by simp
  have ru: "r = 1461 * q + 365 * t + u" using qs tu by linarith
  show ?thesis
  proof (cases "t = - 1")
    case True
    then have y: "yoe = 4 * (25 * b + q - 1) + 3" "yoe = 100 * b + (4 * q - 1)" unfolding yoe by simp_all
    have "yoe div 4 = 25 * b + q - 1" unfolding y(1) by simp
    moreover have "yoe div 100 = b" unfolding y(2) using tq [OF True] q by (intro int_div_pos_eq) auto
    ultimately have d: "doy = u + 1" unfolding doy ru True by simp
    have "q \<noteq> 25" if "u = 364" using that q25 by auto
    moreover have "(yoe + 1) mod 4 = 0" unfolding y(1) by simp
    moreover have "(yoe + 1) mod 100 = 4 * q" if "q \<noteq> 25"
      using that q tq [OF True] unfolding y(2) by simp
    ultimately show ?thesis using d u y(2) b q tq [OF True] by (auto simp: leap_int_def)
  next
    case False
    with t have t0: "0 \<le> t" by linarith
    then have "q \<noteq> 25" using q25 by auto
    with q have q: "0 \<le> q" "q \<le> 24" by linarith+
    have "yoe div 4 = 25 * b + q" unfolding yoe using t t0 by (intro int_div_pos_eq) auto
    moreover have "yoe div 100 = b" unfolding yoe using t t0 q
      by (intro int_div_pos_eq [where r = "4 * q + t"]) simp_all
    ultimately have d: "doy = u" unfolding doy ru by simp
    show ?thesis using d u yoe b q t t0 by auto
  qed
qed


text \<open>The days a March-based year holds: the last one is there only in a leap year.\<close>

definition in_march_year :: "int \<Rightarrow> int \<Rightarrow> bool" where
  "in_march_year s w \<longleftrightarrow> 0 \<le> w \<and> w \<le> 365 \<and> (w = 365 \<longrightarrow> leap_int (s + 1))"

lemma march_position_unique_le:
  assumes "in_march_year s w" "in_march_year s' w'" "march_count s + w = march_count s' + w'"
  shows "s' \<le> s"
proof (rule ccontr)
  assume "\<not> s' \<le> s"
  then have "march_count (s + 1) \<le> march_count s'" by (intro march_count_mono) simp
  moreover have "march_count s + w < march_count (s + 1)"
    using assms(1) march_count_step_int [of "s + 1"] by (auto simp: in_march_year_def)
  moreover have "0 \<le> w'" using assms(2) by (simp add: in_march_year_def)
  ultimately show False using assms(3) by linarith
qed

lemma march_position_unique:
  assumes "in_march_year s w" "in_march_year s' w'" "march_count s + w = march_count s' + w'"
  shows "s = s' \<and> w = w'"
proof -
  have "s = s'"
    using march_position_unique_le [OF assms] march_position_unique_le [OF assms(2,1) assms(3)[symmetric]]
    by simp
  with assms(3) show ?thesis by simp
qed

lemma month_length_table:
  "days_in_month y (Suc 0) = Some 31" "days_in_month y 2 = Some (if is_leap_year y then 29 else 28)"
  "days_in_month y 3 = Some 31" "days_in_month y 4 = Some 30" "days_in_month y 5 = Some 31"
  "days_in_month y 6 = Some 30" "days_in_month y 7 = Some 31" "days_in_month y 8 = Some 31"
  "days_in_month y 9 = Some 30" "days_in_month y 10 = Some 31" "days_in_month y 11 = Some 30"
  "days_in_month y 12 = Some 31"
  by (simp_all add: days_in_month_def)

lemma valid_date_in_march_year:
  assumes "valid_date c"
  shows "in_march_year (march_year c) (march_day (int (month c)) (int (day c)))"
  using month_cases [OF valid_date_bounds(2,3) [OF assms]] assms
  by (elim disjE)
     (auto simp: valid_date_iff month_length_table in_march_year_def march_year_def march_day_def
        is_leap_year_int split: if_splits)


lemma march_month_cases:
  fixes k :: int
  assumes "0 \<le> k" "k \<le> 11"
  shows "k = 0 \<or> k = 1 \<or> k = 2 \<or> k = 3 \<or> k = 4 \<or> k = 5 \<or> k = 6 \<or> k = 7 \<or> k = 8 \<or> k = 9
    \<or> k = 10 \<or> k = 11"
  using assms by presburger

text \<open>Month index, day of month and year of a March-based position, as the code names them.\<close>

definition march_month_index :: "int \<Rightarrow> int" where
  "march_month_index w = (w * 5 + 2) div 153"

definition civil_of_march :: "int \<Rightarrow> int \<Rightarrow> civil_date" where
  "civil_of_march s w =
     (let k = march_month_index w
      in \<lparr>year = nat (if k < 10 then s else s + 1),
          month = nat (if k < 10 then k + 3 else k - 9),
          day = nat (w - (k * 153 + 2) div 5 + 1)\<rparr>)"

lemma march_month_index_bounds:
  assumes "0 \<le> w" "w \<le> 365"
  shows "0 \<le> march_month_index w" "march_month_index w \<le> 11"
    "153 * march_month_index w \<le> w * 5 + 2" "w * 5 + 2 < 153 * march_month_index w + 153"
  using assms unfolding march_month_index_def by linarith+

lemma civil_of_march_month_day:
  assumes "in_march_year s w" "0 \<le> (if march_month_index w < 10 then s else s + 1)"
  defines "c \<equiv> civil_of_march s w"
  shows "march_year c = s" "march_day (int (month c)) (int (day c)) = w"
    "\<exists>n. days_in_month (year c) (month c) = Some n \<and> 1 \<le> day c \<and> day c \<le> n"
proof -
  define k where "k = march_month_index w"
  have w: "0 \<le> w" "w \<le> 365" and w365: "w \<le> 364 \<or> leap_int (s + 1)"
    using assms(1) by (auto simp: in_march_year_def)
  note kb = march_month_index_bounds [OF w, folded k_def]
  have kc: "k = 0 \<or> k = 1 \<or> k = 2 \<or> k = 3 \<or> k = 4 \<or> k = 5 \<or> k = 6 \<or> k = 7 \<or> k = 8 \<or> k = 9
    \<or> k = 10 \<or> k = 11"
    by (rule march_month_cases [OF kb(1,2)])
  have y: "0 \<le> (if k < 10 then s else s + 1)" using assms(2) by (simp add: k_def)
  have c: "c = \<lparr>year = nat (if k < 10 then s else s + 1),
      month = nat (if k < 10 then k + 3 else k - 9), day = nat (w - (k * 153 + 2) div 5 + 1)\<rparr>"
    by (simp add: c_def civil_of_march_def Let_def k_def)
  show "march_year c = s"
    using kc y kb w unfolding c by (elim disjE) (simp_all add: march_year_def)
  show "march_day (int (month c)) (int (day c)) = w"
    using kc y kb w unfolding c by (elim disjE) (simp_all add: march_day_def)
  show "\<exists>n. days_in_month (year c) (month c) = Some n \<and> 1 \<le> day c \<and> day c \<le> n"
    using kc y kb w w365 unfolding c
    by (elim disjE) (auto simp: month_length_table is_leap_year_int)
qed


lemma from_march_year_value:
  assumes "in_march_year s w" "\<bar>s\<bar> \<le> 100000000000000000"
  shows "from_march_year s w =
    (if 0 \<le> (if march_month_index w < 10 then s else s + 1)
        \<and> (if march_month_index w < 10 then s else s + 1) \<le> 9999
     then Some (civil_of_march s w) else None)"
proof -
  define k where "k = march_month_index w"
  define y where "y = (if k < 10 then s else s + 1)"
  define m where "m = (if k < 10 then k + 3 else k - 9)"
  define d where "d = w - (k * 153 + 2) div 5 + 1"
  have w: "0 \<le> w" "w \<le> 365" using assms(1) by (auto simp: in_march_year_def)
  note kb = march_month_index_bounds [OF w, folded k_def]
  have o: "0 \<le> (k * 153 + 2) div 5" "(k * 153 + 2) div 5 \<le> 400" using kb by linarith+
  have kc: "k = 0 \<or> k = 1 \<or> k = 2 \<or> k = 3 \<or> k = 4 \<or> k = 5 \<or> k = 6 \<or> k = 7 \<or> k = 8 \<or> k = 9
    \<or> k = 10 \<or> k = 11"
    by (rule march_month_cases [OF kb(1,2)])
  have d: "1 \<le> d" "d \<le> 31" using kc kb w unfolding d_def by (elim disjE; simp)+
  have m: "1 \<le> m" "m \<le> 12" using kb unfolding m_def by auto
  have idx: "(w * 5 + 2) div 153 = k" by (simp add: k_def march_month_index_def)
  have branch: "(if k < 10 then do { mo \<leftarrow> add64 k 3; Some (mo, s) }
      else do { mo \<leftarrow> sub64 k 9; ye \<leftarrow> add64 s 1; Some (mo, ye) }) = Some (m, y)"
    using kb assms(2) by (auto simp: checked_defs in_i64_def m_def y_def)
  have steps: "mul64 w 5 = Some (w * 5)" "add64 (w * 5) 2 = Some (w * 5 + 2)"
    "mul64 k 153 = Some (k * 153)" "add64 (k * 153) 2 = Some (k * 153 + 2)"
    "sub64 w ((k * 153 + 2) div 5) = Some (d - 1)" "add64 (d - 1) 1 = Some d"
    "u8_try_from m = Some (nat m)" "u8_try_from d = Some (nat d)"
    using w kb o m d by (auto simp: checked_defs in_i64_def d_def)
  have "from_march_year s w
      = do { y16 \<leftarrow> u16_try_from y; date_from_ymd y16 (nat m) (nat d) }"
    unfolding from_march_year_def Let_def
    by (simp add: steps idx branch cong: if_cong split del: if_split)
  moreover have "date_from_ymd (nat y) (nat m) (nat d) = Some (civil_of_march s w)"
    if "0 \<le> y" "y \<le> 9999"
    using civil_of_march_month_day(3) [OF assms(1)] that
    unfolding date_from_ymd_Some_iff civil_of_march_def Let_def
      k_def [symmetric] y_def [symmetric] m_def [symmetric] d_def [symmetric]
    by (auto simp: MAX_YEAR_def)
  moreover have "u16_try_from y = (if 0 \<le> y \<and> y \<le> 65535 then Some (nat y) else None)"
    by (simp add: u16_try_from_def)
  moreover have "date_from_ymd (nat y) (nat m) (nat d) = None" if "\<not> y \<le> 9999"
  proof -
    have "9999 < nat y" using that by linarith
    then show ?thesis by (simp add: date_from_ymd_def MAX_YEAR_def)
  qed
  ultimately show ?thesis
    unfolding k_def [symmetric] y_def [symmetric] by (cases "0 \<le> y"; cases "y \<le> 9999") auto
qed

lemma march_split:
  fixes n :: int
  defines "doe \<equiv> n mod 146097"
  defines "yoe \<equiv> (doe - doe div 1460 + doe div 36524 - doe div 146096) div 365"
  defines "doy \<equiv> doe - yoe * 365 - (yoe div 4 - yoe div 100)"
  shows "in_march_year (n div 146097 * 400 + yoe) doy"
    "march_count (n div 146097 * 400 + yoe) + doy = n"
    "0 \<le> yoe" "yoe < 400" "0 \<le> doy" "doy \<le> 365"
proof -
  have doe: "0 \<le> doe" "doe < 146097" by (simp_all add: doe_def)
  note y = year_of_era_bounds [OF doe, folded yoe_def, folded doy_def]
  then show yb: "0 \<le> yoe" "yoe < 400" "0 \<le> doy" "doy \<le> 365" by auto
  let ?s = "n div 146097 * 400 + yoe"
  have s: "?s div 400 = n div 146097" "?s mod 400 = yoe" using yb by simp_all
  have "march_count ?s = n div 146097 * 146097 + (yoe * 365 + yoe div 4 - yoe div 100)"
    using era_split [of ?s] unfolding s by simp
  then show "march_count ?s + doy = n" unfolding doy_def doe_def by simp
  have "leap_int (?s + 1) \<longleftrightarrow> leap_int (yoe + 1)"
  proof -
    have "(?s + 1) mod 400 = (yoe + 1) mod 400"
      using mod_mult_self1 [of "yoe + 1" "n div 146097" 400] by (simp add: algebra_simps)
    moreover have "x mod 4 = (x mod 400) mod 4" "x mod 100 = (x mod 400) mod 100" for x :: int
      by (simp_all add: mod_mod_cancel)
    ultimately show ?thesis unfolding leap_int_def by metis
  qed
  with y show "in_march_year ?s doy" by (auto simp: in_march_year_def)
qed


lemma from_days_from_epoch_value:
  assumes "in_i64 n"
  defines "og \<equiv> n + 719468"
  defines "doe \<equiv> og mod 146097"
  defines "yoe \<equiv> (doe - doe div 1460 + doe div 36524 - doe div 146096) div 365"
  defines "doy \<equiv> doe - yoe * 365 - (yoe div 4 - yoe div 100)"
  shows "from_days_from_epoch n =
    (if in_i64 og then from_march_year (og div 146097 * 400 + yoe) doy else None)"
proof (cases "in_i64 og")
  case False
  then show ?thesis
    by (simp add: from_days_from_epoch_def checked_defs arith_consts og_def)
next
  case True
  note y = march_split(3-6) [of og, folded doe_def, folded yoe_def, folded doy_def]
  define q h e where "q = yoe div 4" and "h = yoe div 100" and "e = og div 146097"
  have q: "0 \<le> q" "q \<le> 99" "0 \<le> h" "h \<le> 3" using y unfolding q_def h_def by linarith+
  have e: "\<bar>e\<bar> \<le> 100000000000000"
    using True unfolding e_def in_i64_def by linarith
  have doe: "0 \<le> doe" "doe < 146097" by (simp_all add: doe_def)
  have b: "0 \<le> doe div 1460" "doe div 1460 \<le> 200" "0 \<le> doe div 36524" "doe div 36524 \<le> 4"
    "0 \<le> doe div 146096" "doe div 146096 \<le> 1"
    using doe by linarith+
  have hold: "year_of_era_holding doe = Some yoe"
    using doe b unfolding year_of_era_holding_def yoe_def
    by (simp add: checked_defs in_i64_def arith_consts)
  have doy: "doy = doe - yoe * 365 - (q - h)" unfolding doy_def q_def h_def ..
  have steps: "add64 n DAYS_FROM_ERA_TO_EPOCH = Some og" "sub64 q h = Some (q - h)"
    "mul64 yoe DAYS_PER_COMMON_YEAR = Some (yoe * 365)"
    "sub64 doe (yoe * 365) = Some (doe - yoe * 365)"
    "sub64 (doe - yoe * 365) (q - h) = Some doy"
    "mul64 e YEARS_PER_ERA = Some (e * 400)" "add64 (e * 400) yoe = Some (e * 400 + yoe)"
    using True q y doe e doy by (auto simp: checked_defs in_i64_def arith_consts og_def)
  have era: "og div DAYS_PER_ERA = e" "og mod DAYS_PER_ERA = doe"
    by (simp_all add: DAYS_PER_ERA_def e_def doe_def)
  show ?thesis
    using True unfolding from_days_from_epoch_def
    by (simp add: steps era hold Let_def flip: q_def h_def e_def)
qed

lemma march_of_civil:
  assumes "valid_date c"
  defines "w \<equiv> march_day (int (month c)) (int (day c))"
  shows "march_month_index w = (int (month c) + 9) mod 12"
    "civil_of_march (march_year c) w = c"
    "(if march_month_index w < 10 then march_year c else march_year c + 1) = int (year c)"
proof -
  obtain n where d: "days_in_month (year c) (month c) = Some n" "day c \<le> n" "1 \<le> day c"
    using assms(1) by (auto simp: valid_date_iff)
  note mc = month_cases [OF valid_date_bounds(2,3) [OF assms(1)]]
  show idx: "march_month_index w = (int (month c) + 9) mod 12"
    using mc d unfolding w_def march_month_index_def march_day_def
    by (elim disjE) (auto simp: month_length_table split: if_splits)
  show "(if march_month_index w < 10 then march_year c else march_year c + 1) = int (year c)"
    using mc unfolding idx by (elim disjE) (simp_all add: march_year_def)
  show "civil_of_march (march_year c) w = c"
    using mc d unfolding civil_of_march_def Let_def idx
    unfolding w_def
    by (elim disjE) (auto simp: march_year_def march_day_def intro!: civil_date.equality)
qed

lemma day_number_bounds:
  assumes "valid_date c"
  shows "- 719834 \<le> day_number c \<and> day_number c \<le> 2933000"
proof -
  note vb = valid_date_bounds [OF assms]
  have "- 1 \<le> march_year c" "march_year c \<le> 9999"
    using vb(1) by (auto simp: march_year_def)
  then have "march_count (- 1) \<le> march_count (march_year c)"
    "march_count (march_year c) \<le> march_count 9999"
    by (auto intro: march_count_mono)
  moreover have "march_count (- 1) = - 366" "march_count 9999 = 3652059"
    by (simp_all add: march_count_def)
  ultimately show ?thesis
    using valid_date_in_march_year [OF assms]
    by (auto simp: day_number_march [OF assms] in_march_year_def)
qed

lemma from_days_from_epoch_iff:
  assumes "in_i64 n"
  shows "from_days_from_epoch n = Some c \<longleftrightarrow> valid_date c \<and> day_number c = n"
proof -
  define o' where "o' = n + 719468"
  define doe where "doe = o' mod 146097"
  define yoe where "yoe = (doe - doe div 1460 + doe div 36524 - doe div 146096) div 365"
  define doy where "doy = doe - yoe * 365 - (yoe div 4 - yoe div 100)"
  define s where "s = o' div 146097 * 400 + yoe"
  note y = march_split [of o', folded doe_def, folded yoe_def, folded doy_def, folded s_def]
  have val: "from_days_from_epoch n = (if in_i64 o' then from_march_year s doy else None)"
    unfolding s_def doy_def yoe_def doe_def o'_def by (rule from_days_from_epoch_value [OF assms])
  show ?thesis
  proof
    assume r: "from_days_from_epoch n = Some c"
    then have io: "in_i64 o'" and f: "from_march_year s doy = Some c"
      using val by (auto split: if_splits)
    have sb: "\<bar>s\<bar> \<le> 100000000000000000"
      using io y(3,4) unfolding s_def in_i64_def by linarith
    let ?y = "if march_month_index doy < 10 then s else s + 1"
    have yb: "0 \<le> ?y" "?y \<le> 9999" and c: "c = civil_of_march s doy"
      using f unfolding from_march_year_value [OF y(1) sb] by (auto split: if_splits)
    note m = civil_of_march_month_day [OF y(1) yb(1), folded c]
    have "year c = nat ?y" unfolding c by (simp add: civil_of_march_def Let_def)
    with m(3) yb(2) have v: "valid_date c" by (auto simp: valid_date_iff MAX_YEAR_def)
    with m(1,2) y(2) show "valid_date c \<and> day_number c = n"
      by (simp add: day_number_march o'_def)
  next
    assume a: "valid_date c \<and> day_number c = n"
    then have v: "valid_date c" and n: "day_number c = n" by auto
    note vb = valid_date_bounds [OF v]
    note im = valid_date_in_march_year [OF v]
    let ?w = "march_day (int (month c)) (int (day c))"
    have o: "march_count (march_year c) + ?w = o'"
      using day_number_march [OF v] n by (simp add: o'_def)
    have su: "march_year c = s" "?w = doy"
      using march_position_unique [OF im y(1)] o y(2) by simp_all
    have sb: "\<bar>s\<bar> \<le> 100000000000000000"
      using su(1) vb(1) by (auto simp: march_year_def split: if_splits)
    have "in_i64 o'"
      using day_number_bounds [OF v] n by (simp add: in_i64_def o'_def)
    moreover have "from_march_year s doy = Some c"
      using march_of_civil(2,3) [OF v, unfolded su] vb(1) from_march_year_value [OF y(1) sb]
      by simp
    ultimately show "from_days_from_epoch n = Some c"
      using val by simp
  qed
qed


lemma day_number_unique:
  assumes "valid_date c" "valid_date c'" "day_number c = day_number c'"
  shows "c = c'"
proof -
  have "in_i64 (day_number c)" using day_number_bounds [OF assms(1)] by (simp add: in_i64_def)
  note iff = from_days_from_epoch_iff [OF this]
  from iff assms have "from_days_from_epoch (day_number c) = Some c"
    "from_days_from_epoch (day_number c) = Some c'" by auto
  then show ?thesis by simp
qed

lemma day_number_in_i64: "valid_date c \<Longrightarrow> in_i64 (day_number c + k)" if "\<bar>k\<bar> \<le> 1000000000000"
  using that day_number_bounds [of c] by (auto simp: in_i64_def)

text \<open>The days that have a date are one unbroken interval.\<close>

lemma day_number_le_iff:
  assumes "valid_date c"
  shows "- 719528 \<le> day_number c" "day_number c \<le> 2932896"
proof -
  note vb = valid_date_bounds [OF assms]
  show "- 719528 \<le> day_number c" using vb by (simp add: day_number_def)
  have mlen: "int (day c) \<le> int (month_length (year c) (month c))"
    using assms by (auto simp: valid_date_iff month_length_def)
  have "int (days_before_month (year c) (month c)) + int (month_length (year c) (month c))
      \<le> int (year_length (year c))"
    using month_cases [OF vb(2,3)]
    by (elim disjE) (simp_all add: days_before_month_table month_length_def month_length_table year_length_def)
  moreover have "march_count (int (year c) - 1) + int (year_length (year c)) \<le> march_count 9999"
    using vb(1) march_count_step [of "year c"] march_count_mono [of "int (year c)" 9999] by simp
  moreover have "march_count 9999 = 3652059" by (simp add: march_count_def)
  ultimately show "day_number c \<le> 2932896"
    using mlen by (simp add: day_number_def days_before_year_closed)
qed

lemma from_days_from_epoch_total:
  assumes "- 719528 \<le> n" "n \<le> 2932896"
  shows "\<exists>c. from_days_from_epoch n = Some c \<and> valid_date c \<and> day_number c = n"
proof -
  define o' where "o' = n + 719468"
  define doe where "doe = o' mod 146097"
  define yoe where "yoe = (doe - doe div 1460 + doe div 36524 - doe div 146096) div 365"
  define doy where "doy = doe - yoe * 365 - (yoe div 4 - yoe div 100)"
  define s where "s = o' div 146097 * 400 + yoe"
  have i: "in_i64 n" "in_i64 o'" using assms by (auto simp: in_i64_def o'_def)
  have y: "in_march_year s doy" "march_count s + doy = o'" "0 \<le> yoe" "yoe < 400"
    unfolding s_def doy_def yoe_def doe_def by (rule march_split)+
  have "from_days_from_epoch n = (if in_i64 o' then from_march_year s doy else None)"
    unfolding s_def doy_def yoe_def doe_def o'_def by (rule from_days_from_epoch_value [OF i(1)])
  with i(2) have val: "from_days_from_epoch n = from_march_year s doy" by simp
  have doy: "0 \<le> doy" "doy \<le> 365" using y(1) by (auto simp: in_march_year_def)
  have lo: "march_count (- 1) = - 366" and hi: "march_count 9999 = 3652059"
    and lo2: "march_count (- 2) = - 731" by (simp_all add: march_count_def)
  have "- 1 \<le> s"
  proof (rule ccontr)
    assume "\<not> - 1 \<le> s"
    then have "march_count s \<le> march_count (- 2)" by (intro march_count_mono) simp
    then show False using y(2) doy assms lo2 by (simp add: o'_def)
  qed
  moreover have "s \<le> 9999"
  proof (rule ccontr)
    assume "\<not> s \<le> 9999"
    then have "march_count (9999 + 1) \<le> march_count s" by (intro march_count_mono) simp
    moreover have "march_count (9999 + 1) = march_count 9999 + 366"
      using march_count_step_int [of "10000"] by (simp add: leap_int_def)
    ultimately show False using y(2) doy assms hi by (simp add: o'_def)
  qed
  ultimately have sb: "\<bar>s\<bar> \<le> 100000000000000000" "- 1 \<le> s" "s \<le> 9999" by auto
  let ?k = "march_month_index doy"
  have "0 \<le> (if ?k < 10 then s else s + 1) \<and> (if ?k < 10 then s else s + 1) \<le> 9999"
  proof (cases "?k < 10")
    case True
    then have "doy \<le> 305" unfolding march_month_index_def using doy by linarith
    then have "s \<noteq> - 1" using y(2) lo assms by (auto simp: o'_def)
    with True sb show ?thesis by auto
  next
    case False
    then have "306 \<le> doy" unfolding march_month_index_def using doy by linarith
    then have "s \<noteq> 9999" using y(2) hi assms by (auto simp: o'_def)
    with False sb show ?thesis by auto
  qed
  then have "from_days_from_epoch n = Some (civil_of_march s doy)"
    using val from_march_year_value [OF y(1) sb(1)] by simp
  then show ?thesis using from_days_from_epoch_iff [OF i(1)] by blast
qed

lemma from_days_from_epoch_None_iff:
  assumes "in_i64 n"
  shows "from_days_from_epoch n = None \<longleftrightarrow> n < - 719528 \<or> 2932896 < n"
proof -
  have "n < - 719528 \<or> 2932896 < n" if "from_days_from_epoch n = None"
    using that from_days_from_epoch_total [of n] by force
  moreover have "- 719528 \<le> n \<and> n \<le> 2932896" if "from_days_from_epoch n = Some c" for c
    using that from_days_from_epoch_iff [OF assms, of c] day_number_le_iff [of c] by auto
  ultimately show ?thesis by (cases "from_days_from_epoch n") auto
qed

end
