(* ===== verification/Civil_Time.thy ===== *)
theory Civil_Time
  imports Civil_Arith
begin

text \<open>
  What the operations of \<open>core/arith.rs\<close> promise, on top of the day count of \<open>Civil_Arith\<close>: the
  conversions between dates and days are inverse to each other on exactly the representable
  range, the weekday advances with the days, adding months has the three outcomes its type
  names and no other, and the conversions to and from the timeline undo each other except for
  the folded leap second.
\<close>

section \<open>Clock arithmetic\<close>

lemma seconds_of_day_value:
  assumes "valid_time t"
  shows "seconds_of_day t = int (hour t) * 3600 + int (minute t) * 60 + int (min (second t) 59)"
    "0 \<le> seconds_of_day t" "seconds_of_day t < 86400"
proof -
  have b: "hour t \<le> 23" "minute t \<le> 59" "second t \<le> 60" using assms by (auto simp: valid_time_def)
  have m: "min (second t) 59 \<le> 59" by simp
  show v: "seconds_of_day t = int (hour t) * 3600 + int (minute t) * 60 + int (min (second t) 59)"
    using b m unfolding seconds_of_day_def Let_def
    by (simp add: arith_consts sat_i64_exact in_i64_def)
  show "0 \<le> seconds_of_day t" "seconds_of_day t < 86400"
    unfolding v using b m by linarith+
qed

text \<open>The clock reading after a number of seconds, as the code reads it off the remainders.\<close>

definition clock :: "int \<Rightarrow> civil_time" where
  "clock s = \<lparr>hour = nat (s div 3600), minute = nat (s div 60 mod 60), second = nat (s mod 60)\<rparr>"

lemma time_of_day_value:
  assumes "0 \<le> s" "s < 86400"
  shows "time_of_day s = Some (clock s)"
proof -
  define h m x where "h = s div 3600" and "m = s div 60 mod 60" and "x = s mod 60"
  have "0 \<le> h" "h \<le> 23" unfolding h_def using assms by linarith+
  moreover have "0 \<le> m" "m \<le> 59" "0 \<le> x" "x \<le> 59" by (auto simp: m_def x_def)
  ultimately show ?thesis
    unfolding time_of_day_def clock_def arith_consts h_def [symmetric] m_def [symmetric]
      x_def [symmetric]
    by (simp add: u8_try_from_def time_from_hms_Some_iff nat_le_iff)
qed

lemma clock_valid: "0 \<le> s \<Longrightarrow> s < 86400 \<Longrightarrow> valid_time (clock s) \<and> second (clock s) \<le> 59"
  unfolding valid_time_def clock_def by (auto simp: nat_le_iff)

lemma seconds_of_clock:
  assumes "0 \<le> s" "s < 86400"
  shows "seconds_of_day (clock s) = s"
proof -
  define h m x where "h = s div 3600" and "m = s div 60 mod 60" and "x = s mod 60"
  have b: "0 \<le> h" "0 \<le> m" "0 \<le> x" "x \<le> 59"
    using assms by (auto simp: h_def m_def x_def)
  have "s div 3600 = s div 60 div 60" by (simp add: zdiv_zmult2_eq [symmetric])
  moreover have "s div 60 div 60 * 60 + s div 60 mod 60 = s div 60" "s div 60 * 60 + s mod 60 = s"
    by (rule div_mult_mod_eq)+
  ultimately have s: "s = h * 3600 + m * 60 + x"
    unfolding h_def m_def x_def by linarith
  have "clock s = \<lparr>hour = nat h, minute = nat m, second = nat x\<rparr>"
    by (simp add: clock_def h_def m_def x_def)
  moreover have "valid_time (clock s)" using clock_valid [OF assms] by simp
  ultimately show ?thesis
    using b by (subst s) (simp add: seconds_of_day_value(1))
qed

text \<open>A leap second is the second before it; every other clock reading is its own.\<close>

definition fold_leap :: "civil_time \<Rightarrow> civil_time" where
  "fold_leap t = t\<lparr>second := min (second t) 59\<rparr>"

lemma clock_of_seconds:
  assumes "valid_time t"
  shows "clock (seconds_of_day t) = fold_leap t"
proof -
  have b: "int (hour t) \<le> 23" "int (minute t) \<le> 59" using assms by (auto simp: valid_time_def)
  define h m s where "h = int (hour t)" and "m = int (minute t)" and "s = int (min (second t) 59)"
  have hms: "0 \<le> h" "0 \<le> m" "m \<le> 59" "0 \<le> s" "s \<le> 59" using b by (auto simp: h_def m_def s_def)
  have v: "seconds_of_day t = h * 3600 + m * 60 + s"
    unfolding h_def m_def s_def by (rule seconds_of_day_value(1) [OF assms])
  have "seconds_of_day t div 3600 = h" unfolding v
    using hms by (intro int_div_pos_eq [where r = "m * 60 + s"]) auto
  moreover have sixty: "seconds_of_day t div 60 = h * 60 + m" unfolding v
    using hms by (intro int_div_pos_eq [where r = s]) auto
  moreover have "(h * 60 + m) mod 60 = m" using hms by simp
  moreover have "seconds_of_day t mod 60 = s" unfolding v
    using hms by (intro int_mod_pos_eq [where q = "h * 60 + m"]) auto
  ultimately show ?thesis
    by (simp add: clock_def fold_leap_def h_def m_def s_def)
qed

section \<open>Weekdays\<close>

lemma weekday_of_value:
  assumes "valid_date c"
  shows "weekday_of c = weekday_from_index (nat ((day_number c + 3) mod 7))"
proof -
  have "in_i64 (day_number c + 3)" using assms by (intro day_number_in_i64) simp
  moreover have "0 \<le> (day_number c + 3) mod 7" "(day_number c + 3) mod 7 \<le> 255"
    using pos_mod_bound [of 7 "day_number c + 3"] by simp_all
  ultimately show ?thesis
    unfolding weekday_of_def days_from_epoch_value [OF assms]
    by (simp add: add64_def checked_i64_def u8_try_from_def)
qed

lemma weekday_of_index:
  assumes "valid_date c"
  shows "\<exists>w. weekday_of c = Some w \<and> int (weekday_index w) = (day_number c + 3) mod 7"
proof -
  define i where "i = (day_number c + 3) mod 7"
  have i: "0 \<le> i" "i < 7" by (simp_all add: i_def)
  then obtain w where "weekday_from_index (nat i) = Some w"
    using weekday_from_index_Some [of "nat i"] by (auto simp: nat_less_iff)
  moreover from this have "weekday_index w = nat i" by (rule weekday_index_inverse)
  ultimately show ?thesis
    using i unfolding weekday_of_value [OF assms] by (simp add: i_def)
qed

lemma checked_add_days_iff:
  assumes "valid_date c" "in_i64 n"
  shows "checked_add_days c n = Some c' \<longleftrightarrow> valid_date c' \<and> day_number c' = day_number c + n"
proof (cases "in_i64 (day_number c + n)")
  case True
  then show ?thesis
    by (simp add: checked_add_days_def days_from_epoch_value [OF assms(1)] add64_def checked_i64_def
        from_days_from_epoch_iff)
next
  case False
  then have "\<not> (valid_date c' \<and> day_number c' = day_number c + n)"
    using day_number_in_i64 [of 0 c'] by auto
  with False show ?thesis
    by (simp add: checked_add_days_def days_from_epoch_value [OF assms(1)] add64_def checked_i64_def)
qed


section \<open>Adding months\<close>

text \<open>The month a date is moved to, counted from January of year 0.\<close>

definition month_total :: "civil_date \<Rightarrow> int \<Rightarrow> int" where
  "month_total c count = 12 * int (year c) + int (month c) - 1 + count"

lemma first_of_shifted_month_value:
  assumes "valid_date c" "in_i32 count"
  defines "t \<equiv> month_total c count"
  shows "first_of_shifted_month c count =
    (if 0 \<le> t \<and> t \<le> 119999
     then Some \<lparr>year = nat (t div 12), month = nat (t mod 12 + 1), day = 1\<rparr> else None)"
proof -
  note b = valid_date_bounds [OF assms(1)]
  define y m where "y = t div 12" and "m = t mod 12"
  have m: "0 \<le> m" "m < 12" by (simp_all add: m_def)
  have ty: "t = 12 * y + m" by (simp add: y_def m_def)
  have t: "t = int (year c) * 12 + int (month c) - 1 + count"
    by (simp add: t_def month_total_def)
  have lo: "- 2147483648 \<le> t" using b assms(2) unfolding t in_i32_def by linarith
  have steps: "mul32 (int (year c)) 12 = Some (int (year c) * 12)"
    "add32 (int (year c) * 12) (int (month c)) = Some (int (year c) * 12 + int (month c))"
    "sub32 (int (year c) * 12 + int (month c)) 1 = Some (int (year c) * 12 + int (month c) - 1)"
    "add32 (int (year c) * 12 + int (month c) - 1) count = (if t \<le> 2147483647 then Some t else None)"
    "t div 12 = y" "t mod 12 = m" "add32 m 1 = Some (m + 1)" "u8_try_from (m + 1) = Some (nat (m + 1))"
    using b m lo by (auto simp: checked_defs in_i32_def t y_def m_def)
  have len: "\<exists>n. days_in_month (nat y) (nat (m + 1)) = Some n"
    using m by (simp add: days_in_month_Some_iff le_nat_iff nat_le_iff)
  have "first_of_shifted_month c count =
      (if t \<le> 2147483647
       then do { y16 \<leftarrow> u16_try_from y; date_from_ymd y16 (nat (m + 1)) 1 } else None)"
    unfolding first_of_shifted_month_def
    by (simp add: steps Let_def MONTHS_PER_YEAR_def)
  moreover have "(0 \<le> t \<and> t \<le> 119999) \<longleftrightarrow> (0 \<le> y \<and> y \<le> 9999)" using ty m by linarith
  moreover have "date_from_ymd (nat y) (nat (m + 1)) 1
      = (if nat y \<le> 9999 then Some \<lparr>year = nat y, month = nat (m + 1), day = 1\<rparr> else None)"
    using len days_in_month_bounds by (auto simp: date_from_ymd_def MAX_YEAR_def split: option.splits) fastforce
  moreover have "y \<le> 9999 \<Longrightarrow> t \<le> 2147483647" using ty m by linarith
  ultimately show ?thesis
    unfolding y_def [symmetric] m_def [symmetric] by (auto simp: u16_try_from_def nat_le_iff)
qed


text \<open>The reference: the day is kept where the month has it, and named where it has not.\<close>

definition month_add_spec :: "civil_date \<Rightarrow> int \<Rightarrow> month_add_outcome" where
  "month_add_spec c count =
     (let t = month_total c count; y = nat (t div 12); m = nat (t mod 12 + 1);
          len = month_length y m
      in if t < 0 \<or> 119999 < t then Overflow
         else if day c \<le> len then Exact \<lparr>year = y, month = m, day = day c\<rparr>
         else Clamped \<lparr>year = y, month = m, day = len\<rparr> (day c))"

lemma add_months_value:
  assumes "valid_date c" "in_i32 count"
  shows "add_months c count = month_add_spec c count"
proof (cases "0 \<le> month_total c count \<and> month_total c count \<le> 119999")
  case False
  then show ?thesis
    using first_of_shifted_month_value [OF assms]
    by (auto simp: add_months_def month_add_spec_def Let_def)
next
  case True
  define t where "t = month_total c count"
  define y m where "y = nat (t div 12)" and "m = nat (t mod 12 + 1)"
  have first: "first_of_shifted_month c count = Some \<lparr>year = y, month = m, day = 1\<rparr>"
    using True first_of_shifted_month_value [OF assms] by (simp add: t_def y_def m_def)
  have "1 \<le> m" "m \<le> 12" by (auto simp: m_def nat_le_iff le_nat_iff)
  then obtain n where n: "days_in_month y m = Some n"
    using days_in_month_Some_iff [of y m] by auto
  have nb: "28 \<le> n" using days_in_month_bounds [OF n] by simp
  have "t div 12 \<le> 9999" using True unfolding t_def by linarith
  then have y: "y \<le> 9999" by (simp add: y_def)
  have d: "1 \<le> day c" using valid_date_bounds [OF assms(1)] by simp
  have ymd: "date_from_ymd y m k = Some \<lparr>year = y, month = m, day = k\<rparr>" if "1 \<le> k" "k \<le> n" for k
    using that y n by (simp add: date_from_ymd_Some_iff MAX_YEAR_def)
  have "month_add_spec c count =
      (if day c \<le> n then Exact \<lparr>year = y, month = m, day = day c\<rparr>
       else Clamped \<lparr>year = y, month = m, day = n\<rparr> (day c))"
    using True n
    by (simp add: month_add_spec_def Let_def month_length_def flip: t_def y_def m_def)
  then show ?thesis
    using first n d nb ymd [of "day c"] ymd [of n] by (simp add: add_months_def)
qed

section \<open>The timeline\<close>

text \<open>Seconds on the local timeline that a clock reading these fields names.\<close>

definition local_seconds :: "civil_datetime \<Rightarrow> int" where
  "local_seconds dt = day_number (date_part dt) * 86400 + seconds_of_day (time_part dt)"

lemma local_seconds_bound: "valid_datetime dt \<Longrightarrow> \<bar>local_seconds dt\<bar> \<le> 1000000000000"
  using day_number_bounds [of "date_part dt"] seconds_of_day_value(2,3) [of "time_part dt"]
  by (auto simp: valid_datetime_def local_seconds_def)

lemma at_offset_value:
  assumes "valid_datetime dt" "valid_offset off"
  shows "at_offset dt off = Some \<lparr>unix_seconds = local_seconds dt - offset_seconds off\<rparr>"
proof -
  have v: "valid_date (date_part dt)" "valid_time (time_part dt)"
    using assms(1) by (auto simp: valid_datetime_def)
  have o: "- 86400 < offset_seconds off" "offset_seconds off < 86400"
    using assms(2) by (auto simp: valid_offset_def)
  show ?thesis
    using day_number_bounds [OF v(1)] seconds_of_day_value(2,3) [OF v(2)] o
    unfolding at_offset_def days_from_epoch_value [OF v(1)] local_seconds_def
    by (simp add: checked_defs in_i64_def SECONDS_PER_DAY_def)
qed

lemma from_instant_iff:
  assumes "in_i64 (unix_seconds i)" "valid_offset off"
  shows "from_instant i off = Some dt \<longleftrightarrow>
    valid_datetime dt \<and> second (time_part dt) \<le> 59
      \<and> local_seconds dt = unix_seconds i + offset_seconds off"
proof -
  define l where "l = unix_seconds i + offset_seconds off"
  define d s where "d = l div 86400" and "s = l mod 86400"
  have l: "l = d * 86400 + s" and s: "0 \<le> s" "s < 86400" by (simp_all add: d_def s_def)
  have o: "- 86400 < offset_seconds off" "offset_seconds off < 86400"
    using assms(2) by (auto simp: valid_offset_def)
  have di: "in_i64 d" using assms(1) o s l unfolding in_i64_def l_def by linarith
  have calc: "from_instant i off = (if in_i64 l then
      do { c \<leftarrow> from_days_from_epoch d; Some \<lparr>date_part = c, time_part = clock s\<rparr>} else None)"
    unfolding from_instant_def add64_def l_def [symmetric]
    by (simp add: checked_i64_def SECONDS_PER_DAY_def time_of_day_value [OF s] flip: d_def s_def)
  show ?thesis
  proof
    assume "from_instant i off = Some dt"
    then obtain c where c: "from_days_from_epoch d = Some c"
      and dt: "dt = \<lparr>date_part = c, time_part = clock s\<rparr>"
      using calc by (auto split: if_splits elim: option_bind_SomeE)
    then show "valid_datetime dt \<and> second (time_part dt) \<le> 59
      \<and> local_seconds dt = unix_seconds i + offset_seconds off"
      using clock_valid [OF s] seconds_of_clock [OF s] from_days_from_epoch_iff [OF di] l
      by (auto simp: valid_datetime_def local_seconds_def l_def)
  next
    assume a: "valid_datetime dt \<and> second (time_part dt) \<le> 59
      \<and> local_seconds dt = unix_seconds i + offset_seconds off"
    then have v: "valid_date (date_part dt)" "valid_time (time_part dt)"
      and ls: "l = day_number (date_part dt) * 86400 + seconds_of_day (time_part dt)"
      by (auto simp: valid_datetime_def local_seconds_def l_def)
    have sd: "0 \<le> seconds_of_day (time_part dt)" "seconds_of_day (time_part dt) < 86400"
      by (rule seconds_of_day_value [OF v(2)])+
    have "d = day_number (date_part dt)" "s = seconds_of_day (time_part dt)"
      unfolding d_def s_def ls using sd by simp_all
    moreover have "clock (seconds_of_day (time_part dt)) = time_part dt"
      unfolding clock_of_seconds [OF v(2)] fold_leap_def using a by simp
    moreover have "in_i64 l"
      using local_seconds_bound [of dt] a by (intro in_i64_small) (simp add: l_def)
    ultimately show "from_instant i off = Some dt"
      using calc from_days_from_epoch_iff [OF di, of "date_part dt"] v(1) by simp
  qed
qed

lemma checked_add_duration_iff:
  assumes "valid_datetime dt" "valid_duration span"
    "in_i64 (seconds_of_day (time_part dt) + span_seconds span)"
  shows "checked_add_duration dt span = Some dt' \<longleftrightarrow>
    valid_datetime dt' \<and> second (time_part dt') \<le> 59
      \<and> local_seconds dt' = local_seconds dt + span_days span * 86400 + span_seconds span"
proof -
  have v: "valid_date (date_part dt)" "valid_time (time_part dt)"
    using assms(1) by (auto simp: valid_datetime_def)
  define k where "k = seconds_of_day (time_part dt) + span_seconds span"
  define q s where "q = k div 86400" and "s = k mod 86400"
  have k: "k = q * 86400 + s" and s: "0 \<le> s" "s < 86400" by (simp_all add: q_def s_def)
  note db = day_number_bounds [OF v(1)]
  have qb: "\<bar>q\<bar> \<le> 110000000000000" using s k assms(3) unfolding k_def in_i64_def by linarith
  define m n where "m = day_number (date_part dt) + span_days span" and "n = m + q"
  have "in_i64 k" using assms(3) by (simp add: k_def)
  then have calc: "checked_add_duration dt span = (if in_i64 m \<and> in_i64 n then
      do { c \<leftarrow> from_days_from_epoch n; Some \<lparr>date_part = c, time_part = clock s\<rparr>} else None)"
    unfolding checked_add_duration_def days_from_epoch_value [OF v(1)]
    by (simp add: add64_def checked_i64_def SECONDS_PER_DAY_def n_def time_of_day_value [OF s]
        flip: k_def q_def s_def m_def)
  have tot: "local_seconds dt + span_days span * 86400 + span_seconds span = n * 86400 + s"
    using k by (simp add: local_seconds_def n_def m_def k_def)
  show ?thesis
  proof
    assume "checked_add_duration dt span = Some dt'"
    then obtain c where c: "in_i64 n" "from_days_from_epoch n = Some c"
      and "dt' = \<lparr>date_part = c, time_part = clock s\<rparr>"
      using calc by (auto split: if_splits elim: option_bind_SomeE)
    then show "valid_datetime dt' \<and> second (time_part dt') \<le> 59
      \<and> local_seconds dt' = local_seconds dt + span_days span * 86400 + span_seconds span"
      unfolding tot
      using clock_valid [OF s] seconds_of_clock [OF s] from_days_from_epoch_iff [OF c(1)]
      by (auto simp: valid_datetime_def local_seconds_def)
  next
    assume a: "valid_datetime dt' \<and> second (time_part dt') \<le> 59
      \<and> local_seconds dt' = local_seconds dt + span_days span * 86400 + span_seconds span"
    then have v': "valid_date (date_part dt')" "valid_time (time_part dt')"
      and ls: "n * 86400 + s = day_number (date_part dt') * 86400 + seconds_of_day (time_part dt')"
      unfolding tot by (auto simp: valid_datetime_def local_seconds_def)
    note sd' = seconds_of_day_value(2,3) [OF v'(2)]
    have n: "n = day_number (date_part dt')" using ls sd' s by linarith
    with ls have "s = seconds_of_day (time_part dt')" by linarith
    moreover have "clock (seconds_of_day (time_part dt')) = time_part dt'"
      unfolding clock_of_seconds [OF v'(2)] fold_leap_def using a by simp
    moreover have "in_i64 n" "in_i64 m"
      using n qb day_number_bounds [OF v'(1)] by (auto simp: in_i64_def n_def)
    ultimately show "checked_add_duration dt span = Some dt'"
      using calc from_days_from_epoch_iff [of n "date_part dt'"] v'(1) n by simp
  qed
qed

section \<open>The properties\<close>

text \<open>
  C29. The day count of every date that exists is the reference count: the era arithmetic of
  \<open>days_from_epoch\<close> never leaves its integers and yields the number of days from 1970-01-01
  obtained by adding up the lengths of the years and months before the date.
\<close>

theorem epoch_days_are_calendar_days:
  assumes "valid_date c"
  shows "days_from_epoch c =
    Some (int (sum_list (map year_length [0..<year c]))
        + int (sum_list (map (month_length (year c)) [1..<month c])) + int (day c) - 1 - 719528)"
  using days_from_epoch_value [OF assms]
  by (simp add: day_number_def days_before_year_def days_before_month_def)

theorem epoch_days_are_calendar_days_witness:
  "valid_date \<lparr>year = 2, month = 3, day = 1\<rparr>
    \<and> days_from_epoch \<lparr>year = 2, month = 3, day = 1\<rparr> = Some (366 + 365 + 31 + 28 - 719528)"
proof -
  have v: "valid_date \<lparr>year = 2, month = 3, day = 1\<rparr>"
    by (simp add: valid_date_def date_from_ymd_def days_in_month_def MAX_YEAR_def)
  have u: "[0..<2] = [0, 1 :: nat]" "[1..<3] = [1, 2 :: nat]" by code_simp+
  have "days_from_epoch \<lparr>year = 2, month = 3, day = 1\<rparr> = Some (366 + 365 + 31 + 28 - 719528)"
    unfolding epoch_days_are_calendar_days [OF v] civil_date.simps u
    by (simp add: year_length_def is_leap_year_def month_length_def days_in_month_def)
  with v show ?thesis by simp
qed

text \<open>
  C30. The two conversions between dates and day counts are inverse to each other: for every
  \<open>i64\<close>, \<open>from_days_from_epoch\<close> answers with a date exactly when a date that exists has that day
  count, with that date, and it refuses exactly the counts outside 0000-01-01 to 9999-12-31.
\<close>

theorem epoch_day_conversions_inverse:
  assumes "in_i64 n"
  shows "(from_days_from_epoch n = Some c \<longleftrightarrow> valid_date c \<and> days_from_epoch c = Some n)
    \<and> (from_days_from_epoch n = None \<longleftrightarrow> n < - 719528 \<or> 2932896 < n)"
proof -
  have "valid_date c \<and> day_number c = n \<longleftrightarrow> valid_date c \<and> days_from_epoch c = Some n"
    by (cases "valid_date c") (simp_all only: days_from_epoch_value option.inject simp_thms)
  then show ?thesis
    unfolding from_days_from_epoch_iff [OF assms] from_days_from_epoch_None_iff [OF assms] by blast
qed

theorem epoch_day_conversions_inverse_witness:
  "in_i64 11016
    \<and> from_days_from_epoch 11016 = Some \<lparr>year = 2000, month = 2, day = 29\<rparr>
    \<and> from_days_from_epoch 2932897 = None"
proof -
  have i: "in_i64 11016" "in_i64 2932897" by (simp_all add: in_i64_def)
  have "valid_date \<lparr>year = 2000, month = 2, day = 29\<rparr>
      \<and> days_from_epoch \<lparr>year = 2000, month = 2, day = 29\<rparr> = Some 11016"
    by (simp add: valid_date_def date_from_ymd_def days_in_month_def MAX_YEAR_def is_leap_year_def
        days_from_epoch_def day_of_year_from_march_def arith_consts checked_defs in_i64_def)
  then show ?thesis
    using epoch_day_conversions_inverse [OF i(1)] epoch_day_conversions_inverse [OF i(2)] i
    by simp
qed


text \<open>
  \<open>weekday\<close> is never \<open>None\<close> for a date that exists, is Thursday on 1970-01-01, and moving a
  date by any number of days moves its weekday by that number of places in the week.
\<close>

theorem weekday_follows_days:
  assumes "valid_date c" "in_i64 n" "checked_add_days c n = Some c'"
  shows "\<exists>w w'. weekday_of c = Some w \<and> weekday_of c' = Some w'
    \<and> int (weekday_index w') = (int (weekday_index w) + n) mod 7
    \<and> weekday_of \<lparr>year = 1970, month = 1, day = 1\<rparr> = Some Thursday"
proof -
  have c': "valid_date c'" "day_number c' = day_number c + n"
    using assms by (auto simp: checked_add_days_iff)
  obtain w w' where w: "weekday_of c = Some w" "int (weekday_index w) = (day_number c + 3) mod 7"
    and w': "weekday_of c' = Some w'" "int (weekday_index w') = (day_number c + n + 3) mod 7"
    using weekday_of_index [OF assms(1)] weekday_of_index [OF c'(1)] c'(2) by auto
  have "int (weekday_index w') = (int (weekday_index w) + n) mod 7"
    unfolding w(2) w'(2) by (simp add: mod_simps algebra_simps)
  moreover have "weekday_of \<lparr>year = 1970, month = 1, day = 1\<rparr> = Some Thursday"
    by (simp add: weekday_of_def days_from_epoch_def day_of_year_from_march_def arith_consts
        checked_defs in_i64_def weekday_from_index_def)
  ultimately show ?thesis using w(1) w'(1) by blast
qed

theorem weekday_follows_days_witness:
  "checked_add_days \<lparr>year = 1970, month = 1, day = 1\<rparr> 10
     = Some \<lparr>year = 1970, month = 1, day = 11\<rparr>
   \<and> weekday_of \<lparr>year = 1970, month = 1, day = 11\<rparr> = Some Sunday"
proof -
  have v: "valid_date \<lparr>year = 1970, month = 1, day = 1\<rparr>"
    by (simp add: valid_date_def date_from_ymd_def days_in_month_def MAX_YEAR_def)
  have i: "in_i64 10" by (simp add: in_i64_def)
  have a: "checked_add_days \<lparr>year = 1970, month = 1, day = 1\<rparr> 10
      = Some \<lparr>year = 1970, month = 1, day = 11\<rparr>"
    by (simp add: checked_add_days_def days_from_epoch_def day_of_year_from_march_def
        from_days_from_epoch_def year_of_era_holding_def from_march_year_def arith_consts
        checked_defs in_i64_def Let_def date_from_ymd_def days_in_month_def MAX_YEAR_def)
  from weekday_follows_days [OF v i a] obtain w w' where
    "weekday_of \<lparr>year = 1970, month = 1, day = 1\<rparr> = Some w"
    "weekday_of \<lparr>year = 1970, month = 1, day = 11\<rparr> = Some w'"
    "int (weekday_index w') = (int (weekday_index w) + 10) mod 7"
    "weekday_of \<lparr>year = 1970, month = 1, day = 1\<rparr> = Some Thursday" by blast
  then have "weekday_of \<lparr>year = 1970, month = 1, day = 11\<rparr> = Some Sunday"
    by (cases w') auto
  with a show ?thesis by simp
qed

text \<open>
  Adding months has exactly its three outcomes: \<open>Overflow\<close> precisely when the target month is
  outside years 0 to 9999 (an overflowing month index included), \<open>Exact\<close> with the same day when
  the target month has that day, and otherwise \<open>Clamped\<close>, carrying the last day of the target
  month and the day that was asked for.
\<close>

theorem add_months_outcomes:
  assumes "valid_date c" "in_i32 count"
  shows "add_months c count =
    (let t = 12 * int (year c) + int (month c) - 1 + count;
         y = nat (t div 12); m = nat (t mod 12 + 1); len = month_length y m
     in if t < 0 \<or> 119999 < t then Overflow
        else if day c \<le> len then Exact \<lparr>year = y, month = m, day = day c\<rparr>
        else Clamped \<lparr>year = y, month = m, day = len\<rparr> (day c))"
  using add_months_value [OF assms] by (simp add: month_add_spec_def month_total_def)

theorem add_months_outcomes_witness:
  "add_months \<lparr>year = 2023, month = 10, day = 31\<rparr> 4
     = Clamped \<lparr>year = 2024, month = 2, day = 29\<rparr> 31"
proof -
  have v: "valid_date \<lparr>year = 2023, month = 10, day = 31\<rparr>" and i: "in_i32 4"
    by (simp_all add: valid_date_def date_from_ymd_def days_in_month_def MAX_YEAR_def in_i32_def)
  show ?thesis
    unfolding add_months_outcomes [OF v i]
    by (simp add: Let_def month_length_def days_in_month_def is_leap_year_def)
qed

text \<open>
  C31. A clock reading and the instant it names determine each other: at any fixed offset,
  \<open>from_instant\<close> gives back a date-time exactly when \<open>at_offset\<close> maps that date-time to the instant
  and it is no leap second, and a leap second names the same instant as the second before it.
\<close>

theorem timeline_round_trip:
  assumes "valid_datetime dt" "valid_offset off" "in_i64 (unix_seconds i)"
  shows "(from_instant i off = Some dt
      \<longleftrightarrow> at_offset dt off = Some i \<and> second (time_part dt) \<le> 59)
    \<and> at_offset dt off
      = at_offset (dt\<lparr>time_part := (time_part dt)\<lparr>second := min (second (time_part dt)) 59\<rparr>\<rparr>) off"
proof -
  let ?f = "dt\<lparr>time_part := (time_part dt)\<lparr>second := min (second (time_part dt)) 59\<rparr>\<rparr>"
  have f: "valid_datetime ?f" using assms(1) by (auto simp: valid_datetime_def valid_time_def)
  have "local_seconds ?f = local_seconds dt"
    using assms(1) f by (simp add: local_seconds_def valid_datetime_def seconds_of_day_value(1))
  then have "at_offset dt off = at_offset ?f off"
    using at_offset_value assms(1,2) f by simp
  moreover have "at_offset dt off = Some i
      \<longleftrightarrow> local_seconds dt = unix_seconds i + offset_seconds off"
    unfolding at_offset_value [OF assms(1,2)] by (cases i) auto
  ultimately show ?thesis
    unfolding from_instant_iff [OF assms(3,2)] using assms(1) by blast
qed

theorem timeline_round_trip_witness:
  "from_instant \<lparr>unix_seconds = 3600\<rparr> \<lparr>offset_seconds = - 7200\<rparr>
     = Some \<lparr>date_part = \<lparr>year = 1969, month = 12, day = 31\<rparr>,
             time_part = \<lparr>hour = 23, minute = 0, second = 0\<rparr>\<rparr>"
proof -
  let ?dt = "\<lparr>date_part = \<lparr>year = 1969, month = 12, day = 31\<rparr>,
             time_part = \<lparr>hour = 23, minute = 0, second = 0\<rparr>\<rparr>"
  have v: "valid_datetime ?dt" "valid_offset \<lparr>offset_seconds = - 7200\<rparr>"
    "in_i64 (unix_seconds \<lparr>unix_seconds = 3600\<rparr>)"
    by (simp_all add: valid_datetime_def valid_time_def valid_offset_def in_i64_def valid_date_def
        date_from_ymd_def days_in_month_def MAX_YEAR_def)
  have "at_offset ?dt \<lparr>offset_seconds = - 7200\<rparr> = Some \<lparr>unix_seconds = 3600\<rparr>"
    by (simp add: at_offset_def days_from_epoch_def day_of_year_from_march_def arith_consts
        checked_defs in_i64_def seconds_of_day_def Let_def sat_i64_def)
  moreover have "second (time_part ?dt) \<le> 59" by simp
  ultimately show ?thesis by (intro timeline_round_trip [OF v, THEN conjunct1, THEN iffD2] conjI)
qed



end
