(* ===== verification/Ledger.thy ===== *)
theory Ledger
  imports Prelude
begin

text \<open>
  The resource policy and the running ledger of \<open>core/grammar/budget.rs\<close>, and the two failure
  vocabularies of \<open>core/grammar/failure.rs\<close>.  A \<open>Limits\<close> value is a record of the caller's
  bounds, a \<open>Meter\<close> a record of counters; every method that takes \<open>&mut self\<close> is a function from
  the ledger to its result and the ledger it leaves, and the record-update syntax is the model of
  the \<open>with_*\<close> builders.  The counters saturate at their width.
\<close>

section \<open>Failures\<close>

datatype parse_error =
    InputTooLarge nat
  | ValueTooLarge nat
  | HeaderTooLarge nat
  | TooManyParameters nat
  | TooManyFolds nat
  | TooManyItems nat
  | TooDeep nat

datatype limit_exceeded =
    LBudget | LItems | LDepth | LElements | LHref | LResponses | LProperties | LText
  | LPrefixBindings | LCandidates | LOccurrences | LRdateEntries | LExdateEntries
  | LOverrideEntries | LVtimezoneObservances | LVtimezoneComponents | LFreeBusyPeriods

section \<open>The policy\<close>

record grammar_limits =
  gl_header_bytes :: nat
  gl_parameters :: nat
  gl_folds_per_line :: nat

record limits =
  grammar :: grammar_limits
  max_input_bytes :: nat
  max_value_bytes :: nat
  max_component_depth :: nat
  max_items :: nat
  candidates_per_period :: nat
  occurrences_per_search :: nat
  rdate_entries :: nat
  exdate_entries :: nat
  override_entries :: nat
  max_vtimezone_observances :: nat
  max_vtimezone_components :: nat
  max_payload_components :: nat
  max_payload_properties :: nat
  max_attendees :: nat
  max_xml_depth :: nat
  max_xml_elements :: nat
  max_response_bytes :: nat
  max_href_bytes :: nat
  max_responses :: nat
  max_props_per_response :: nat
  max_xml_text_bytes :: nat
  max_prefix_bindings :: nat
  max_freebusy_periods :: nat

definition GRAMMAR_DEFAULT :: grammar_limits where
  "GRAMMAR_DEFAULT = \<lparr>gl_header_bytes = 4096, gl_parameters = 64, gl_folds_per_line = 16384\<rparr>"

definition GRAMMAR_GENEROUS :: grammar_limits where
  "GRAMMAR_GENEROUS =
     \<lparr>gl_header_bytes = 65536, gl_parameters = 1024, gl_folds_per_line = 1048576\<rparr>"

definition LIMITS_DEFAULT :: limits where
  "LIMITS_DEFAULT = \<lparr>
     grammar = GRAMMAR_DEFAULT,
     max_input_bytes = 16777216,
     max_value_bytes = 1048576,
     max_component_depth = 32,
     max_items = 100000,
     candidates_per_period = 65536,
     occurrences_per_search = 262144,
     rdate_entries = 4096,
     exdate_entries = 4096,
     override_entries = 4096,
     max_vtimezone_observances = 4096,
     max_vtimezone_components = 256,
     max_payload_components = 1024,
     max_payload_properties = 8192,
     max_attendees = 4096,
     max_xml_depth = 64,
     max_xml_elements = 100000,
     max_response_bytes = 67108864,
     max_href_bytes = 4096,
     max_responses = 10000,
     max_props_per_response = 256,
     max_xml_text_bytes = 1048576,
     max_prefix_bindings = 64,
     max_freebusy_periods = 4096\<rparr>"

definition LIMITS_GENEROUS :: limits where
  "LIMITS_GENEROUS = \<lparr>
     grammar = GRAMMAR_GENEROUS,
     max_input_bytes = 536870912,
     max_value_bytes = 67108864,
     max_component_depth = 64,
     max_items = 5000000,
     candidates_per_period = 1048576,
     occurrences_per_search = 1048576,
     rdate_entries = 65536,
     exdate_entries = 65536,
     override_entries = 65536,
     max_vtimezone_observances = 65536,
     max_vtimezone_components = 4096,
     max_payload_components = 65536,
     max_payload_properties = 131072,
     max_attendees = 65536,
     max_xml_depth = 128,
     max_xml_elements = 5000000,
     max_response_bytes = 1073741824,
     max_href_bytes = 65536,
     max_responses = 1000000,
     max_props_per_response = 4096,
     max_xml_text_bytes = 67108864,
     max_prefix_bindings = 256,
     max_freebusy_periods = 65536\<rparr>"

section \<open>The ledger\<close>

record meter =
  m_limits :: limits
  m_budget :: nat
  m_spent :: nat
  m_items :: nat
  m_depth :: nat
  m_element_depth :: nat
  m_elements :: nat
  m_responses :: nat
  m_bindings :: nat
  m_candidates :: nat
  m_candidates_charged :: nat
  m_occurrences :: nat
  m_rdates :: nat
  m_exdates :: nat
  m_overrides :: nat
  m_observances :: nat
  m_zones :: nat
  m_freebusy_periods :: nat
  m_dropped :: nat
  m_exhausted :: bool

type_synonym 'e charged = "('e + unit) \<times> meter"

definition meter_with_budget :: "limits \<Rightarrow> nat \<Rightarrow> meter" where
  "meter_with_budget lim b = \<lparr>
     m_limits = lim, m_budget = b, m_spent = 0, m_items = 0, m_depth = 0, m_element_depth = 0,
     m_elements = 0, m_responses = 0, m_bindings = 0, m_candidates = 0,
     m_candidates_charged = 0, m_occurrences = 0, m_rdates = 0, m_exdates = 0,
     m_overrides = 0, m_observances = 0, m_zones = 0, m_freebusy_periods = 0, m_dropped = 0,
     m_exhausted = False\<rparr>"

definition meter_new :: "limits \<Rightarrow> meter" where
  "meter_new lim = meter_with_budget lim (max_input_bytes lim)"

subsection \<open>The octet budget\<close>

definition charge :: "meter \<Rightarrow> nat \<Rightarrow> bool \<times> meter" where
  "charge m units =
     (if m_exhausted m then (False, m)
      else let m' = m\<lparr>m_spent := sat_add u64_max (m_spent m) units\<rparr> in
           if m_budget m' < m_spent m' then (False, m'\<lparr>m_exhausted := True\<rparr>)
           else (True, m'))"

definition try_charge :: "meter \<Rightarrow> nat \<Rightarrow> limit_exceeded charged" where
  "try_charge m units =
     (case charge m units of
        (True, m') \<Rightarrow> (Inr (), m')
      | (False, m') \<Rightarrow> (Inl LBudget, m'))"

definition charge_bytes :: "meter \<Rightarrow> nat \<Rightarrow> parse_error charged" where
  "charge_bytes m count =
     (case charge m count of
        (True, m') \<Rightarrow> (Inr (), m')
      | (False, m') \<Rightarrow> (Inl (InputTooLarge (m_budget m')), m'))"

definition try_charge_bytes :: "meter \<Rightarrow> nat \<Rightarrow> limit_exceeded charged" where
  "try_charge_bytes m count = try_charge m count"

definition try_charge_text :: "meter \<Rightarrow> nat \<Rightarrow> limit_exceeded charged" where
  "try_charge_text m count =
     (if max_xml_text_bytes (m_limits m) < count then (Inl LText, m)
      else try_charge m count)"

subsection \<open>Items and nesting\<close>

definition charge_item :: "meter \<Rightarrow> parse_error charged" where
  "charge_item m =
     (let next' = sat_add u32_max (m_items m) 1 in
      if max_items (m_limits m) < next' then (Inl (TooManyItems (max_items (m_limits m))), m)
      else (Inr (), m\<lparr>m_items := next'\<rparr>))"

definition try_charge_element :: "meter \<Rightarrow> limit_exceeded charged" where
  "try_charge_element m =
     (let next' = sat_add u32_max (m_elements m) 1 in
      if max_xml_elements (m_limits m) < next' then (Inl LElements, m)
      else (Inr (), m\<lparr>m_elements := next'\<rparr>))"

definition enter :: "meter \<Rightarrow> parse_error charged" where
  "enter m =
     (let next' = sat_add u16_max (m_depth m) 1 in
      if max_component_depth (m_limits m) < next'
      then (Inl (TooDeep (max_component_depth (m_limits m))), m)
      else (Inr (), m\<lparr>m_depth := next'\<rparr>))"

definition leave :: "meter \<Rightarrow> meter" where
  "leave m = m\<lparr>m_depth := m_depth m - 1\<rparr>"

definition try_enter_element :: "meter \<Rightarrow> limit_exceeded charged" where
  "try_enter_element m =
     (let next' = sat_add u16_max (m_element_depth m) 1 in
      if max_xml_depth (m_limits m) < next' then (Inl LDepth, m)
      else (Inr (), m\<lparr>m_element_depth := next'\<rparr>))"

definition leave_element :: "meter \<Rightarrow> meter" where
  "leave_element m = m\<lparr>m_element_depth := m_element_depth m - 1\<rparr>"

definition try_charge_response :: "meter \<Rightarrow> limit_exceeded charged" where
  "try_charge_response m =
     (let next' = sat_add u32_max (m_responses m) 1 in
      if max_responses (m_limits m) < next' then (Inl LResponses, m)
      else (Inr (), m\<lparr>m_responses := next'\<rparr>))"

definition try_bind_prefix :: "meter \<Rightarrow> limit_exceeded charged" where
  "try_bind_prefix m =
     (let next' = sat_add u16_max (m_bindings m) 1 in
      if max_prefix_bindings (m_limits m) < next' then (Inl LPrefixBindings, m)
      else (Inr (), m\<lparr>m_bindings := next'\<rparr>))"

definition unbind_prefix :: "meter \<Rightarrow> meter" where
  "unbind_prefix m = m\<lparr>m_bindings := m_bindings m - 1\<rparr>"

subsection \<open>Recurrence\<close>

definition open_period :: "meter \<Rightarrow> meter" where
  "open_period m = m\<lparr>m_candidates := 0\<rparr>"

definition try_charge_candidate :: "meter \<Rightarrow> limit_exceeded charged" where
  "try_charge_candidate m =
     (let next' = sat_add u32_max (m_candidates m) 1 in
      if candidates_per_period (m_limits m) < next'
      then (Inl LCandidates, m\<lparr>m_exhausted := True\<rparr>)
      else
        let m1 = m\<lparr>m_candidates := next'\<rparr> in
        case try_charge m1 1 of
          (Inl e, m2) \<Rightarrow> (Inl e, m2)
        | (Inr _, m2) \<Rightarrow>
            (Inr (), m2\<lparr>m_candidates_charged := sat_add u64_max (m_candidates_charged m2) 1\<rparr>))"

definition try_charge_occurrence :: "meter \<Rightarrow> limit_exceeded charged" where
  "try_charge_occurrence m =
     (let next' = sat_add u32_max (m_occurrences m) 1 in
      if occurrences_per_search (m_limits m) < next'
      then (Inl LOccurrences, m\<lparr>m_exhausted := True\<rparr>)
      else (Inr (), m\<lparr>m_occurrences := next'\<rparr>))"

definition try_charge_rdate_entries :: "meter \<Rightarrow> nat \<Rightarrow> limit_exceeded charged" where
  "try_charge_rdate_entries m count =
     (let next' = sat_add u32_max (m_rdates m) count in
      if rdate_entries (m_limits m) < next' then (Inl LRdateEntries, m)
      else (Inr (), m\<lparr>m_rdates := next'\<rparr>))"

definition try_charge_exdate_entries :: "meter \<Rightarrow> nat \<Rightarrow> limit_exceeded charged" where
  "try_charge_exdate_entries m count =
     (let next' = sat_add u32_max (m_exdates m) count in
      if exdate_entries (m_limits m) < next' then (Inl LExdateEntries, m)
      else (Inr (), m\<lparr>m_exdates := next'\<rparr>))"

definition try_charge_override_entries :: "meter \<Rightarrow> nat \<Rightarrow> limit_exceeded charged" where
  "try_charge_override_entries m count =
     (let next' = sat_add u32_max (m_overrides m) count in
      if override_entries (m_limits m) < next' then (Inl LOverrideEntries, m)
      else (Inr (), m\<lparr>m_overrides := next'\<rparr>))"

subsection \<open>Zones, free-busy reports and dropped diagnostics\<close>

definition try_charge_vtimezone_observances :: "meter \<Rightarrow> nat \<Rightarrow> limit_exceeded charged" where
  "try_charge_vtimezone_observances m count =
     (let next' = sat_add u32_max (m_observances m) count in
      if max_vtimezone_observances (m_limits m) < next' then (Inl LVtimezoneObservances, m)
      else (Inr (), m\<lparr>m_observances := next'\<rparr>))"

definition try_charge_vtimezone_component :: "meter \<Rightarrow> limit_exceeded charged" where
  "try_charge_vtimezone_component m =
     (let next' = sat_add u32_max (m_zones m) 1 in
      if max_vtimezone_components (m_limits m) < next' then (Inl LVtimezoneComponents, m)
      else (Inr (), m\<lparr>m_zones := next'\<rparr>))"

definition try_charge_freebusy_period :: "meter \<Rightarrow> limit_exceeded charged" where
  "try_charge_freebusy_period m =
     (let next' = sat_add u32_max (m_freebusy_periods m) 1 in
      if max_freebusy_periods (m_limits m) < next'
      then (Inl LFreeBusyPeriods, m\<lparr>m_exhausted := True\<rparr>)
      else (Inr (), m\<lparr>m_freebusy_periods := next'\<rparr>))"

definition note_dropped_diagnostic :: "meter \<Rightarrow> meter" where
  "note_dropped_diagnostic m = m\<lparr>m_dropped := sat_add u32_max (m_dropped m) 1\<rparr>"

section \<open>Sequences of calls\<close>

text \<open>
  A client of the ledger is a sequence of method calls.  \<open>meter_apply\<close> names every mutating
  method, with whether it answered \<open>true\<close> or \<open>Ok\<close>; a method that returns nothing answers yes.
\<close>

datatype meter_call =
    Charge nat | ChargeBytes nat | ChargeText nat | ChargeItem | ChargeElement
  | Enter | Leave | EnterElement | LeaveElement | ChargeResponse
  | BindPrefix | UnbindPrefix | OpenPeriod | ChargeCandidate | ChargeOccurrence
  | ChargeRdates nat | ChargeExdates nat | ChargeOverrides nat
  | ChargeObservances nat | ChargeZone | ChargeFreebusyPeriod | NoteDropped

definition answered :: "'e charged \<Rightarrow> bool \<times> meter" where
  "answered r = (case r of (Inr _, m) \<Rightarrow> (True, m) | (Inl _, m) \<Rightarrow> (False, m))"

fun meter_apply :: "meter \<Rightarrow> meter_call \<Rightarrow> bool \<times> meter" where
  "meter_apply m (Charge n) = charge m n"
| "meter_apply m (ChargeBytes n) = answered (charge_bytes m n)"
| "meter_apply m (ChargeText n) = answered (try_charge_text m n)"
| "meter_apply m ChargeItem = answered (charge_item m)"
| "meter_apply m ChargeElement = answered (try_charge_element m)"
| "meter_apply m Enter = answered (enter m)"
| "meter_apply m Leave = (True, leave m)"
| "meter_apply m EnterElement = answered (try_enter_element m)"
| "meter_apply m LeaveElement = (True, leave_element m)"
| "meter_apply m ChargeResponse = answered (try_charge_response m)"
| "meter_apply m BindPrefix = answered (try_bind_prefix m)"
| "meter_apply m UnbindPrefix = (True, unbind_prefix m)"
| "meter_apply m OpenPeriod = (True, open_period m)"
| "meter_apply m ChargeCandidate = answered (try_charge_candidate m)"
| "meter_apply m ChargeOccurrence = answered (try_charge_occurrence m)"
| "meter_apply m (ChargeRdates n) = answered (try_charge_rdate_entries m n)"
| "meter_apply m (ChargeExdates n) = answered (try_charge_exdate_entries m n)"
| "meter_apply m (ChargeOverrides n) = answered (try_charge_override_entries m n)"
| "meter_apply m (ChargeObservances n) = answered (try_charge_vtimezone_observances m n)"
| "meter_apply m ChargeZone = answered (try_charge_vtimezone_component m)"
| "meter_apply m ChargeFreebusyPeriod = answered (try_charge_freebusy_period m)"
| "meter_apply m NoteDropped = (True, note_dropped_diagnostic m)"

text \<open>The state after a sequence of calls, and the total cost of the calls that were accepted.\<close>

fun run_calls :: "('s \<Rightarrow> 'c \<Rightarrow> bool \<times> 's) \<Rightarrow> 's \<Rightarrow> 'c list \<Rightarrow> 's" where
  "run_calls ap s [] = s"
| "run_calls ap s (c # cs) = run_calls ap (snd (ap s c)) cs"

fun accepted_cost :: "('s \<Rightarrow> 'c \<Rightarrow> bool \<times> 's) \<Rightarrow> ('c \<Rightarrow> nat) \<Rightarrow> 's \<Rightarrow> 'c list \<Rightarrow> nat" where
  "accepted_cost ap cost s [] = 0"
| "accepted_cost ap cost s (c # cs) =
     (if fst (ap s c) then cost c else 0) + accepted_cost ap cost (snd (ap s c)) cs"

text \<open>Two contracts a ledger can keep: an invariant, and a cap on what it accepts.\<close>

locale call_machine =
  fixes ap :: "'s \<Rightarrow> 'c \<Rightarrow> bool \<times> 's"
    and inv :: "'s \<Rightarrow> bool"
  assumes preserved: "inv s \<Longrightarrow> inv (snd (ap s c))"
begin

lemma run_preserves: "inv s \<Longrightarrow> inv (run_calls ap s cs)"
  by (induction cs arbitrary: s) (simp_all add: preserved)

end

locale capped_machine = call_machine +
  fixes used :: "'s \<Rightarrow> nat" and cost :: "'c \<Rightarrow> nat" and cap :: "'s \<Rightarrow> nat"
  assumes cap_constant: "cap (snd (ap s c)) = cap s"
    and accounts: "inv s \<Longrightarrow> used s + (if fst (ap s c) then cost c else 0) \<le> used (snd (ap s c))"
    and within: "inv s \<Longrightarrow> fst (ap s c) \<Longrightarrow> 0 < cost c \<Longrightarrow> used (snd (ap s c)) \<le> cap s"
begin

lemma accepted_within:
  "inv s \<Longrightarrow> accepted_cost ap cost s cs = 0 \<or> used s + accepted_cost ap cost s cs \<le> cap s"
proof (induction cs arbitrary: s)
  case (Cons c cs)
  let ?s = "snd (ap s c)"
  have ih: "accepted_cost ap cost ?s cs = 0 \<or> used ?s + accepted_cost ap cost ?s cs \<le> cap s"
    using Cons.IH [OF preserved [OF Cons.prems]] by (simp add: cap_constant)
  note acc = accounts [OF Cons.prems, of c]
  show ?case
  proof (cases "fst (ap s c) \<and> 0 < cost c")
    case True
    then have "used ?s \<le> cap s" using within [OF Cons.prems] by blast
    then show ?thesis using ih acc True by auto
  next
    case False
    then have "(if fst (ap s c) then cost c else 0) = 0" by auto
    then show ?thesis using ih acc by auto
  qed
qed simp

lemma accepted_le_cap: "inv s \<Longrightarrow> accepted_cost ap cost s cs \<le> cap s"
  using accepted_within [of s cs] by auto

end

section \<open>The ledger keeps its bounds\<close>

text \<open>
  The counters never pass the policy, and the octets spent never pass the budget while the
  ledger is not exhausted.
\<close>

definition meter_inv :: "meter \<Rightarrow> bool" where
  "meter_inv m \<longleftrightarrow>
     (\<not> m_exhausted m \<longrightarrow> m_spent m \<le> m_budget m)
   \<and> m_items m \<le> max_items (m_limits m)
   \<and> m_depth m \<le> max_component_depth (m_limits m)
   \<and> m_element_depth m \<le> max_xml_depth (m_limits m)
   \<and> m_elements m \<le> max_xml_elements (m_limits m)
   \<and> m_responses m \<le> max_responses (m_limits m)
   \<and> m_bindings m \<le> max_prefix_bindings (m_limits m)
   \<and> m_candidates m \<le> candidates_per_period (m_limits m)
   \<and> m_candidates_charged m \<le> m_spent m \<and> m_spent m \<le> u64_max
   \<and> m_occurrences m \<le> occurrences_per_search (m_limits m)
   \<and> m_rdates m \<le> rdate_entries (m_limits m)
   \<and> m_exdates m \<le> exdate_entries (m_limits m)
   \<and> m_overrides m \<le> override_entries (m_limits m)
   \<and> m_observances m \<le> max_vtimezone_observances (m_limits m)
   \<and> m_zones m \<le> max_vtimezone_components (m_limits m)
   \<and> m_freebusy_periods m \<le> max_freebusy_periods (m_limits m)"

lemmas meter_op_defs =
  charge_def try_charge_def charge_bytes_def try_charge_text_def charge_item_def
  try_charge_element_def enter_def leave_def try_enter_element_def leave_element_def
  try_charge_response_def try_bind_prefix_def unbind_prefix_def open_period_def
  try_charge_candidate_def try_charge_occurrence_def try_charge_rdate_entries_def
  try_charge_exdate_entries_def try_charge_override_entries_def
  try_charge_vtimezone_observances_def try_charge_vtimezone_component_def
  try_charge_freebusy_period_def note_dropped_diagnostic_def answered_def

lemma spent_keeps:
  "a \<le> b \<Longrightarrow> b \<le> mx \<Longrightarrow> a \<le> sat_add mx b n"
  "a \<le> b \<Longrightarrow> sat_add mx a n \<le> sat_add mx b n"
  by (auto simp: sat_add_def)

lemma meter_apply_inv: "meter_inv m \<Longrightarrow> meter_inv (snd (meter_apply m c))"
  unfolding meter_inv_def
  by (cases c) (simp_all add: meter_op_defs Let_def not_less sat_add_le spent_keeps le_diff_conv)

interpretation ledger: call_machine meter_apply meter_inv
  by unfold_locales (rule meter_apply_inv)

lemma meter_apply_constant:
  "m_limits (snd (meter_apply m c)) = m_limits m" "m_budget (snd (meter_apply m c)) = m_budget m"
  by (cases c; simp add: meter_op_defs Let_def)+

lemma meter_apply_latches: "m_exhausted m \<Longrightarrow> m_exhausted (snd (meter_apply m c))"
  by (cases c) (auto simp: meter_op_defs Let_def)

interpretation ledger_latch: call_machine meter_apply m_exhausted
  by unfold_locales (rule meter_apply_latches)

text \<open>What each kind of call costs, one dimension at a time.\<close>

fun octet_cost :: "meter_call \<Rightarrow> nat" where
  "octet_cost (Charge n) = n"
| "octet_cost (ChargeBytes n) = n"
| "octet_cost (ChargeText n) = n"
| "octet_cost ChargeCandidate = 1"
| "octet_cost _ = 0"

definition item_cost :: "meter_call \<Rightarrow> nat" where
  "item_cost c = (if c = ChargeItem then 1 else 0)"

definition occurrence_cost :: "meter_call \<Rightarrow> nat" where
  "occurrence_cost c = (if c = ChargeOccurrence then 1 else 0)"

fun observance_cost :: "meter_call \<Rightarrow> nat" where
  "observance_cost (ChargeObservances n) = n"
| "observance_cost _ = 0"

text \<open>No bound is the largest value of its width, where saturation would hide a breach.\<close>

definition bounds_below_width :: "meter \<Rightarrow> bool" where
  "bounds_below_width m \<longleftrightarrow> m_budget m < u64_max \<and> max_items (m_limits m) < u32_max
     \<and> occurrences_per_search (m_limits m) < u32_max
     \<and> max_vtimezone_observances (m_limits m) < u32_max"

lemma bounds_below_width_apply:
  "bounds_below_width m \<and> meter_inv m
     \<Longrightarrow> bounds_below_width (snd (meter_apply m c)) \<and> meter_inv (snd (meter_apply m c))"
  by (simp add: bounds_below_width_def meter_apply_constant meter_apply_inv)

interpretation octet_ledger: capped_machine meter_apply "\<lambda>m. bounds_below_width m \<and> meter_inv m"
    m_spent octet_cost m_budget
proof unfold_locales
  fix m c assume a: "bounds_below_width m \<and> meter_inv m"
  then show "m_spent m + (if fst (meter_apply m c) then octet_cost c else 0)
      \<le> m_spent (snd (meter_apply m c))"
    by (cases c) (auto simp: meter_op_defs Let_def sat_add_def bounds_below_width_def meter_inv_def)
  show "m_spent (snd (meter_apply m c)) \<le> m_budget m"
    if "fst (meter_apply m c)" "0 < octet_cost c"
    using a that
    by (cases c) (auto simp: meter_op_defs Let_def sat_add_def bounds_below_width_def split: if_splits)
qed (simp_all add: meter_apply_constant bounds_below_width_apply)

interpretation item_ledger: capped_machine meter_apply "\<lambda>m. bounds_below_width m \<and> meter_inv m"
    m_items item_cost "\<lambda>m. max_items (m_limits m)"
proof unfold_locales
  fix m c assume a: "bounds_below_width m \<and> meter_inv m"
  then show "m_items m + (if fst (meter_apply m c) then item_cost c else 0)
      \<le> m_items (snd (meter_apply m c))"
    by (cases c) (auto simp: meter_op_defs Let_def sat_add_def bounds_below_width_def item_cost_def)
  show "m_items (snd (meter_apply m c)) \<le> max_items (m_limits m)"
    if "fst (meter_apply m c)" "0 < item_cost c"
    using a that by (cases c) (auto simp: meter_op_defs Let_def item_cost_def split: if_splits)
qed (simp_all add: meter_apply_constant bounds_below_width_apply)

interpretation occurrence_ledger: capped_machine meter_apply
    "\<lambda>m. bounds_below_width m \<and> meter_inv m"
    m_occurrences occurrence_cost "\<lambda>m. occurrences_per_search (m_limits m)"
proof unfold_locales
  fix m c assume a: "bounds_below_width m \<and> meter_inv m"
  then show "m_occurrences m + (if fst (meter_apply m c) then occurrence_cost c else 0)
      \<le> m_occurrences (snd (meter_apply m c))"
    by (cases c)
       (auto simp: meter_op_defs Let_def sat_add_def bounds_below_width_def occurrence_cost_def)
  show "m_occurrences (snd (meter_apply m c)) \<le> occurrences_per_search (m_limits m)"
    if "fst (meter_apply m c)" "0 < occurrence_cost c"
    using a that by (cases c) (auto simp: meter_op_defs Let_def occurrence_cost_def split: if_splits)
qed (simp_all add: meter_apply_constant bounds_below_width_apply)

interpretation observance_ledger: capped_machine meter_apply
    "\<lambda>m. bounds_below_width m \<and> meter_inv m"
    m_observances observance_cost "\<lambda>m. max_vtimezone_observances (m_limits m)"
proof unfold_locales
  fix m c assume a: "bounds_below_width m \<and> meter_inv m"
  then show "m_observances m + (if fst (meter_apply m c) then observance_cost c else 0)
      \<le> m_observances (snd (meter_apply m c))"
    by (cases c) (auto simp: meter_op_defs Let_def sat_add_def bounds_below_width_def)
  show "m_observances (snd (meter_apply m c)) \<le> max_vtimezone_observances (m_limits m)"
    if "fst (meter_apply m c)" "0 < observance_cost c"
    using a that by (cases c) (auto simp: meter_op_defs Let_def split: if_splits)
qed (simp_all add: meter_apply_constant bounds_below_width_apply)

lemma meter_new_inv [simp]: "meter_inv (meter_with_budget lim b)"
  by (simp add: meter_inv_def meter_with_budget_def)

lemma meter_new_fields [simp]:
  "m_limits (meter_with_budget lim b) = lim" "m_budget (meter_with_budget lim b) = b"
  by (simp_all add: meter_with_budget_def)

lemma exhausted_refuses:
  assumes "m_exhausted m" "0 < octet_cost c"
  shows "\<not> fst (meter_apply m c)"
  using assms by (cases c) (auto simp: meter_op_defs Let_def)

lemma answered_if:
  "fst (answered (if b then (Inl e, m) else (Inr u, m'))) \<longleftrightarrow> \<not> b"
  "snd (answered (Inl e', m)) = m"
  "snd (answered (if b then (Inl e, m) else (Inr u, m'))) = (if b then m else m')"
  by (simp_all add: answered_def)

lemma refused_unchanged:
  "\<not> fst (answered (charge_item m)) \<Longrightarrow> snd (answered (charge_item m)) = m"
  "\<not> fst (answered (try_charge_element m)) \<Longrightarrow> snd (answered (try_charge_element m)) = m"
  "\<not> fst (answered (enter m)) \<Longrightarrow> snd (answered (enter m)) = m"
  "\<not> fst (answered (try_enter_element m)) \<Longrightarrow> snd (answered (try_enter_element m)) = m"
  "\<not> fst (answered (try_charge_response m)) \<Longrightarrow> snd (answered (try_charge_response m)) = m"
  "\<not> fst (answered (try_bind_prefix m)) \<Longrightarrow> snd (answered (try_bind_prefix m)) = m"
  "\<not> fst (answered (try_charge_rdate_entries m n))
     \<Longrightarrow> snd (answered (try_charge_rdate_entries m n)) = m"
  "\<not> fst (answered (try_charge_exdate_entries m n))
     \<Longrightarrow> snd (answered (try_charge_exdate_entries m n)) = m"
  "\<not> fst (answered (try_charge_override_entries m n))
     \<Longrightarrow> snd (answered (try_charge_override_entries m n)) = m"
  "\<not> fst (answered (try_charge_vtimezone_observances m n))
     \<Longrightarrow> snd (answered (try_charge_vtimezone_observances m n)) = m"
  "\<not> fst (answered (try_charge_vtimezone_component m))
     \<Longrightarrow> snd (answered (try_charge_vtimezone_component m)) = m"
  by (simp_all only: answered_if Let_def charge_item_def try_charge_element_def enter_def
      try_enter_element_def try_charge_response_def try_bind_prefix_def
      try_charge_rdate_entries_def try_charge_exdate_entries_def try_charge_override_entries_def
      try_charge_vtimezone_observances_def try_charge_vtimezone_component_def not_not if_True)

section \<open>Properties\<close>

text \<open>
  C18. However its methods are called, a ledger starting fresh keeps every bound of its policy:
  each counter stays at or below its limit, and while it does not read exhausted the octets
  spent are within the budget.
\<close>

theorem ledger_keeps_bounds:
  "meter_inv (run_calls meter_apply (meter_with_budget lim b) calls)"
  by (intro ledger.run_preserves meter_new_inv)

text \<open>
  C19. Over any sequence of calls, what a fresh ledger accepts in total stays within the policy:
  the octets and candidates it said yes to sum to at most the budget, the items, occurrences and
  observances to at most their limits.  The bounds have to lie below the largest value of their
  width, where the saturating counters would stop telling one charge from the next.
\<close>

theorem ledger_accepts_within_policy:
  assumes "bounds_below_width (meter_with_budget lim b)"
  shows "accepted_cost meter_apply octet_cost (meter_with_budget lim b) calls \<le> b
    \<and> accepted_cost meter_apply item_cost (meter_with_budget lim b) calls \<le> max_items lim
    \<and> accepted_cost meter_apply occurrence_cost (meter_with_budget lim b) calls
        \<le> occurrences_per_search lim
    \<and> accepted_cost meter_apply observance_cost (meter_with_budget lim b) calls
        \<le> max_vtimezone_observances lim"
  using assms octet_ledger.accepted_le_cap [of "meter_with_budget lim b" calls]
    item_ledger.accepted_le_cap [of "meter_with_budget lim b" calls]
    occurrence_ledger.accepted_le_cap [of "meter_with_budget lim b" calls]
    observance_ledger.accepted_le_cap [of "meter_with_budget lim b" calls]
  by simp

theorem ledger_accepts_within_policy_witness:
  "accepted_cost meter_apply octet_cost (meter_with_budget LIMITS_DEFAULT 10)
     [Charge 6, ChargeItem, ChargeCandidate, ChargeText 4, ChargeBytes 1] = 7
   \<and> bounds_below_width (meter_with_budget LIMITS_DEFAULT 10)
   \<and> accepted_cost meter_apply octet_cost (meter_with_budget LIMITS_DEFAULT 10)
     [Charge 6, ChargeItem, ChargeCandidate, ChargeText 4, ChargeBytes 1] \<le> 10"
proof -
  have b: "bounds_below_width (meter_with_budget LIMITS_DEFAULT 10)"
    by (simp add: bounds_below_width_def LIMITS_DEFAULT_def width_defs)
  have "accepted_cost meter_apply octet_cost (meter_with_budget LIMITS_DEFAULT 10)
     [Charge 6, ChargeItem, ChargeCandidate, ChargeText 4, ChargeBytes 1] = 7"
    by (simp add: meter_op_defs Let_def sat_add_def meter_with_budget_def LIMITS_DEFAULT_def
        width_defs)
  then show ?thesis using ledger_accepts_within_policy [OF b] b by blast
qed

text \<open>
  C20. Exhaustion latches for the octet budget: once a ledger reads exhausted it does so after any
  further calls, and every later charge of octets, of character data or of a recurrence candidate
  is refused; and a refused charge of octets, of a candidate, of an occurrence or of a busy period
  sets the latch.
\<close>

theorem exhaustion_latches:
  "(m_exhausted m \<longrightarrow>
      m_exhausted (run_calls meter_apply m calls)
      \<and> (0 < octet_cost c \<longrightarrow> \<not> fst (meter_apply (run_calls meter_apply m calls) c)))
   \<and> (c \<in> {Charge n, ChargeBytes n, ChargeCandidate, ChargeOccurrence, ChargeFreebusyPeriod}
      \<longrightarrow> \<not> fst (meter_apply m c) \<longrightarrow> m_exhausted (snd (meter_apply m c)))"
proof -
  have "m_exhausted (snd (meter_apply m c))"
    if "c \<in> {Charge n, ChargeBytes n, ChargeCandidate, ChargeOccurrence, ChargeFreebusyPeriod}"
      "\<not> fst (meter_apply m c)"
    using that by (auto simp: meter_op_defs Let_def split: if_splits)
  then show ?thesis
    using ledger_latch.run_preserves [of m calls] exhausted_refuses by blast
qed

theorem exhaustion_latches_witness:
  "m_exhausted (snd (meter_apply (meter_with_budget LIMITS_DEFAULT 3) (Charge 4)))
   \<and> \<not> fst (meter_apply (run_calls meter_apply
        (snd (meter_apply (meter_with_budget LIMITS_DEFAULT 3) (Charge 4)))
        [OpenPeriod, Leave]) ChargeCandidate)"
proof -
  have r: "\<not> fst (meter_apply (meter_with_budget LIMITS_DEFAULT 3) (Charge 4))"
    by (simp add: meter_op_defs Let_def sat_add_def meter_with_budget_def width_defs)
  then have "m_exhausted (snd (meter_apply (meter_with_budget LIMITS_DEFAULT 3) (Charge 4)))"
    using exhaustion_latches [of "meter_with_budget LIMITS_DEFAULT 3" "[]" "Charge 4" 4] by blast
  then show ?thesis
    using exhaustion_latches
      [of "snd (meter_apply (meter_with_budget LIMITS_DEFAULT 3) (Charge 4))"
        "[OpenPeriod, Leave]" ChargeCandidate 0] by simp
qed



end
