(* ===== verification/Syntax.thy ===== *)
theory Syntax
  imports Ledger
begin

text \<open>
  The shape of a content line: \<open>core/grammar/syntax.rs\<close> (terminators, fold points, layouts) and
  \<open>core/grammar/token.rs\<close> (tokens and the source of tokens).  Besides the code's own types it holds
  the reference rendering of a folded line, \<open>weave\<close>, against which both the reader and the writer
  are checked.
\<close>

section \<open>Terminators and folds\<close>

datatype line_ending = CrLf | Lf | Cr

definition CANONICAL :: line_ending where
  "CANONICAL = CrLf"

fun ending_as_bytes :: "line_ending \<Rightarrow> octets" where
  "ending_as_bytes CrLf = [0x0D, 0x0A]"
| "ending_as_bytes Lf = [0x0A]"
| "ending_as_bytes Cr = [0x0D]"

definition written_len :: "line_ending \<Rightarrow> nat" where
  "written_len e = length (ending_as_bytes e)"

fun is_canonical :: "line_ending \<Rightarrow> bool" where
  "is_canonical CrLf = True"
| "is_canonical _ = False"

record fold_point =
  fold_offset :: nat
  fold_tab :: bool
  fold_newline :: line_ending

definition fold_whitespace :: "fold_point \<Rightarrow> octet" where
  "fold_whitespace f = (if fold_tab f then 0x09 else 0x20)"

record line_layout =
  lay_folds :: "fold_point list"
  lay_ending :: "line_ending option"
  lay_has_separator :: bool
  lay_refold :: bool

definition layout_canonical :: "line_ending \<Rightarrow> line_layout" where
  "layout_canonical e =
     \<lparr>lay_folds = [], lay_ending = Some e, lay_has_separator = True, lay_refold = True\<rparr>"

definition layout_preserved :: "fold_point list \<Rightarrow> line_ending option \<Rightarrow> bool \<Rightarrow> line_layout" where
  "layout_preserved folds e sep =
     \<lparr>lay_folds = folds, lay_ending = e, lay_has_separator = sep, lay_refold = False\<rparr>"

definition mark_refolded :: "line_layout \<Rightarrow> line_layout" where
  "mark_refolded l = l\<lparr>lay_folds := [], lay_has_separator := True, lay_refold := True\<rparr>"

definition terminate_with :: "line_layout \<Rightarrow> line_ending \<Rightarrow> bool \<times> line_layout" where
  "terminate_with l e =
     (if lay_ending l \<noteq> None then (False, l) else (True, l\<lparr>lay_ending := Some e\<rparr>))"

section \<open>Tokens\<close>

datatype token =
    TName octets
  | TParameter octets octets bool
  | TValue octets bool
  | TEndOfLine "fold_point list" "line_ending option" bool

type_synonym 's token_pull = "'s \<Rightarrow> (parse_error + token) option \<times> 's"

text \<open>
  Pulling every token of a source.  A source may in principle never end, so not returning is the
  value \<open>None\<close>; the contract \<open>token_source\<close> is what makes it return.
\<close>

partial_function (option) drain ::
  "'s token_pull \<Rightarrow> 's \<Rightarrow> token list \<Rightarrow> (token list \<times> parse_error option) option" where
  "drain pull s acc =
     (case pull s of
        (None, s') \<Rightarrow> Some (acc, None)
      | (Some (Inl e), s') \<Rightarrow> Some (acc, Some e)
      | (Some (Inr t), s') \<Rightarrow> drain pull s' (acc @ [t]))"

declare drain.simps [code]

text \<open>
  What a consumer relies on: a well-founded order that every token descends.  \<open>token_source\<close> is the
  trait's contract as the consumers of this crate use it.
\<close>

locale token_source =
  fixes pull :: "'s \<Rightarrow> (parse_error + token) option \<times> 's"
    and descends :: "('s \<times> 's) set"
  assumes well_founded: "wf descends"
    and token_descends: "pull s = (Some (Inr t), s') \<Longrightarrow> (s', s) \<in> descends"
begin

lemma drain_returns: "\<exists>r. drain pull s acc = Some r"
proof (induction s arbitrary: acc rule: wf_induct_rule [OF well_founded])
  case (1 s)
  obtain a s' where p: "pull s = (a, s')" by fastforce
  show ?case
  proof (cases a)
    case None
    then show ?thesis using p by (simp add: drain.simps [of pull s])
  next
    case (Some x)
    then show ?thesis
      using p 1 [OF token_descends] by (cases x) (auto simp: drain.simps [of pull s])
  qed
qed

text \<open>An invariant of the source, with a view of the tokens pulled so far, reaches the end.\<close>

lemma drain_invariant:
  assumes "drain pull s acc = Some (toks, None)" and "Q s acc"
    and "\<And>s t s' acc. Q s acc \<Longrightarrow> pull s = (Some (Inr t), s') \<Longrightarrow> Q s' (acc @ [t])"
  shows "\<exists>s'. Q s' toks \<and> fst (pull s') = None"
  using assms(1,2)
proof (induction s arbitrary: acc rule: wf_induct_rule [OF well_founded])
  case (1 s)
  obtain a s' where p: "pull s = (a, s')" by fastforce
  show ?case
  proof (cases a)
    case None
    then show ?thesis using p 1(2,3) by (auto simp: drain.simps [of pull s])
  next
    case (Some x)
    show ?thesis
    proof (cases x)
      case (Inl e)
      then show ?thesis using p Some 1(2) by (simp add: drain.simps [of pull s])
    next
      case (Inr t)
      then show ?thesis
        using p Some 1(1) [OF token_descends, of t s' "acc @ [t]"] 1(2,3) assms(3) [of s acc t s']
        by (simp add: drain.simps [of pull s])
    qed
  qed
qed

lemma drain_stopped:
  assumes "drain pull s acc = Some (toks, Some e)" and "Q s acc"
    and "\<And>s t s' acc. Q s acc \<Longrightarrow> pull s = (Some (Inr t), s') \<Longrightarrow> Q s' (acc @ [t])"
  shows "\<exists>s' s''. Q s' toks \<and> pull s' = (Some (Inl e), s'')"
  using assms(1,2)
proof (induction s arbitrary: acc rule: wf_induct_rule [OF well_founded])
  case (1 s)
  obtain a s' where p: "pull s = (a, s')" by fastforce
  show ?case
  proof (cases a)
    case None
    then show ?thesis using p 1(2) by (simp add: drain.simps [of pull s])
  next
    case (Some x)
    show ?thesis
    proof (cases x)
      case (Inl e')
      then show ?thesis using p Some 1(2,3) by (auto simp: drain.simps [of pull s])
    next
      case (Inr t)
      then show ?thesis
        using p Some 1(1) [OF token_descends, of t s' "acc @ [t]"] 1(2,3) assms(3) [of s acc t s']
        by (simp add: drain.simps [of pull s])
    qed
  qed
qed

end

section \<open>The reference rendering of a folded line\<close>

definition fold_bytes :: "fold_point \<Rightarrow> octets" where
  "fold_bytes f = ending_as_bytes (fold_newline f) @ [fold_whitespace f]"

fun ending_bytes :: "line_ending option \<Rightarrow> octets" where
  "ending_bytes None = []"
| "ending_bytes (Some e) = ending_as_bytes e"

text \<open>
  \<open>weave p cs fs\<close> writes the unfolded octets \<open>cs\<close>, the first of which has position \<open>p\<close> in its line,
  with each fold before the octet it precedes and the folds past the last octet at the end.
\<close>

fun weave :: "nat \<Rightarrow> octets \<Rightarrow> fold_point list \<Rightarrow> octets" where
  "weave p [] fs = concat (map fold_bytes fs)"
| "weave p (c # cs) [] = c # cs"
| "weave p (c # cs) (f # fs) =
     (if fold_offset f \<le> p then fold_bytes f @ weave p (c # cs) fs
      else c # weave (Suc p) cs (f # fs))"

lemma weave_no_folds [simp]: "weave p cs [] = cs"
  by (cases cs) simp_all

lemma length_weave: "length cs + length fs \<le> length (weave p cs fs)"
proof (induction p cs fs rule: weave.induct)
  case (1 p fs)
  then show ?case by (induction fs) (auto simp: fold_bytes_def)
qed (auto simp: fold_bytes_def)

lemma weave_snoc_octet:
  assumes "\<forall>f \<in> set fs. fold_offset f \<le> p + length cs"
  shows "weave p (cs @ [c]) fs = weave p cs fs @ [c]"
  using assms
proof (induction p cs fs rule: weave.induct)
  case (1 p fs)
  then show ?case by (induction fs) auto
qed auto

lemma weave_snoc_fold:
  assumes "fold_offset f = p + length cs"
  shows "weave p cs (fs @ [f]) = weave p cs fs @ fold_bytes f"
  using assms
proof (induction p cs fs rule: weave.induct)
  case (2 p c cs)
  have "weave q cs [f] = cs @ fold_bytes f" if "fold_offset f = q + length cs" for q cs
    using that by (induction cs arbitrary: q) auto
  from this [of p "c # cs"] 2 show ?case by simp
qed auto

lemma weave_append:
  assumes "\<forall>f \<in> set fs. fold_offset f \<le> p + length cs"
  shows "weave p (cs @ ds) fs = weave p cs fs @ ds"
  using assms
proof (induction ds arbitrary: cs)
  case (Cons d ds)
  have "weave p ((cs @ [d]) @ ds) fs = weave p (cs @ [d]) fs @ ds"
    using Cons by (intro Cons.IH) auto
  then show ?case using weave_snoc_octet [OF Cons.prems] by simp
qed simp

text \<open>The part of a line up to a fold it reaches, and a part that reaches no fold.\<close>

lemma weave_reach:
  "fold_offset f - p \<le> length cs \<Longrightarrow>
     weave p cs (f # fs) = take (fold_offset f - p) cs @ fold_bytes f
       @ weave (p + (fold_offset f - p)) (drop (fold_offset f - p) cs) fs"
proof (induction cs arbitrary: p)
  case Nil
  then show ?case by simp
next
  case (Cons c cs)
  show ?case
  proof (cases "fold_offset f \<le> p")
    case False
    then have "fold_offset f - p = Suc (fold_offset f - Suc p)" by simp
    then show ?thesis using Cons False by simp
  qed simp
qed

lemma weave_skip:
  "length bs < fold_offset f - p \<Longrightarrow>
     weave p (bs @ cs) (f # fs) = bs @ weave (p + length bs) cs (f # fs)"
  by (induction bs arbitrary: p) auto

section \<open>What a token sequence stands for\<close>

text \<open>The octets a token sequence stands for: what is written, and the header and value so far.\<close>

fun render_step :: "octets \<times> octets \<times> octets \<Rightarrow> token \<Rightarrow> octets \<times> octets \<times> octets" where
  "render_step (done, h, v) (TName n) = (done, n, [])"
| "render_step (done, h, v) (TParameter n x has_value) =
     (done, h @ 0x3B # n @ (if has_value then 0x3D # x else []), v)"
| "render_step (done, h, v) (TValue bs _) = (done, h, v @ bs)"
| "render_step (done, h, v) (TEndOfLine folds e sep) =
     (done @ weave 0 (h @ (if sep then [0x3A] else []) @ v) folds @ ending_bytes e, h, v)"

definition render_tokens :: "token list \<Rightarrow> octets" where
  "render_tokens toks = fst (foldl render_step ([], [], []) toks)"

text \<open>
  A tidy sequence: every line is named first and ended once, a parameter has a value only where it
  says so, the folds of a line lie inside it, and only the last line may end without a terminator.  \<open>Within k\<close> is a line with \<open>k\<close> octets before its
  terminator so far, the separator not counted.
\<close>

datatype token_phase = Between | Within nat | Closed

fun tidy_step :: "token_phase option \<Rightarrow> token \<Rightarrow> token_phase option" where
  "tidy_step (Some Between) (TName n) = Some (Within (length n))"
| "tidy_step (Some (Within k)) (TParameter n x has_value) =
     (if has_value \<or> x = [] then Some (Within (k + 1 + length n + (if has_value then 1 + length x else 0)))
      else None)"
| "tidy_step (Some (Within k)) (TValue bs _) = Some (Within (k + length bs))"
| "tidy_step (Some (Within k)) (TEndOfLine folds e sep) =
     (if \<forall>f \<in> set folds. fold_offset f \<le> k + (if sep then 1 else 0)
      then Some (if e = None then Closed else Between) else None)"
| "tidy_step _ _ = None"

definition tidy :: "token list \<Rightarrow> token_phase option" where
  "tidy toks = foldl tidy_step (Some Between) toks"

lemma tidy_step_iff:
  "tidy_step p (TName n) = Some q \<longleftrightarrow> p = Some Between \<and> q = Within (length n)"
  "tidy_step p (TParameter n x has_value) = Some q \<longleftrightarrow>
     (\<exists>k. p = Some (Within k) \<and> (has_value \<or> x = [])
        \<and> q = Within (k + 1 + length n + (if has_value then 1 + length x else 0)))"
  "tidy_step p (TValue bs m) = Some q \<longleftrightarrow> (\<exists>k. p = Some (Within k) \<and> q = Within (k + length bs))"
  "tidy_step p (TEndOfLine folds e sep) = Some q \<longleftrightarrow>
     (\<exists>k. p = Some (Within k) \<and> (\<forall>f \<in> set folds. fold_offset f \<le> k + (if sep then 1 else 0))
        \<and> q = (if e = None then Closed else Between))"
  by (cases p; cases "the p"; auto)+

lemma tidy_snoc [simp]: "tidy (toks @ [t]) = tidy_step (tidy toks) t"
  by (simp add: tidy_def)

lemma tidy_Nil [simp]: "tidy [] = Some Between"
  by (simp add: tidy_def)

text \<open>The octets a sequence has accounted for: what is written and the line still open.\<close>

definition rendered_len :: "token list \<Rightarrow> nat" where
  "rendered_len toks =
     length (fst (foldl render_step ([], [], []) toks))
       + (case tidy toks of Some (Within k) \<Rightarrow> k | _ \<Rightarrow> 0)"

text \<open>
  The contract a tree is built on: a source of lines, whose tokens are tidy at every moment and
  stand, once it has none left, for the octets \<open>content\<close>.
\<close>

locale line_source = token_source pull descends
  for pull :: "'s \<Rightarrow> (parse_error + token) option \<times> 's"
    and descends :: "('s \<times> 's) set" +
  fixes reads :: "'s \<Rightarrow> token list \<Rightarrow> bool"
    and content :: octets
  assumes reads_next: "reads s acc \<Longrightarrow> pull s = (Some (Inr t), s') \<Longrightarrow> reads s' (acc @ [t])"
    and reads_tidy: "reads s acc \<Longrightarrow> tidy acc \<noteq> None"
    and reads_room: "reads s acc \<Longrightarrow> rendered_len acc \<le> length content"
    and reads_end: "reads s acc \<Longrightarrow> fst (pull s) = None \<Longrightarrow>
      tidy acc \<in> {Some Between, Some Closed} \<and> render_tokens acc = content"
begin

lemma drain_renders:
  assumes "drain pull s [] = Some (toks, None)" and "reads s []"
  shows "render_tokens toks = content"
  using drain_invariant [OF assms(1), of reads] assms(2) reads_next reads_end by blast

end

end
