(* ===== verification/Lexer.thy ===== *)
theory Lexer
  imports Syntax
begin

text \<open>
  \<open>core/grammar/lexer.rs\<close>: the pull reader over \<open>.ics\<close> octets.  The reader is a record of the
  code's fields; every method is a function from the reader to its result and the reader it
  leaves.  A slice of the input or of the scratch buffer is the list of its octets, an offset a
  \<open>nat\<close>; \<open>line_offset\<close> keeps its 32-bit width and saturates.
\<close>

section \<open>The reader's state\<close>

definition is_fold_whitespace :: "octet \<Rightarrow> bool" where
  "is_fold_whitespace octet \<longleftrightarrow> octet = 0x20 \<or> octet = 0x09"

definition terminator_at :: "octets \<Rightarrow> nat \<Rightarrow> (line_ending \<times> nat) option" where
  "terminator_at input at =
     (if length input \<le> at then None
      else if input ! at = 0x0D
           then if at + 1 < length input \<and> input ! (at + 1) = 0x0A then Some (CrLf, 2)
                else Some (Cr, 1)
      else if input ! at = 0x0A then Some (Lf, 1)
      else None)"

datatype header_state = HName | HParameterName | HValueStart | HValueText | HQuoted

record parameter_span =
  ps_name_start :: nat
  ps_name_end :: nat
  ps_value_start :: nat
  ps_value_end :: nat
  ps_has_value :: bool

definition span_opening :: "nat \<Rightarrow> parameter_span" where
  "span_opening at =
     \<lparr>ps_name_start = at, ps_name_end = at, ps_value_start = at, ps_value_end = at,
      ps_has_value = False\<rparr>"

datatype emit = EName | EParameter nat | EValue nat nat bool | EEndOfLine

datatype stage = LineStart | SName | SParameter nat | SValue | Ending | Done

record reader =
  r_input :: octets
  r_limits :: grammar_limits
  r_cursor :: nat
  r_scratch :: octets
  r_parameters :: "parameter_span list"
  r_folds :: "fold_point list"
  r_pending :: "parameter_span option"
  r_header_state :: header_state
  r_name_end :: nat
  r_line_offset :: nat
  r_ending :: "line_ending option"
  r_has_separator :: bool
  r_stage :: stage

definition reader_new :: "octets \<Rightarrow> grammar_limits \<Rightarrow> reader" where
  "reader_new input limits =
     \<lparr>r_input = input, r_limits = limits, r_cursor = 0, r_scratch = [], r_parameters = [],
      r_folds = [], r_pending = None, r_header_state = HName, r_name_end = 0,
      r_line_offset = 0, r_ending = None, r_has_separator = False, r_stage = LineStart\<rparr>"

section \<open>The header lexer\<close>

definition begin_line :: "reader \<Rightarrow> reader" where
  "begin_line r =
     r\<lparr>r_scratch := [], r_parameters := [], r_folds := [], r_pending := None,
       r_header_state := HName, r_name_end := 0, r_line_offset := 0, r_ending := None,
       r_has_separator := False\<rparr>"

definition take_fold :: "reader \<Rightarrow> line_ending \<Rightarrow> nat \<Rightarrow> (parse_error + bool) \<times> reader" where
  "take_fold r newline width =
     (let after = r_cursor r + width in
      if length (r_input r) \<le> after then (Inr False, r)
      else let octet = r_input r ! after in
        if \<not> is_fold_whitespace octet then (Inr False, r)
        else let ceiling = gl_folds_per_line (r_limits r) in
          if \<not> (length (r_folds r) \<le> u32_max \<and> length (r_folds r) < ceiling)
          then (Inl (TooManyFolds ceiling), r)
          else (Inr True,
                r\<lparr>r_folds := r_folds r @ [\<lparr>fold_offset = r_line_offset r, fold_tab = (octet = 0x09),
                                             fold_newline = newline\<rparr>],
                  r_cursor := after + 1\<rparr>))"

definition advance_line_offset :: "reader \<Rightarrow> nat \<Rightarrow> reader" where
  "advance_line_offset r octets =
     (let counted = (if octets \<le> u32_max then octets else u32_max) in
      r\<lparr>r_line_offset := sat_add u32_max (r_line_offset r) counted\<rparr>)"

definition close_pending :: "reader \<Rightarrow> nat \<Rightarrow> reader" where
  "close_pending r end' =
     (case r_pending r of
        Some span \<Rightarrow>
          let span' = (if ps_has_value span then span\<lparr>ps_value_end := end'\<rparr>
                       else span\<lparr>ps_name_end := end'\<rparr>)
          in r\<lparr>r_pending := None, r_parameters := r_parameters r @ [span']\<rparr>
      | None \<Rightarrow> r\<lparr>r_name_end := end'\<rparr>)"

definition close_header :: "reader \<Rightarrow> bool \<Rightarrow> reader" where
  "close_header r has_separator =
     (let end' = length (r_scratch r) in
      (close_pending r end')\<lparr>r_has_separator := has_separator\<rparr>)"

definition begin_parameter_value :: "reader \<Rightarrow> nat \<Rightarrow> reader" where
  "begin_parameter_value r at =
     (case r_pending r of
        Some span \<Rightarrow>
          r\<lparr>r_pending := Some (span\<lparr>ps_name_end := at, ps_has_value := True,
                                    ps_value_start := at + 1, ps_value_end := at + 1\<rparr>)\<rparr>
      | None \<Rightarrow> r)"

definition open_parameter :: "reader \<Rightarrow> nat \<Rightarrow> (parse_error + unit) \<times> reader" where
  "open_parameter r at =
     (let r' = close_pending r at;
          ceiling = gl_parameters (r_limits r')
      in if \<not> (length (r_parameters r') \<le> u32_max \<and> length (r_parameters r') < ceiling)
         then (Inl (TooManyParameters ceiling), r')
         else (Inr (), r'\<lparr>r_pending := Some (span_opening (at + 1)),
                          r_header_state := HParameterName\<rparr>))"

definition step_unquoted :: "reader \<Rightarrow> octet \<Rightarrow> nat \<Rightarrow> reader" where
  "step_unquoted r octet at =
     (case r_header_state r of
        HName \<Rightarrow> r
      | HQuoted \<Rightarrow> r
      | HParameterName \<Rightarrow>
          if octet = 0x3D
          then (begin_parameter_value r at)\<lparr>r_header_state := HValueStart\<rparr>
          else r
      | HValueStart \<Rightarrow>
          r\<lparr>r_header_state := (if octet = 0x22 then HQuoted
                               else if octet = 0x2C then HValueStart else HValueText)\<rparr>
      | HValueText \<Rightarrow> if octet = 0x2C then r\<lparr>r_header_state := HValueStart\<rparr> else r)"

definition step_header_state :: "reader \<Rightarrow> octet \<Rightarrow> nat \<Rightarrow> (parse_error + unit) \<times> reader" where
  "step_header_state r octet at =
     (if r_header_state r = HQuoted
      then (Inr (), if octet = 0x22 then r\<lparr>r_header_state := HValueText\<rparr> else r)
      else if octet = 0x3B then open_parameter r at
      else (Inr (), step_unquoted r octet at))"

definition append_header_octet :: "reader \<Rightarrow> octet \<Rightarrow> (parse_error + unit) \<times> reader" where
  "append_header_octet r octet =
     (let ceiling = gl_header_bytes (r_limits r) in
      if \<not> (length (r_scratch r) \<le> u32_max \<and> length (r_scratch r) < ceiling)
      then (Inl (HeaderTooLarge ceiling), r)
      else let at = length (r_scratch r);
               r1 = r\<lparr>r_scratch := r_scratch r @ [octet]\<rparr>;
               r2 = advance_line_offset r1 1
           in step_header_state r2 octet at)"

text \<open>What a step of the header lexer leaves alone.\<close>

lemma terminator_at_width: "terminator_at input at = Some (nl, w) \<Longrightarrow> 1 \<le> w \<and> at < length input"
  by (auto simp: terminator_at_def split: if_splits)

lemma take_fold_input [simp]: "r_input (snd (take_fold r nl w)) = r_input r"
  by (simp add: take_fold_def Let_def)

lemma take_fold_cursor:
  "take_fold r nl w = (Inr True, r') \<Longrightarrow>
     r_input r' = r_input r \<and> r_cursor r' = r_cursor r + w + 1 \<and> r_cursor r' \<le> length (r_input r)"
  by (auto simp: take_fold_def Let_def split: if_splits)

lemma advance_frame [simp]:
  "r_input (advance_line_offset r n) = r_input r"
  "r_cursor (advance_line_offset r n) = r_cursor r"
  "r_limits (advance_line_offset r n) = r_limits r"
  "r_folds (advance_line_offset r n) = r_folds r"
  "r_ending (advance_line_offset r n) = r_ending r"
  "r_has_separator (advance_line_offset r n) = r_has_separator r"
  "r_stage (advance_line_offset r n) = r_stage r"
  "r_scratch (advance_line_offset r n) = r_scratch r"
  "r_parameters (advance_line_offset r n) = r_parameters r"
  "r_pending (advance_line_offset r n) = r_pending r"
  "r_header_state (advance_line_offset r n) = r_header_state r"
  "r_name_end (advance_line_offset r n) = r_name_end r"
  by (simp_all add: advance_line_offset_def Let_def)

lemma close_pending_frame [simp]:
  "r_input (close_pending r e) = r_input r"
  "r_cursor (close_pending r e) = r_cursor r"
  "r_limits (close_pending r e) = r_limits r"
  "r_folds (close_pending r e) = r_folds r"
  "r_ending (close_pending r e) = r_ending r"
  "r_has_separator (close_pending r e) = r_has_separator r"
  "r_stage (close_pending r e) = r_stage r"
  "r_scratch (close_pending r e) = r_scratch r"
  "r_line_offset (close_pending r e) = r_line_offset r"
  "r_header_state (close_pending r e) = r_header_state r"
  by (simp_all add: close_pending_def Let_def split: option.splits)

lemma begin_value_frame [simp]:
  "r_input (begin_parameter_value r at) = r_input r"
  "r_cursor (begin_parameter_value r at) = r_cursor r"
  "r_limits (begin_parameter_value r at) = r_limits r"
  "r_folds (begin_parameter_value r at) = r_folds r"
  "r_ending (begin_parameter_value r at) = r_ending r"
  "r_has_separator (begin_parameter_value r at) = r_has_separator r"
  "r_stage (begin_parameter_value r at) = r_stage r"
  "r_scratch (begin_parameter_value r at) = r_scratch r"
  "r_line_offset (begin_parameter_value r at) = r_line_offset r"
  "r_parameters (begin_parameter_value r at) = r_parameters r"
  "r_header_state (begin_parameter_value r at) = r_header_state r"
  "r_name_end (begin_parameter_value r at) = r_name_end r"
  by (simp_all add: begin_parameter_value_def split: option.splits)

lemma step_unquoted_frame [simp]:
  "r_input (step_unquoted r c at) = r_input r"
  "r_cursor (step_unquoted r c at) = r_cursor r"
  "r_limits (step_unquoted r c at) = r_limits r"
  "r_folds (step_unquoted r c at) = r_folds r"
  "r_ending (step_unquoted r c at) = r_ending r"
  "r_has_separator (step_unquoted r c at) = r_has_separator r"
  "r_stage (step_unquoted r c at) = r_stage r"
  "r_scratch (step_unquoted r c at) = r_scratch r"
  "r_line_offset (step_unquoted r c at) = r_line_offset r"
  "r_parameters (step_unquoted r c at) = r_parameters r"
  "r_name_end (step_unquoted r c at) = r_name_end r"
  by (simp_all add: step_unquoted_def split: header_state.splits)

lemma open_parameter_frame [simp]:
  "r_input (snd (open_parameter r at)) = r_input r"
  "r_cursor (snd (open_parameter r at)) = r_cursor r"
  "r_limits (snd (open_parameter r at)) = r_limits r"
  "r_folds (snd (open_parameter r at)) = r_folds r"
  "r_ending (snd (open_parameter r at)) = r_ending r"
  "r_has_separator (snd (open_parameter r at)) = r_has_separator r"
  "r_stage (snd (open_parameter r at)) = r_stage r"
  "r_scratch (snd (open_parameter r at)) = r_scratch r"
  "r_line_offset (snd (open_parameter r at)) = r_line_offset r"
  by (simp_all add: open_parameter_def Let_def)

lemma step_header_frame [simp]:
  "r_input (snd (step_header_state r c at)) = r_input r"
  "r_cursor (snd (step_header_state r c at)) = r_cursor r"
  "r_limits (snd (step_header_state r c at)) = r_limits r"
  "r_folds (snd (step_header_state r c at)) = r_folds r"
  "r_ending (snd (step_header_state r c at)) = r_ending r"
  "r_has_separator (snd (step_header_state r c at)) = r_has_separator r"
  "r_stage (snd (step_header_state r c at)) = r_stage r"
  "r_scratch (snd (step_header_state r c at)) = r_scratch r"
  "r_line_offset (snd (step_header_state r c at)) = r_line_offset r"
  by (simp_all add: step_header_state_def)

lemma append_header_frame [simp]:
  "r_input (snd (append_header_octet r c)) = r_input r"
  "r_cursor (snd (append_header_octet r c)) = r_cursor r"
  "r_limits (snd (append_header_octet r c)) = r_limits r"
  "r_folds (snd (append_header_octet r c)) = r_folds r"
  "r_ending (snd (append_header_octet r c)) = r_ending r"
  "r_has_separator (snd (append_header_octet r c)) = r_has_separator r"
  "r_stage (snd (append_header_octet r c)) = r_stage r"
  by (simp_all add: append_header_octet_def Let_def)

lemma append_header_position:
  "append_header_octet r c = (x, r') \<Longrightarrow> r_input r' = r_input r \<and> r_cursor r' = r_cursor r"
  using append_header_frame(1,2) [of r c] by simp

function scan_header :: "reader \<Rightarrow> (parse_error + unit) \<times> reader" where
  "scan_header r =
     (if length (r_input r) \<le> r_cursor r then (Inr (), (close_header r False)\<lparr>r_ending := None\<rparr>)
      else let octet = r_input r ! r_cursor r in
        case terminator_at (r_input r) (r_cursor r) of
          Some (newline, width) \<Rightarrow>
            (case take_fold r newline width of
               (Inl e, r') \<Rightarrow> (Inl e, r')
             | (Inr taken, r') \<Rightarrow>
                 if \<not> taken
                 then let r1 = (close_header r' False)\<lparr>r_ending := Some newline\<rparr>
                      in (Inr (), r1\<lparr>r_cursor := r_cursor r1 + width\<rparr>)
                 else scan_header r')
        | None \<Rightarrow>
            if octet = 0x3A \<and> r_header_state r \<noteq> HQuoted
            then let r1 = close_header r True;
                     r2 = r1\<lparr>r_cursor := r_cursor r1 + 1\<rparr>
                 in (Inr (), advance_line_offset r2 1)
            else (case append_header_octet r octet of
                    (Inl e, r') \<Rightarrow> (Inl e, r')
                  | (Inr _, r') \<Rightarrow> scan_header (r'\<lparr>r_cursor := r_cursor r' + 1\<rparr>)))"
  by pat_completeness auto
termination
proof (relation "measure (\<lambda>r. length (r_input r) - r_cursor r)", goal_cases)
  case 2
  then show ?case by (auto simp: not_le dest!: append_header_position [OF sym])
next
  case 3
  then show ?case by (auto simp: not_le dest!: take_fold_cursor [OF sym])
qed simp

section \<open>The reader\<close>

declare scan_header.simps [simp del]

definition scan_to_break :: "reader \<Rightarrow> nat \<times> reader" where
  "scan_to_break r =
     (let rest = drop (r_cursor r) (r_input r);
          width = length (takeWhile (\<lambda>octet. \<not> (octet = 0x0D \<or> octet = 0x0A)) rest);
          cursor' = r_cursor r + width
      in (cursor', r\<lparr>r_cursor := cursor'\<rparr>))"

definition next_value_chunk :: "reader \<Rightarrow> (parse_error + emit) \<times> reader" where
  "next_value_chunk r =
     (let start = r_cursor r;
          (end', r1) = scan_to_break r;
          r2 = advance_line_offset r1 (end' - start)
      in case terminator_at (r_input r2) end' of
           None \<Rightarrow> (Inr (EValue start end' False), r2\<lparr>r_ending := None, r_stage := Ending\<rparr>)
         | Some (newline, width) \<Rightarrow>
             (case take_fold r2 newline width of
                (Inl e, r3) \<Rightarrow> (Inl e, r3)
              | (Inr taken, r3) \<Rightarrow>
                  if taken then (Inr (EValue start end' True), r3)
                  else (Inr (EValue start end' False),
                        r3\<lparr>r_ending := Some newline, r_cursor := end' + width,
                           r_stage := Ending\<rparr>)))"

definition start_line :: "reader \<Rightarrow> (parse_error + unit) option \<times> reader" where
  "start_line r =
     (if length (r_input r) \<le> r_cursor r then (None, r\<lparr>r_stage := Done\<rparr>)
      else case scan_header (begin_line r) of
             (Inr _, r') \<Rightarrow> (Some (Inr ()), r'\<lparr>r_stage := SName\<rparr>)
           | (Inl e, r') \<Rightarrow> (Some (Inl e), r'\<lparr>r_stage := Done\<rparr>))"

fun stage_rank :: "stage \<Rightarrow> nat" where
  "stage_rank LineStart = 1"
| "stage_rank (SParameter i) = 1"
| "stage_rank _ = 0"

function advance :: "reader \<Rightarrow> (parse_error + emit) option \<times> reader" where
  "advance r =
     (case r_stage r of
        Done \<Rightarrow> (None, r)
      | LineStart \<Rightarrow>
          (case start_line r of
             (None, r') \<Rightarrow> (None, r')
           | (Some (Inl e), r') \<Rightarrow> (Some (Inl e), r')
           | (Some (Inr _), r') \<Rightarrow> advance r')
      | SName \<Rightarrow> (Some (Inr EName), r\<lparr>r_stage := SParameter 0\<rparr>)
      | SParameter index \<Rightarrow>
          if index < length (r_parameters r)
          then (Some (Inr (EParameter index)), r\<lparr>r_stage := SParameter (index + 1)\<rparr>)
          else advance (r\<lparr>r_stage := (if r_has_separator r then SValue else Ending)\<rparr>)
      | SValue \<Rightarrow>
          (case next_value_chunk r of
             (Inl e, r') \<Rightarrow> (Some (Inl e), r'\<lparr>r_stage := Done\<rparr>)
           | (Inr em, r') \<Rightarrow> (Some (Inr em), r'))
      | Ending \<Rightarrow> (Some (Inr EEndOfLine), r\<lparr>r_stage := LineStart\<rparr>))"
  by pat_completeness auto
termination
  by (relation "measure (\<lambda>r. stage_rank (r_stage r))")
     (auto simp: start_line_def split: if_splits sum.splits prod.splits)

declare advance.simps [simp del]

text \<open>\<open>slice.get(start..end).unwrap_or(&[])\<close>.\<close>

definition slice_or_empty :: "octets \<Rightarrow> nat \<Rightarrow> nat \<Rightarrow> octets" where
  "slice_or_empty xs s e = (if s \<le> e \<and> e \<le> length xs then take (e - s) (drop s xs) else [])"

definition header_slice :: "reader \<Rightarrow> nat \<Rightarrow> nat \<Rightarrow> octets" where
  "header_slice r s e = slice_or_empty (r_scratch r) s e"

definition parameter_token :: "reader \<Rightarrow> nat \<Rightarrow> token" where
  "parameter_token r index =
     (if index < length (r_parameters r)
      then let span = r_parameters r ! index in
           TParameter (header_slice r (ps_name_start span) (ps_name_end span))
             (header_slice r (ps_value_start span) (ps_value_end span)) (ps_has_value span)
      else TParameter [] [] False)"

fun materialize :: "reader \<Rightarrow> emit \<Rightarrow> token" where
  "materialize r EName = TName (header_slice r 0 (r_name_end r))"
| "materialize r (EParameter index) = parameter_token r index"
| "materialize r (EValue s e m) = TValue (slice_or_empty (r_input r) s e) m"
| "materialize r EEndOfLine = TEndOfLine (r_folds r) (r_ending r) (r_has_separator r)"

definition next_token :: "reader token_pull" where
  "next_token r =
     (case advance r of
        (None, r') \<Rightarrow> (None, r')
      | (Some (Inl e), r') \<Rightarrow> (Some (Inl e), r')
      | (Some (Inr em), r') \<Rightarrow> (Some (Inr (materialize r' em)), r'))"

text \<open>Every token of an input, and the bound that stopped the reader if one did.\<close>

definition lex :: "octets \<Rightarrow> grammar_limits \<Rightarrow> (token list \<times> parse_error option) option" where
  "lex input limits = drain next_token (reader_new input limits) []"

section \<open>The reader stops\<close>

lemma scan_header_progress:
  assumes "scan_header r = (x, r')"
  shows "r_input r' = r_input r \<and> r_cursor r \<le> r_cursor r'
    \<and> (x = Inr () \<longrightarrow> r_cursor r < length (r_input r) \<longrightarrow> r_cursor r < r_cursor r')"
  using assms
proof (induction r arbitrary: x r' rule: scan_header.induct)
  case (1 r)
  show ?case
  proof (cases "length (r_input r) \<le> r_cursor r")
    case True
    then show ?thesis using 1(3) by (auto simp: scan_header.simps [of r] close_header_def Let_def)
  next
    case False
    show ?thesis
    proof (cases "terminator_at (r_input r) (r_cursor r)")
      case None
      show ?thesis
      proof (cases "r_input r ! r_cursor r = 0x3A \<and> r_header_state r \<noteq> HQuoted")
        case True
        then show ?thesis
          using 1(3) None False by (auto simp: scan_header.simps [of r] close_header_def Let_def)
      next
        case plain: False
        obtain y r1 where a: "append_header_octet r (r_input r ! r_cursor r) = (y, r1)" by fastforce
        note p = append_header_position [OF a]
        show ?thesis
        proof (cases y)
          case (Inl e)
          then show ?thesis
            using 1(3) None False plain a p by (auto simp: scan_header.simps [of r] Let_def)
        next
          case (Inr u)
          then have "scan_header (r1\<lparr>r_cursor := r_cursor r1 + 1\<rparr>) = (x, r')"
            using 1(3) None False plain a by (auto simp: scan_header.simps [of r] Let_def)
          from 1(1) [OF False refl None plain a [symmetric] Inr this] show ?thesis
            using p by auto
        qed
      qed
    next
      case (Some t)
      obtain nl w where t: "terminator_at (r_input r) (r_cursor r) = Some (nl, w)"
        using Some by (cases t) auto
      obtain y r1 where a: "take_fold r nl w = (y, r1)" by fastforce
      have w: "1 \<le> w" using terminator_at_width [OF t] by simp
      show ?thesis
      proof (cases y)
        case (Inl e)
        then have "r1 = r" using a by (auto simp: take_fold_def Let_def split: if_splits)
        then show ?thesis
          using 1(3) t False a Inl by (auto simp: scan_header.simps [of r] Let_def)
      next
        case (Inr taken)
        show ?thesis
        proof (cases taken)
          case True
          then have "scan_header r1 = (x, r')"
            using 1(3) t False a Inr by (auto simp: scan_header.simps [of r] Let_def)
          moreover have "\<not> \<not> taken" using True by simp
          ultimately show ?thesis
            using 1(2) [OF False refl t refl a [symmetric] Inr, of x r'] a Inr True
              take_fold_cursor [of r nl w r1] w by auto
        next
          case no: False
          then have "r1 = r" using a Inr by (auto simp: take_fold_def Let_def split: if_splits)
          then show ?thesis
            using 1(3) t False a Inr no w
            by (auto simp: scan_header.simps [of r] close_header_def Let_def)
        qed
      qed
    qed
  qed
qed

lemma next_value_chunk_progress:
  assumes "next_value_chunk r = (Inr em, r')"
  shows "r_input r' = r_input r \<and> r_cursor r \<le> r_cursor r'
    \<and> (r_stage r' = Ending
        \<or> (r_stage r' = r_stage r \<and> r_cursor r < r_cursor r' \<and> r_cursor r' \<le> length (r_input r)))"
proof -
  define e where "e = fst (scan_to_break r)"
  define r2 where "r2 = advance_line_offset (snd (scan_to_break r)) (e - r_cursor r)"
  have e: "r_cursor r \<le> e" by (simp add: e_def scan_to_break_def Let_def)
  have r2: "r_input r2 = r_input r" "r_cursor r2 = e" "r_stage r2 = r_stage r"
    by (simp_all add: r2_def e_def scan_to_break_def Let_def)
  have eq: "next_value_chunk r =
      (case terminator_at (r_input r2) e of
           None \<Rightarrow> (Inr (EValue (r_cursor r) e False), r2\<lparr>r_ending := None, r_stage := Ending\<rparr>)
         | Some (newline, width) \<Rightarrow>
             (case take_fold r2 newline width of
                (Inl e, r3) \<Rightarrow> (Inl e, r3)
              | (Inr taken, r3) \<Rightarrow>
                  if taken then (Inr (EValue (r_cursor r) e True), r3)
                  else (Inr (EValue (r_cursor r) e False),
                        r3\<lparr>r_ending := Some newline, r_cursor := e + width, r_stage := Ending\<rparr>)))"
    unfolding next_value_chunk_def Let_def r2_def e_def split_beta by simp
  show ?thesis
  proof (cases "terminator_at (r_input r2) e")
    case None
    then show ?thesis using assms e r2 unfolding eq by auto
  next
    case (Some t)
    then obtain nl w where t: "terminator_at (r_input r2) e = Some (nl, w)" by (cases t) auto
    obtain y r3 where f: "take_fold r2 nl w = (y, r3)" by fastforce
    then obtain b where y: "y = Inr b" using assms t unfolding eq by (cases y) auto
    have fr: "r_input r3 = r_input r2" "r_stage r3 = r_stage r2"
      using f by (auto simp: take_fold_def Let_def split: if_splits)
    show ?thesis
      using assms t f y e r2 fr take_fold_cursor [of r2 nl w r3] unfolding eq
      by (cases b) auto
  qed
qed

fun stage_weight :: "reader \<Rightarrow> nat" where
  "stage_weight r =
     (case r_stage r of
        LineStart \<Rightarrow> 0 | Done \<Rightarrow> 0 | Ending \<Rightarrow> 1 | SValue \<Rightarrow> 2
      | SParameter i \<Rightarrow> 3 + (length (r_parameters r) - i)
      | SName \<Rightarrow> 4 + length (r_parameters r))"

definition reader_order :: "(reader \<times> reader) set" where
  "reader_order = inv_image (less_than <*lex*> less_than)
     (\<lambda>r. (length (r_input r) - r_cursor r, stage_weight r))"

lemma wf_reader_order: "wf reader_order"
  unfolding reader_order_def by (intro wf_inv_image wf_lex_prod wf_less_than)

lemma advance_value:
  "r_stage r = SValue \<Longrightarrow> advance r =
     (case next_value_chunk r of
        (Inl e, r') \<Rightarrow> (Some (Inl e), r'\<lparr>r_stage := Done\<rparr>)
      | (Inr em, r') \<Rightarrow> (Some (Inr em), r'))"
  by (simp add: advance.simps [of r])

lemma value_descends:
  assumes "next_value_chunk r = (Inr em, r')" and "r_stage r = SValue"
  shows "(r', r) \<in> reader_order"
  using next_value_chunk_progress [OF assms(1)] assms(2) by (auto simp: reader_order_def)

lemma advance_descends:
  assumes "advance r = (Some (Inr em), r')"
  shows "(r', r) \<in> reader_order"
proof (cases "r_stage r")
  case LineStart
  then obtain r1 where s: "start_line r = (Some (Inr ()), r1)" and a: "advance r1 = (Some (Inr em), r')"
    using assms by (auto simp: advance.simps [of r] split: prod.splits option.splits sum.splits)
  then obtain r0 where h: "scan_header (begin_line r) = (Inr (), r0)" and r1: "r1 = r0\<lparr>r_stage := SName\<rparr>"
    and c: "r_cursor r < length (r_input r)"
    by (auto simp: start_line_def split: if_splits prod.splits sum.splits)
  have "r_input r0 = r_input r" "r_cursor r < r_cursor r0"
    using scan_header_progress [OF h] c by (simp_all add: begin_line_def)
  then show ?thesis
    using a r1 c by (auto simp: advance.simps [of "r0\<lparr>r_stage := SName\<rparr>"] reader_order_def)
next
  case SName
  then show ?thesis using assms by (auto simp: advance.simps [of r] reader_order_def)
next
  case (SParameter i)
  show ?thesis
  proof (cases "i < length (r_parameters r)")
    case True
    then show ?thesis using assms SParameter by (auto simp: advance.simps [of r] reader_order_def)
  next
    case False
    show ?thesis
    proof (cases "r_has_separator r")
      case True
      let ?r = "r\<lparr>r_stage := SValue\<rparr>"
      have "advance ?r = (Some (Inr em), r')"
        using assms SParameter False True by (simp add: advance.simps [of r])
      then have "next_value_chunk ?r = (Inr em, r')"
        by (auto simp: advance_value split: prod.splits sum.splits)
      from next_value_chunk_progress [OF this] show ?thesis
        using SParameter by (auto simp: reader_order_def)
    next
      case no: False
      then show ?thesis
        using assms SParameter False
        by (auto simp: advance.simps [of r] advance.simps [of "r\<lparr>r_stage := Ending\<rparr>"] reader_order_def)
    qed
  qed
next
  case SValue
  then have "next_value_chunk r = (Inr em, r')"
    using assms by (auto simp: advance_value split: prod.splits sum.splits)
  then show ?thesis using SValue by (rule value_descends)
next
  case Ending
  then show ?thesis using assms by (auto simp: advance.simps [of r] reader_order_def)
next
  case Done
  then show ?thesis using assms by (simp add: advance.simps [of r])
qed

lemma next_token_advance:
  "next_token r = (Some (Inr t), r') \<longleftrightarrow> (\<exists>em. advance r = (Some (Inr em), r') \<and> t = materialize r' em)"
  "fst (next_token r) = None \<longleftrightarrow> fst (advance r) = None"
  by (auto simp: next_token_def split: prod.splits option.splits sum.splits)

interpretation line_reader: token_source next_token reader_order
  by unfold_locales (auto simp: wf_reader_order next_token_advance advance_descends)

section \<open>The reader is lossless\<close>

text \<open>The octets of the input between two positions.\<close>

definition seg :: "octets \<Rightarrow> nat \<Rightarrow> nat \<Rightarrow> octets" where
  "seg input a b = take (b - a) (drop a input)"

lemma seg_same [simp]: "seg input a a = []"
  by (simp add: seg_def)

lemma seg_append: "a \<le> b \<Longrightarrow> b \<le> c \<Longrightarrow> seg input a c = seg input a b @ seg input b c"
proof -
  assume "a \<le> b" "b \<le> c"
  then have "c - a = (b - a) + (c - b)" by simp
  then have "take (c - a) (drop a input) = take (b - a) (drop a input) @ take (c - b) (drop (b - a) (drop a input))"
    by (simp only: take_add)
  then show ?thesis using \<open>a \<le> b\<close> by (simp add: seg_def)
qed

lemma seg_octet: "b < length input \<Longrightarrow> seg input b (Suc b) = [input ! b]"
  by (simp add: seg_def take_Suc_conv_app_nth)

lemma take_seg: "a \<le> b \<Longrightarrow> take b input = take a input @ seg input a b"
  using seg_append [of 0 a b input] by (simp add: seg_def)

lemma terminator_seg:
  assumes "terminator_at input at = Some (nl, w)"
  shows "seg input at (at + w) = ending_as_bytes nl \<and> at + w \<le> length input"
proof -
  have two: "seg input at (at + 2) = [input ! at, input ! Suc at]" if "Suc at < length input"
    using that seg_append [of at "Suc at" "at + 2" input] seg_octet [of at input]
      seg_octet [of "Suc at" input] by simp
  show ?thesis
    using assms two seg_octet [of at input]
    by (auto simp: terminator_at_def split: if_splits)
qed

text \<open>
  Where a line's octets so far stand: from \<open>start\<close> to the cursor lies the rendering of the unfolded
  text \<open>x\<close> with the folds recorded, and the line offset counts the text.
\<close>

definition layout_inv :: "nat \<Rightarrow> octets \<Rightarrow> reader \<Rightarrow> bool" where
  "layout_inv start x r \<longleftrightarrow>
     start \<le> r_cursor r \<and> r_cursor r \<le> length (r_input r) \<and> length (r_input r) \<le> u32_max
   \<and> seg (r_input r) start (r_cursor r) = weave 0 x (r_folds r)
   \<and> r_line_offset r = length x \<and> (\<forall>f \<in> set (r_folds r). fold_offset f \<le> length x)"

lemma layout_text_bound:
  assumes "layout_inv start x r"
  shows "length x + length (r_folds r) \<le> r_cursor r - start"
proof -
  have "length (weave 0 x (r_folds r)) = length (seg (r_input r) start (r_cursor r))"
    using assms by (simp add: layout_inv_def)
  also have "\<dots> \<le> r_cursor r - start" by (simp add: seg_def)
  finally show ?thesis using length_weave [of x "r_folds r" 0] by linarith
qed

lemma layout_take_fold:
  assumes inv: "layout_inv start x r" and t: "terminator_at (r_input r) (r_cursor r) = Some (nl, w)"
    and f: "take_fold r nl w = (Inr True, r')"
  shows "layout_inv start x r'"
proof -
  let ?i = "r_input r" and ?c = "r_cursor r"
  define o' where "o' = ?i ! (?c + w)"
  have a: "?c + w < length ?i" and ws: "is_fold_whitespace o'"
    and r': "r_folds r' = r_folds r @ [\<lparr>fold_offset = r_line_offset r, fold_tab = (o' = 0x09), fold_newline = nl\<rparr>]"
      "r_cursor r' = ?c + w + 1" "r_input r' = ?i" "r_line_offset r' = r_line_offset r"
    using f by (auto simp: take_fold_def Let_def o'_def split: if_splits)
  let ?f = "\<lparr>fold_offset = r_line_offset r, fold_tab = (o' = 0x09), fold_newline = nl\<rparr>"
  have "fold_bytes ?f = ending_as_bytes nl @ [o']"
    using ws by (auto simp: fold_bytes_def fold_whitespace_def is_fold_whitespace_def)
  moreover have "seg ?i ?c (?c + w + 1) = ending_as_bytes nl @ [o']"
    using seg_append [of ?c "?c + w" "?c + w + 1" ?i] terminator_seg [OF t] seg_octet [OF a]
    by (simp add: o'_def)
  ultimately have "seg ?i start (?c + w + 1) = weave 0 x (r_folds r @ [?f])"
    using seg_append [of start ?c "?c + w + 1" ?i] inv weave_snoc_fold [of ?f 0 x "r_folds r"]
    by (simp add: layout_inv_def)
  then show ?thesis using inv a r' by (auto simp: layout_inv_def)
qed

lemma layout_more_text:
  assumes inv: "layout_inv start x r" and r': "r_input r' = r_input r" "r_folds r' = r_folds r"
    "r_cursor r' = r_cursor r + n" "r_line_offset r' = sat_add u32_max (r_line_offset r) n"
    and y: "seg (r_input r) (r_cursor r) (r_cursor r + n) = y" "r_cursor r + n \<le> length (r_input r)"
  shows "layout_inv start (x @ y) r'"
proof -
  have ly: "length y = n" using y by (auto simp: seg_def)
  have "length x \<le> r_cursor r" using layout_text_bound [OF inv] by linarith
  moreover have "length (r_input r) \<le> u32_max" using inv by (simp add: layout_inv_def)
  ultimately have "length x + n \<le> u32_max" using y(2) by linarith
  then have "r_line_offset r' = length (x @ y)"
    using r' inv ly by (simp add: layout_inv_def sat_add_def)
  moreover have "seg (r_input r) start (r_cursor r + n) = weave 0 (x @ y) (r_folds r)"
    using seg_append [of start "r_cursor r" "r_cursor r + n" "r_input r"] inv y weave_append [of "r_folds r" 0 x y]
    by (auto simp: layout_inv_def)
  ultimately show ?thesis using inv r' y by (auto simp: layout_inv_def)
qed

subsection \<open>The header\<close>

text \<open>
  The text of the closed parameters, and what the header lexer keeps while it runs: the scratch
  buffer is the closed part followed by the parameter still open.
\<close>

definition span_text :: "octets \<Rightarrow> parameter_span \<Rightarrow> octets" where
  "span_text s sp =
     0x3B # slice_or_empty s (ps_name_start sp) (ps_name_end sp)
       @ (if ps_has_value sp then 0x3D # slice_or_empty s (ps_value_start sp) (ps_value_end sp)
          else [])"

definition closed_text :: "reader \<Rightarrow> octets" where
  "closed_text r =
     slice_or_empty (r_scratch r) 0 (r_name_end r)
       @ concat (map (span_text (r_scratch r)) (r_parameters r))"

definition span_in :: "nat \<Rightarrow> parameter_span \<Rightarrow> bool" where
  "span_in n sp \<longleftrightarrow> ps_name_start sp \<le> ps_name_end sp \<and> ps_name_end sp \<le> n
     \<and> ps_value_start sp \<le> ps_value_end sp \<and> ps_value_end sp \<le> n
     \<and> (\<not> ps_has_value sp \<longrightarrow> ps_value_start sp = ps_value_end sp)"

definition spans_in :: "nat \<Rightarrow> reader \<Rightarrow> bool" where
  "spans_in n r \<longleftrightarrow> r_name_end r \<le> n \<and> list_all (span_in n) (r_parameters r)"

definition open_span :: "reader \<Rightarrow> parameter_span \<Rightarrow> bool" where
  "open_span r sp \<longleftrightarrow>
     spans_in (length (r_scratch r)) r
   \<and> ps_name_start sp \<le> length (r_scratch r)
   \<and> take (ps_name_start sp) (r_scratch r) = closed_text r @ [0x3B]
   \<and> (if ps_has_value sp
      then ps_name_start sp \<le> ps_name_end sp \<and> ps_name_end sp < length (r_scratch r)
         \<and> r_scratch r ! ps_name_end sp = 0x3D \<and> ps_value_start sp = ps_name_end sp + 1
         \<and> r_header_state r \<noteq> HParameterName
      else r_header_state r = HParameterName
         \<and> ps_value_start sp = ps_name_start sp \<and> ps_value_end sp = ps_name_start sp)"

definition header_inv :: "reader \<Rightarrow> bool" where
  "header_inv r \<longleftrightarrow>
     (case r_pending r of
        None \<Rightarrow> r_parameters r = [] \<and> r_header_state r = HName
      | Some sp \<Rightarrow> r_header_state r \<noteq> HName \<and> open_span r sp)"

lemma slice_append: "e \<le> length s \<Longrightarrow> slice_or_empty (s @ x) a e = slice_or_empty s a e"
  by (simp add: slice_or_empty_def)

lemma slice_all [simp]: "slice_or_empty s 0 (length s) = s"
  by (simp add: slice_or_empty_def)

lemma slice_to_end: "a \<le> length s \<Longrightarrow> slice_or_empty s a (length s) = drop a s"
  by (simp add: slice_or_empty_def)

lemma span_text_append: "span_in (length s) sp \<Longrightarrow> span_text (s @ x) sp = span_text s sp"
  by (auto simp: span_text_def span_in_def slice_append)

lemma closed_text_append:
  assumes "spans_in (length (r_scratch r)) r"
  shows "closed_text (r\<lparr>r_scratch := r_scratch r @ x\<rparr>) = closed_text r"
proof -
  have "concat (map (span_text (r_scratch r @ x)) (r_parameters r))
      = concat (map (span_text (r_scratch r)) (r_parameters r))"
    using assms
    by (intro arg_cong [of _ _ concat] map_cong)
       (auto simp: spans_in_def list_all_iff span_text_append)
  then show ?thesis using assms by (simp add: closed_text_def spans_in_def slice_append)
qed

lemma spans_in_mono: "spans_in n r \<Longrightarrow> n \<le> m \<Longrightarrow> spans_in m r"
  by (auto simp: spans_in_def span_in_def list_all_iff)

lemma closed_text_cong:
  "r_scratch r' = r_scratch r \<Longrightarrow> r_parameters r' = r_parameters r \<Longrightarrow> r_name_end r' = r_name_end r
     \<Longrightarrow> closed_text r' = closed_text r"
  by (simp add: closed_text_def)

lemma spans_in_cong:
  "r_parameters r' = r_parameters r \<Longrightarrow> r_name_end r' = r_name_end r \<Longrightarrow> spans_in n r' = spans_in n r"
  by (simp add: spans_in_def)

text \<open>The text a parameter adds when it is closed at the end of the scratch buffer.\<close>

lemma open_span_text:
  assumes "open_span r sp"
  shows "closed_text r @ span_text (r_scratch r)
      (if ps_has_value sp then sp\<lparr>ps_value_end := length (r_scratch r)\<rparr>
       else sp\<lparr>ps_name_end := length (r_scratch r)\<rparr>) = r_scratch r"
proof -
  let ?s = "r_scratch r" and ?a = "ps_name_start sp" and ?e = "ps_name_end sp"
  have tk: "take ?a ?s = closed_text r @ [0x3B]" "?a \<le> length ?s"
    using assms by (auto simp: open_span_def)
  have s: "closed_text r @ 0x3B # drop ?a ?s = ?s"
    using tk append_take_drop_id [of ?a ?s] by simp
  show ?thesis
  proof (cases "ps_has_value sp")
    case True
    then have e: "?a \<le> ?e" "?e < length ?s" "?s ! ?e = 0x3D" "ps_value_start sp = ?e + 1"
      using assms by (auto simp: open_span_def)
    have "drop ?a ?s = take (?e - ?a) (drop ?a ?s) @ drop ?e ?s"
      using e(1) append_take_drop_id [of "?e - ?a" "drop ?a ?s"] by (simp add: add.commute)
    also have "drop ?e ?s = 0x3D # drop (?e + 1) ?s"
      using e Cons_nth_drop_Suc [of ?e ?s] by simp
    finally show ?thesis
      using True e s by (simp add: span_text_def slice_or_empty_def)
  next
    case False
    then show ?thesis using s tk by (simp add: span_text_def slice_to_end)
  qed
qed

text \<open>Closing a header at the end of the scratch buffer, whatever was appended after it.\<close>

lemma close_pending_text:
  assumes "header_inv r"
    and q: "q = close_pending (r\<lparr>r_scratch := r_scratch r @ x\<rparr>) (length (r_scratch r))"
  shows "closed_text q = r_scratch r" "spans_in (length (r_scratch r)) q"
proof -
  let ?s = "r_scratch r"
  have "closed_text q = ?s \<and> spans_in (length ?s) q"
  proof (cases "r_pending r")
    case None
    then show ?thesis
      using assms(1) q
      by (simp add: header_inv_def close_pending_def closed_text_def spans_in_def slice_append)
  next
    case (Some sp)
    then have o': "open_span r sp" using assms(1) by (simp add: header_inv_def)
    let ?sp = "if ps_has_value sp then sp\<lparr>ps_value_end := length ?s\<rparr>
       else sp\<lparr>ps_name_end := length ?s\<rparr>"
    have i: "span_in (length ?s) ?sp" using o' by (auto simp: open_span_def span_in_def)
    have sp: "spans_in (length ?s) r" using o' by (simp add: open_span_def)
    have q': "r_scratch q = ?s @ x" "r_parameters q = r_parameters r @ [?sp]"
      "r_name_end q = r_name_end r"
      using q Some by (simp_all add: close_pending_def)
    have "closed_text q = closed_text (r\<lparr>r_scratch := ?s @ x\<rparr>) @ span_text (?s @ x) ?sp"
      by (simp add: closed_text_def q')
    also have "\<dots> = ?s"
      using open_span_text [OF o'] closed_text_append [OF sp] span_text_append [OF i, of x] by simp
    finally show ?thesis using sp i by (simp add: spans_in_def q')
  qed
  then show "closed_text q = ?s" "spans_in (length ?s) q" by auto
qed

lemma header_inv_cong:
  assumes "r_scratch r' = r_scratch r" "r_parameters r' = r_parameters r" "r_pending r' = r_pending r"
    "r_header_state r' = r_header_state r" "r_name_end r' = r_name_end r"
  shows "header_inv r' \<longleftrightarrow> header_inv r"
  using assms closed_text_cong [OF assms(1,2,5)] spans_in_cong [OF assms(2,5)]
  by (simp add: header_inv_def open_span_def split: option.splits)

lemma header_inv_begin: "header_inv (begin_line r)"
  by (simp add: header_inv_def begin_line_def)

text \<open>The invariant survives an octet whose place in the grammar changes no boundary.\<close>

lemma open_span_append:
  assumes "open_span r sp" and "st = HParameterName \<longleftrightarrow> \<not> ps_has_value sp"
  shows "open_span (r\<lparr>r_scratch := r_scratch r @ [c], r_header_state := st\<rparr>) sp"
proof -
  have "spans_in (length (r_scratch r)) r" using assms by (simp add: open_span_def)
  then have ct: "closed_text (r\<lparr>r_scratch := r_scratch r @ [c], r_header_state := st\<rparr>) = closed_text r"
    using closed_text_append [of r "[c]"] by (simp add: closed_text_def)
  have si: "spans_in (length (r_scratch r @ [c])) (r\<lparr>r_scratch := r_scratch r @ [c], r_header_state := st\<rparr>)"
    using spans_in_mono [of "length (r_scratch r)" r "length (r_scratch r @ [c])"] assms
    by (simp add: open_span_def spans_in_def)
  show ?thesis
    using assms si unfolding open_span_def ct by (auto simp: nth_append)
qed

lemma open_parameter_inv:
  assumes inv: "header_inv r" and q: "r_scratch q = r_scratch r @ [0x3B]" "r_pending q = r_pending r"
    "r_parameters q = r_parameters r" "r_name_end q = r_name_end r"
    and o': "open_parameter q (length (r_scratch r)) = (Inr (), r')"
  shows "header_inv r'"
proof -
  let ?s = "r_scratch r" and ?q = "close_pending q (length (r_scratch r))"
  let ?p = "close_pending (r\<lparr>r_scratch := ?s @ [0x3B]\<rparr>) (length ?s)"
  have eq: "r_scratch ?q = r_scratch ?p" "r_parameters ?q = r_parameters ?p" "r_name_end ?q = r_name_end ?p"
    using q by (simp_all add: close_pending_def Let_def split: option.splits)
  have ct: "closed_text ?q = ?s" and si: "spans_in (length ?s) ?q"
    using close_pending_text [OF inv refl, of "[0x3B]"] closed_text_cong [OF eq]
      spans_in_cong [OF eq(2,3)] by simp_all
  have r': "r' = ?q\<lparr>r_pending := Some (span_opening (length ?s + 1)), r_header_state := HParameterName\<rparr>"
    using o' by (auto simp: open_parameter_def Let_def split: if_splits)
  have "closed_text r' = ?s" "spans_in (length ?s + 1) r'"
    using ct spans_in_mono [OF si, of "length ?s + 1"] closed_text_cong [of r' ?q]
      spans_in_cong [of r' ?q] by (simp_all add: r')
  then show ?thesis
    using q(1) by (simp add: r' header_inv_def open_span_def span_opening_def)
qed

lemma step_unquoted_cases:
  obtains (same) "step_unquoted q c at = q"
  | (assign) "r_header_state q = HParameterName" "c = 0x3D"
  | (moved) st where "step_unquoted q c at = q\<lparr>r_header_state := st\<rparr>"
      "st \<in> {HQuoted, HValueStart, HValueText}" "r_header_state q \<in> {HValueStart, HValueText}"
proof (cases "r_header_state q")
  case HValueStart
  let ?st = "if c = 0x22 then HQuoted else if c = 0x2C then HValueStart else HValueText"
  have "step_unquoted q c at = q\<lparr>r_header_state := ?st\<rparr>"
    using HValueStart by (simp add: step_unquoted_def)
  then show ?thesis by (rule moved) (simp_all add: HValueStart)
next
  case HValueText
  show ?thesis
  proof (cases "c = 0x2C")
    case True
    show ?thesis by (rule moved [of HValueStart]) (simp_all add: step_unquoted_def HValueText True)
  next
    case False
    show ?thesis by (rule same) (simp add: step_unquoted_def HValueText False)
  qed
next
  case HParameterName
  show ?thesis
  proof (cases "c = 0x3D")
    case True
    show ?thesis by (rule assign) (fact HParameterName True)+
  next
    case False
    show ?thesis by (rule same) (simp add: step_unquoted_def HParameterName False)
  qed
next
  case HName
  show ?thesis by (rule same) (simp add: step_unquoted_def HName)
next
  case HQuoted
  show ?thesis by (rule same) (simp add: step_unquoted_def HQuoted)
qed

lemma append_header_inv:
  assumes inv: "header_inv r" and a: "append_header_octet r c = (Inr (), r')"
  shows "header_inv r' \<and> r_scratch r' = r_scratch r @ [c]
    \<and> r_line_offset r' = sat_add u32_max (r_line_offset r) 1"
proof -
  let ?s = "r_scratch r"
  define q where "q = advance_line_offset (r\<lparr>r_scratch := ?s @ [c]\<rparr>) 1"
  have q: "r_scratch q = ?s @ [c]" "r_pending q = r_pending r" "r_parameters q = r_parameters r"
    "r_name_end q = r_name_end r" "r_header_state q = r_header_state r"
    "r_line_offset q = sat_add u32_max (r_line_offset r) 1"
    by (simp_all add: q_def) (simp add: advance_line_offset_def u32_max_def)
  have st: "step_header_state q c (length ?s) = (Inr (), r')"
    using a by (auto simp: append_header_octet_def Let_def q_def split: if_splits)
  have frame: "r_scratch r' = ?s @ [c]" "r_line_offset r' = r_line_offset q"
    using step_header_frame(8,9) [of q c "length ?s"] st q by simp_all
  have keep: "header_inv (q\<lparr>r_header_state := st'\<rparr>)"
    if "r_pending r = None \<longrightarrow> st' = HName"
      "\<forall>sp. r_pending r = Some sp \<longrightarrow> st' \<noteq> HName \<and> (st' = HParameterName \<longleftrightarrow> \<not> ps_has_value sp)" for st'
  proof -
    have "header_inv (r\<lparr>r_scratch := ?s @ [c], r_header_state := st'\<rparr>)"
      using that inv by (auto simp: header_inv_def open_span_append split: option.splits)
    then show ?thesis using q by (subst header_inv_cong [of _ "r\<lparr>r_scratch := ?s @ [c], r_header_state := st'\<rparr>"]) simp_all
  qed
  have pend: "r_pending r = None \<longrightarrow> r_header_state r = HName"
    "\<forall>sp. r_pending r = Some sp \<longrightarrow> r_header_state r \<noteq> HName \<and> (r_header_state r = HParameterName \<longleftrightarrow> \<not> ps_has_value sp)"
    using inv by (auto simp: header_inv_def open_span_def split: option.splits if_splits)
  have eqq: "q\<lparr>r_header_state := r_header_state r\<rparr> = q" using q by simp
  have "header_inv r'"
  proof (cases "r_header_state r = HQuoted")
    case True
    then have "r' = q\<lparr>r_header_state := (if c = 0x22 then HValueText else HQuoted)\<rparr>"
      using st q by (auto simp: step_header_state_def)
    then show ?thesis using keep pend True by auto
  next
    case nq: False
    show ?thesis
    proof (cases "c = 0x3B")
      case True
      then have "open_parameter q (length ?s) = (Inr (), r')"
        using st nq q by (simp add: step_header_state_def)
      then show ?thesis using open_parameter_inv [OF inv] q True by simp
    next
      case False
      then have r': "r' = step_unquoted q c (length ?s)" using st nq q by (simp add: step_header_state_def)
      show ?thesis
      proof (cases rule: step_unquoted_cases [of q c "length ?s"])
        case same
        then show ?thesis using keep [OF pend] r' eqq by simp
      next
        case assign
        then have state: "r_header_state r = HParameterName" using q(5) by simp
        then obtain sp where sp: "r_pending r = Some sp" "\<not> ps_has_value sp" "open_span r sp"
          using inv by (auto simp: header_inv_def open_span_def split: option.splits if_splits)
        have "open_span (r\<lparr>r_scratch := ?s @ [c], r_header_state := HParameterName\<rparr>) sp"
          using sp by (intro open_span_append) simp_all
        then have "open_span (r\<lparr>r_scratch := ?s @ [c], r_header_state := HValueStart\<rparr>)
            (sp\<lparr>ps_name_end := length ?s, ps_has_value := True, ps_value_start := length ?s + 1,
                ps_value_end := length ?s + 1\<rparr>)"
          using sp assign q(5) by (auto simp: open_span_def closed_text_def spans_in_def)
        moreover have "r_pending r' = Some (sp\<lparr>ps_name_end := length ?s, ps_has_value := True,
              ps_value_start := length ?s + 1, ps_value_end := length ?s + 1\<rparr>)"
          "r_header_state r' = HValueStart" "r_scratch r' = ?s @ [c]"
          "r_parameters r' = r_parameters r" "r_name_end r' = r_name_end r"
          using r' q assign sp by (simp_all add: step_unquoted_def begin_parameter_value_def)
        ultimately show ?thesis
          by (auto simp: header_inv_def open_span_def closed_text_def spans_in_def)
      next
        case (moved st')
        then show ?thesis using keep [of st'] pend q(5) r' by auto
      qed
    qed
  qed
  then show ?thesis using frame q by simp
qed

subsection \<open>A line\<close>

lemma layout_inv_cong:
  assumes "r_input r' = r_input r" "r_folds r' = r_folds r" "r_cursor r' = r_cursor r"
    "r_line_offset r' = r_line_offset r"
  shows "layout_inv start x r' \<longleftrightarrow> layout_inv start x r"
  using assms by (simp add: layout_inv_def)

lemma header_inv_take_fold:
  assumes "take_fold r nl w = (y, r')"
  shows "r_scratch r' = r_scratch r" "header_inv r' \<longleftrightarrow> header_inv r"
proof -
  have f: "r_scratch r' = r_scratch r" "r_parameters r' = r_parameters r" "r_pending r' = r_pending r"
    "r_header_state r' = r_header_state r" "r_name_end r' = r_name_end r"
    using assms by (auto simp: take_fold_def Let_def split: if_splits)
  show "r_scratch r' = r_scratch r" by (rule f)
  show "header_inv r' \<longleftrightarrow> header_inv r" by (rule header_inv_cong [OF f])
qed

text \<open>
  A line read to its end: its folds lie inside it, and only the end of the input leaves it without
  a terminator.
\<close>

definition line_bounded :: "nat \<Rightarrow> reader \<Rightarrow> bool" where
  "line_bounded n r \<longleftrightarrow> (\<forall>f \<in> set (r_folds r). fold_offset f \<le> n)
     \<and> (r_ending r = None \<longrightarrow> r_cursor r = length (r_input r))"

definition line_read :: "nat \<Rightarrow> reader \<Rightarrow> bool" where
  "line_read start r \<longleftrightarrow>
     closed_text r = r_scratch r \<and> spans_in (length (r_scratch r)) r \<and> start \<le> r_cursor r \<and> r_cursor r \<le> length (r_input r)
   \<and> length (r_input r) \<le> u32_max
   \<and> (if r_has_separator r then layout_inv start (r_scratch r @ [0x3A]) r
      else line_bounded (length (r_scratch r)) r
         \<and> seg (r_input r) start (r_cursor r)
             = weave 0 (r_scratch r) (r_folds r) @ ending_bytes (r_ending r))"

lemma close_header_eqs:
  "r_scratch (close_header r b) = r_scratch r" "r_cursor (close_header r b) = r_cursor r"
  "r_input (close_header r b) = r_input r" "r_folds (close_header r b) = r_folds r"
  "r_line_offset (close_header r b) = r_line_offset r" "r_has_separator (close_header r b) = b"
  by (simp_all add: close_header_def Let_def)

lemma close_header_text:
  assumes "header_inv r"
  shows "closed_text (close_header r b) = r_scratch r"
    "spans_in (length (r_scratch r)) (close_header r b)"
  using close_pending_text [OF assms refl, of "[]"]
  by (simp_all add: close_header_def Let_def closed_text_def spans_in_def)

lemma line_read_ended:
  assumes "layout_inv start (r_scratch r) r" "header_inv r"
    and "seg (r_input r) (r_cursor r) (r_cursor r + w) = ending_bytes e" "r_cursor r + w \<le> length (r_input r)"
    and "e = None \<longrightarrow> r_cursor r + w = length (r_input r)"
  shows "line_read start ((close_header r False)\<lparr>r_ending := e, r_cursor := r_cursor r + w\<rparr>)"
proof -
  let ?r = "(close_header r False)\<lparr>r_ending := e, r_cursor := r_cursor r + w\<rparr>"
  have "closed_text ?r = r_scratch r"
    using close_header_text(1) [OF assms(2), of False] by (simp add: closed_text_def)
  moreover have "spans_in (length (r_scratch r)) ?r"
    using close_header_text(2) [OF assms(2), of False] by (simp add: spans_in_def)
  ultimately show ?thesis
    using assms seg_append [of start "r_cursor r" "r_cursor r + w" "r_input r"]
    by (simp add: line_read_def line_bounded_def layout_inv_def close_header_eqs)
qed

lemma line_read_separated:
  assumes l: "layout_inv start (r_scratch r) r" and h: "header_inv r"
    and c: "r_cursor r < length (r_input r)" "r_input r ! r_cursor r = 0x3A"
  shows "line_read start
    (advance_line_offset ((close_header r True)\<lparr>r_cursor := r_cursor r + 1\<rparr>) 1)"
proof -
  let ?r = "advance_line_offset ((close_header r True)\<lparr>r_cursor := r_cursor r + 1\<rparr>) 1"
  have ct: "closed_text ?r = r_scratch r"
    using close_header_text(1) [OF h, of True]
    by (simp add: closed_text_def advance_line_offset_def Let_def)
  have si: "spans_in (length (r_scratch r)) ?r"
    using close_header_text(2) [OF h, of True]
    by (simp add: spans_in_def advance_line_offset_def Let_def)
  have o': "r_line_offset ?r = sat_add u32_max (r_line_offset r) 1"
    by (simp add: advance_line_offset_def Let_def close_header_eqs u32_max_def)
  have "layout_inv start (r_scratch r @ [0x3A]) ?r"
    using c seg_octet [OF c(1)] o'
    by (intro layout_more_text [OF l, where n = 1]) (simp_all add: close_header_eqs)
  then show ?thesis
    using ct si by (simp add: line_read_def layout_inv_def close_header_eqs)
qed

lemma scan_header_line:
  assumes "scan_header r = (Inr (), r')" "layout_inv start (r_scratch r) r" "header_inv r"
  shows "line_read start r'"
  using assms
proof (induction r arbitrary: r' rule: scan_header.induct)
  case (1 r)
  note scan = 1(3) and lay = 1(4) and hdr = 1(5)
  show ?case
  proof (cases "length (r_input r) \<le> r_cursor r")
    case True
    then have "r' = (close_header r False)\<lparr>r_ending := None\<rparr>"
      using scan by (simp add: scan_header.simps [of r])
    also have "\<dots> = (close_header r False)\<lparr>r_ending := None,
        r_cursor := r_cursor (close_header r False) + 0\<rparr>" by simp
    finally have "r' = (close_header r False)\<lparr>r_ending := None, r_cursor := r_cursor r + 0\<rparr>"
      by (simp only: close_header_eqs)
    then show ?thesis
      using line_read_ended [OF lay hdr, of 0 None] lay True by (simp add: layout_inv_def)
  next
    case False
    then have c: "r_cursor r < length (r_input r)" by simp
    show ?thesis
    proof (cases "terminator_at (r_input r) (r_cursor r)")
      case None
      show ?thesis
      proof (cases "r_input r ! r_cursor r = 0x3A \<and> r_header_state r \<noteq> HQuoted")
        case True
        then have "r' = advance_line_offset ((close_header r True)\<lparr>r_cursor := r_cursor r + 1\<rparr>) 1"
          using scan None False by (auto simp: scan_header.simps [of r] close_header_eqs Let_def)
        then show ?thesis using line_read_separated [OF lay hdr c] True by simp
      next
        case plain: False
        obtain y r1 where a: "append_header_octet r (r_input r ! r_cursor r) = (y, r1)" by fastforce
        let ?r1 = "r1\<lparr>r_cursor := r_cursor r1 + 1\<rparr>"
        have s: "scan_header ?r1 = (Inr (), r')" and y: "y = Inr ()"
          using scan None False plain a
          by (auto simp: scan_header.simps [of r] Let_def split: sum.splits)
        note ap = append_header_inv [OF hdr a [unfolded y]]
        have pos: "r_input r1 = r_input r" "r_cursor r1 = r_cursor r" "r_folds r1 = r_folds r"
          using append_header_frame(1,2,4) [of r "r_input r ! r_cursor r"] a by simp_all
        have "layout_inv start (r_scratch r @ [r_input r ! r_cursor r]) ?r1"
          using ap pos seg_octet [OF c] c
          by (intro layout_more_text [OF lay, where n = 1]) simp_all
        moreover have "header_inv ?r1" using ap by (subst header_inv_cong [of _ r1]) simp_all
        ultimately show ?thesis
          using 1(1) [OF False refl None plain a [symmetric] y s] ap by simp
      qed
    next
      case (Some t)
      obtain nl w where t: "terminator_at (r_input r) (r_cursor r) = Some (nl, w)"
        using Some by (cases t) auto
      obtain y r1 where a: "take_fold r nl w = (y, r1)" by fastforce
      then obtain taken where y: "y = Inr taken"
        using scan False t by (cases y) (auto simp: scan_header.simps [of r] Let_def)
      show ?thesis
      proof (cases taken)
        case True
        then have s: "scan_header r1 = (Inr (), r')"
          using scan t False a y by (auto simp: scan_header.simps [of r] Let_def)
        have "\<not> \<not> taken" using True by simp
        then show ?thesis
          using 1(2) [OF False refl t refl a [symmetric] y _ s] layout_take_fold [OF lay t]
            header_inv_take_fold [OF a] hdr a y True by simp
      next
        case no: False
        then have "r1 = r" using a y by (auto simp: take_fold_def Let_def split: if_splits)
        then have "r' = (close_header r False)\<lparr>r_ending := Some nl, r_cursor := r_cursor r + w\<rparr>"
          using scan t False a y no by (simp add: scan_header.simps [of r] Let_def close_header_eqs)
        then show ?thesis
          using line_read_ended [OF lay hdr, of w "Some nl"] terminator_seg [OF t] by simp
      qed
    qed
  qed
qed

subsection \<open>The token sequence\<close>

definition reading_inv :: "octets \<Rightarrow> reader \<Rightarrow> token list \<Rightarrow> bool" where
  "reading_inv input r toks \<longleftrightarrow>
     r_input r = input \<and> length input \<le> u32_max
   \<and> (case foldl render_step ([], [], []) toks of (written, h, v) \<Rightarrow>
       case r_stage r of
         LineStart \<Rightarrow> written = take (r_cursor r) input \<and> r_cursor r \<le> length input
           \<and> (tidy toks = Some Between \<or> tidy toks = Some Closed \<and> r_cursor r = length input)
       | Done \<Rightarrow> written = input \<and> tidy toks \<in> {Some Between, Some Closed}
       | SName \<Rightarrow> tidy toks = Some Between \<and> (\<exists>start. written = take start input \<and> line_read start r)
       | SParameter i \<Rightarrow> tidy toks = Some (Within (length h + length v))
           \<and> (\<exists>start. written = take start input \<and> line_read start r \<and> v = []
             \<and> h = slice_or_empty (r_scratch r) 0 (r_name_end r)
                   @ concat (map (span_text (r_scratch r)) (take i (r_parameters r))))
       | SValue \<Rightarrow> tidy toks = Some (Within (length h + length v))
           \<and> (\<exists>start. written = take start input \<and> r_has_separator r
             \<and> layout_inv start (h @ 0x3A # v) r)
       | Ending \<Rightarrow> tidy toks = Some (Within (length h + length v))
           \<and> line_bounded (length h + length v + (if r_has_separator r then 1 else 0)) r
           \<and> (\<exists>start. written = take start input \<and> start \<le> r_cursor r \<and> r_cursor r \<le> length input
             \<and> seg input start (r_cursor r)
                 = weave 0 (h @ (if r_has_separator r then [0x3A] else []) @ v) (r_folds r)
                     @ ending_bytes (r_ending r)))"

lemma line_read_stage [simp]: "line_read start (r\<lparr>r_stage := st\<rparr>) = line_read start r"
  by (simp add: line_read_def line_bounded_def closed_text_def layout_inv_def spans_in_def)

lemma line_bounded_stage [simp]: "line_bounded n (r\<lparr>r_stage := st\<rparr>) = line_bounded n r"
  by (simp add: line_bounded_def)

lemma layout_inv_stage [simp]: "layout_inv start x (r\<lparr>r_stage := st\<rparr>) = layout_inv start x r"
  by (simp add: layout_inv_def)

text \<open>The two silent moves of the reader: onto a line, and past its last parameter.\<close>

lemma reading_start_line:
  assumes inv: "reading_inv input r toks" and st: "r_stage r = LineStart"
    and s: "start_line r = (Some (Inr ()), r')"
  shows "reading_inv input r' toks" "r_stage r' = SName"
proof -
  obtain r0 where h: "scan_header (begin_line r) = (Inr (), r0)" and r': "r' = r0\<lparr>r_stage := SName\<rparr>"
    and c: "r_cursor r \<noteq> length (r_input r)"
    using s by (auto simp: start_line_def split: if_splits prod.splits sum.splits)
  have "layout_inv (r_cursor r) (r_scratch (begin_line r)) (begin_line r)"
    using inv st by (auto simp: reading_inv_def layout_inv_def begin_line_def split: prod.splits)
  from scan_header_line [OF h this header_inv_begin]
  show "reading_inv input r' toks" "r_stage r' = SName"
    using inv st c scan_header_progress [OF h]
    by (auto simp: reading_inv_def r' begin_line_def split: prod.splits)
qed

lemma reading_past_parameters:
  assumes inv: "reading_inv input r toks" and st: "r_stage r = SParameter i"
    and i: "length (r_parameters r) \<le> i"
  shows "reading_inv input (r\<lparr>r_stage := (if r_has_separator r then SValue else Ending)\<rparr>) toks"
proof -
  obtain w h v where f: "foldl render_step ([], [], []) toks = (w, h, v)" by (metis prod_cases3)
  obtain start where *: "w = take start input" "line_read start r" "v = []"
    "h = slice_or_empty (r_scratch r) 0 (r_name_end r) @ concat (map (span_text (r_scratch r)) (r_parameters r))"
    "r_input r = input" "length input \<le> u32_max" "tidy toks = Some (Within (length h + length v))"
    using inv st i f by (auto simp: reading_inv_def)
  then have "h = r_scratch r" by (simp add: line_read_def closed_text_def)
  then show ?thesis
    using * f by (auto simp: reading_inv_def line_read_def intro!: exI [of _ start])
qed

lemma reading_value:
  assumes inv: "reading_inv input r toks" and st: "r_stage r = SValue"
    and a: "next_value_chunk r = (Inr em, r')"
  shows "reading_inv input r' (toks @ [materialize r' em])"
proof -
  obtain w h v where f: "foldl render_step ([], [], []) toks = (w, h, v)" by (metis prod_cases3)
  obtain start where *: "w = take start input" "r_has_separator r" "layout_inv start (h @ 0x3A # v) r"
    "r_input r = input" "length input \<le> u32_max" "tidy toks = Some (Within (length h + length v))"
    using inv st f by (auto simp: reading_inv_def)
  define n where "n = length (takeWhile (\<lambda>c. \<not> (c = 0x0D \<or> c = 0x0A)) (drop (r_cursor r) (r_input r)))"
  define e where "e = r_cursor r + n"
  define r2 where "r2 = advance_line_offset (r\<lparr>r_cursor := e\<rparr>) n"
  have le: "e \<le> length input"
    using length_takeWhile_le [of "\<lambda>c. \<not> (c = 0x0D \<or> c = 0x0A)" "drop (r_cursor r) (r_input r)"] *(3,4)
    by (auto simp: e_def n_def layout_inv_def)
  define y where "y = seg input (r_cursor r) e"
  have "min n u32_max = n" using le *(5) by (simp add: e_def)
  then have r2: "r_input r2 = input" "r_folds r2 = r_folds r" "r_cursor r2 = e" "r_stage r2 = SValue"
    "r_has_separator r2" "r_line_offset r2 = sat_add u32_max (r_line_offset r) n"
    using * st by (simp_all add: r2_def) (simp_all add: advance_line_offset_def Let_def min_def)
  have lay: "layout_inv start (h @ 0x3A # v @ y) r2"
    using layout_more_text [OF *(3), of r2 n y] r2 * le by (simp add: e_def y_def)
  have chunk: "slice_or_empty input (r_cursor r) e = y"
    using le by (simp add: y_def seg_def slice_or_empty_def e_def)
  have eq: "next_value_chunk r =
      (case terminator_at (r_input r2) e of
           None \<Rightarrow> (Inr (EValue (r_cursor r) e False), r2\<lparr>r_ending := None, r_stage := Ending\<rparr>)
         | Some (newline, width) \<Rightarrow>
             (case take_fold r2 newline width of
                (Inl e, r3) \<Rightarrow> (Inl e, r3)
              | (Inr taken, r3) \<Rightarrow>
                  if taken then (Inr (EValue (r_cursor r) e True), r3)
                  else (Inr (EValue (r_cursor r) e False),
                        r3\<lparr>r_ending := Some newline, r_cursor := e + width, r_stage := Ending\<rparr>)))"
    unfolding next_value_chunk_def scan_to_break_def Let_def split_beta fst_conv snd_conv r2_def e_def n_def
      add_diff_cancel_left'
    by simp
  have go: "foldl render_step ([], [], []) (toks @ [TValue y m]) = (w, h, v @ y)" for m
    using f by simp
  show ?thesis
  proof (cases "terminator_at (r_input r2) e")
    case None
    then have em: "em = EValue (r_cursor r) e False" "r' = r2\<lparr>r_ending := None, r_stage := Ending\<rparr>"
      using a unfolding eq by auto
    have none_end: "e = length input"
    proof (rule ccontr)
      assume "e \<noteq> length input"
      then have "e < length input" using le by simp
      moreover have "input ! e = 0x0D \<or> input ! e = 0x0A"
        using nth_length_takeWhile [of "\<lambda>c. \<not> (c = 0x0D \<or> c = 0x0A)" "drop (r_cursor r) input"]
          calculation *(4) by (auto simp: e_def n_def)
      ultimately show False using None r2 by (auto simp: terminator_at_def split: if_splits)
    qed
    show ?thesis
      using em go * lay r2 chunk le none_end
      by (auto simp: reading_inv_def layout_inv_def line_bounded_def intro!: exI [of _ start])
  next
    case (Some t)
    then obtain nl wd where t: "terminator_at (r_input r2) e = Some (nl, wd)" by (cases t) auto
    obtain z r3 where tf: "take_fold r2 nl wd = (z, r3)" by fastforce
    then obtain b where z: "z = Inr b" using a t unfolding eq by (cases z) auto
    show ?thesis
    proof (cases b)
      case True
      then have em: "em = EValue (r_cursor r) e True" "r' = r3" using a t tf z unfolding eq by auto
      have "layout_inv start (h @ 0x3A # v @ y) r3"
        using layout_take_fold [OF lay] t tf z True r2 by simp
      moreover have "r_input r3 = input" "r_stage r3 = SValue" "r_has_separator r3"
        using tf r2 by (auto simp: take_fold_def Let_def split: if_splits)
      ultimately show ?thesis
        using go * chunk em by (auto simp: reading_inv_def intro!: exI [of _ start])
    next
      case False
      then have "r3 = r2" using tf z by (auto simp: take_fold_def Let_def split: if_splits)
      then have em: "em = EValue (r_cursor r) e False"
        "r' = r2\<lparr>r_ending := Some nl, r_cursor := e + wd, r_stage := Ending\<rparr>"
        using a t tf z False unfolding eq by auto
      have "seg input start (e + wd) = weave 0 (h @ 0x3A # v @ y) (r_folds r2) @ ending_as_bytes nl"
        using seg_append [of start e "e + wd" input] terminator_seg [OF t] lay r2
        by (simp add: layout_inv_def)
      then show ?thesis
        using go * lay r2 chunk em terminator_seg [OF t]
        by (auto simp: reading_inv_def layout_inv_def line_bounded_def intro!: exI [of _ start])
    qed
  qed
qed

lemma reading_named:
  assumes "reading_inv input r toks" "r_stage r = SName"
  shows "reading_inv input (r\<lparr>r_stage := SParameter 0\<rparr>) (toks @ [materialize (r\<lparr>r_stage := SParameter 0\<rparr>) EName])"
  using assms by (auto simp: reading_inv_def header_slice_def split: prod.splits)

lemma line_read_valueless:
  "line_read start r \<Longrightarrow> i < length (r_parameters r) \<Longrightarrow> \<not> ps_has_value (r_parameters r ! i) \<Longrightarrow>
     slice_or_empty (r_scratch r) (ps_value_start (r_parameters r ! i)) (ps_value_end (r_parameters r ! i)) = []"
  by (auto simp: line_read_def spans_in_def span_in_def list_all_length slice_or_empty_def)

lemma reading_parameter:
  assumes "reading_inv input r toks" "r_stage r = SParameter i" "i < length (r_parameters r)"
  shows "reading_inv input (r\<lparr>r_stage := SParameter (i + 1)\<rparr>)
    (toks @ [materialize (r\<lparr>r_stage := SParameter (i + 1)\<rparr>) (EParameter i)])"
  using assms line_read_valueless
  by (auto simp: reading_inv_def header_slice_def parameter_token_def Let_def span_text_def
      take_Suc_conv_app_nth split: prod.splits)

lemma reading_ended:
  assumes "reading_inv input r toks" "r_stage r = Ending"
  shows "reading_inv input (r\<lparr>r_stage := LineStart\<rparr>)
    (toks @ [materialize (r\<lparr>r_stage := LineStart\<rparr>) EEndOfLine])"
proof -
  obtain w h v where f: "foldl render_step ([], [], []) toks = (w, h, v)" by (metis prod_cases3)
  obtain start where *: "w = take start input" "start \<le> r_cursor r" "r_cursor r \<le> length input"
    "seg input start (r_cursor r)
       = weave 0 (h @ (if r_has_separator r then [0x3A] else []) @ v) (r_folds r) @ ending_bytes (r_ending r)"
    "r_input r = input" "length input \<le> u32_max" "tidy toks = Some (Within (length h + length v))"
    "line_bounded (length h + length v + (if r_has_separator r then 1 else 0)) r"
    using assms f by (auto simp: reading_inv_def)
  have "take start input @ weave 0 (h @ (if r_has_separator r then [0x3A] else []) @ v) (r_folds r)
      @ ending_bytes (r_ending r) = take (r_cursor r) input"
    using take_seg [OF *(2), of input] *(4) by simp
  then show ?thesis using f *
    by (cases "r_ending r") (auto simp: reading_inv_def line_bounded_def split del: if_split)
qed

lemma reading_next:
  assumes inv: "reading_inv input r toks" and n: "next_token r = (Some (Inr t), r')"
  shows "reading_inv input r' (toks @ [t])"
proof -
  obtain em where a: "advance r = (Some (Inr em), r')" and t: "t = materialize r' em"
    using n by (auto simp: next_token_advance)
  have visible: "reading_inv input q' (toks @ [materialize q' em'])"
    if "advance q = (Some (Inr em'), q')" "reading_inv input q toks" "r_stage q \<noteq> LineStart"
      "\<forall>i. r_stage q = SParameter i \<longrightarrow> i < length (r_parameters q)" for q q' em'
  proof (cases "r_stage q")
    case SValue
    then have "next_value_chunk q = (Inr em', q')"
      using that(1) by (auto simp: advance_value split: prod.splits sum.splits)
    then show ?thesis by (rule reading_value [OF that(2) SValue])
  next
    case SName
    then show ?thesis using that reading_named by (auto simp: advance.simps [of q])
  next
    case (SParameter i)
    then show ?thesis using that reading_parameter [of input q toks i]
      by (auto simp: advance.simps [of q])
  next
    case Ending
    then show ?thesis using that reading_ended by (auto simp: advance.simps [of q])
  qed (use that in \<open>simp_all add: advance.simps [of q]\<close>)
  show ?thesis
  proof (cases "r_stage r")
    case LineStart
    then obtain r1 where s: "start_line r = (Some (Inr ()), r1)" and a1: "advance r1 = (Some (Inr em), r')"
      using a by (auto simp: advance.simps [of r] split: prod.splits option.splits sum.splits)
    show ?thesis unfolding t
      using reading_start_line [OF inv LineStart s] by (intro visible [OF a1]) simp_all
  next
    case (SParameter i)
    show ?thesis
    proof (cases "i < length (r_parameters r)")
      case True
      then show ?thesis unfolding t using SParameter by (intro visible [OF a inv]) simp_all
    next
      case False
      let ?q = "r\<lparr>r_stage := (if r_has_separator r then SValue else Ending)\<rparr>"
      have "advance ?q = (Some (Inr em), r')" using a SParameter False by (simp add: advance.simps [of r])
      then show ?thesis unfolding t
        using reading_past_parameters [OF inv SParameter] False by (intro visible [of ?q]) simp_all
    qed
  qed (unfold t, (intro visible [OF a inv], simp_all)+)
qed

lemma reading_end:
  assumes "reading_inv input r toks" "fst (next_token r) = None"
  shows "tidy toks \<in> {Some Between, Some Closed} \<and> render_tokens toks = input"
proof -
  have n: "fst (advance r) = None" using assms(2) by (simp add: next_token_advance)
  obtain w h v where f: "foldl render_step ([], [], []) toks = (w, h, v)" by (metis prod_cases3)
  have never: "fst (advance q) \<noteq> None" if "r_stage q \<noteq> LineStart" "r_stage q \<noteq> Done"
    "\<forall>i. r_stage q = SParameter i \<longrightarrow> i < length (r_parameters q)" for q
    using that by (cases "r_stage q") (auto simp: advance.simps [of q] split: sum.splits prod.splits)
  have "r_stage r = Done \<or> (r_stage r = LineStart \<and> length (r_input r) \<le> r_cursor r)"
  proof (cases "r_stage r")
    case LineStart
    show ?thesis
    proof (rule ccontr)
      assume "\<not> ?thesis"
      then have c: "\<not> length (r_input r) \<le> r_cursor r" using LineStart by simp
      then obtain r0 where "start_line r = (Some (Inr ()), r0\<lparr>r_stage := SName\<rparr>)"
        using n LineStart by (auto simp: advance.simps [of r] start_line_def split: prod.splits sum.splits)
      then show False
        using n LineStart never [of "r0\<lparr>r_stage := SName\<rparr>"] by (simp add: advance.simps [of r])
    qed
  next
    case (SParameter i)
    have "fst (advance (r\<lparr>r_stage := (if r_has_separator r then SValue else Ending)\<rparr>)) \<noteq> None"
      by (rule never) simp_all
    then have "fst (advance r) \<noteq> None"
      using never [of r] SParameter
      by (cases "i < length (r_parameters r)") (simp_all add: advance.simps [of r])
    then show ?thesis using n by simp
  qed (use n never [of r] in simp_all)
  then show ?thesis using assms(1) f by (auto simp: reading_inv_def render_tokens_def)
qed

text \<open>The octets accounted for never exceed the input.\<close>

lemma line_read_room:
  assumes "line_read start r"
  shows "start + length (r_scratch r) \<le> r_cursor r"
proof (cases "r_has_separator r")
  case True
  then show ?thesis using assms layout_text_bound [of start "r_scratch r @ [0x3A]" r]
    by (auto simp: line_read_def layout_inv_def)
next
  case False
  then have "length (seg (r_input r) start (r_cursor r))
      = length (weave 0 (r_scratch r) (r_folds r)) + length (ending_bytes (r_ending r))"
    using assms by (simp add: line_read_def)
  moreover have "length (seg (r_input r) start (r_cursor r)) \<le> r_cursor r - start" by (simp add: seg_def)
  moreover have "start \<le> r_cursor r" using assms by (simp add: line_read_def)
  ultimately show ?thesis using length_weave [of "r_scratch r" "r_folds r" 0] by linarith
qed

lemma reading_room:
  assumes "reading_inv input r toks"
  shows "rendered_len toks \<le> length input"
proof -
  obtain w h v where f: "foldl render_step ([], [], []) toks = (w, h, v)" by (metis prod_cases3)
  show ?thesis
  proof (cases "r_stage r")
    case (SParameter i)
    then obtain start where *: "w = take start input" "line_read start r" "v = []"
      "h = slice_or_empty (r_scratch r) 0 (r_name_end r) @ concat (map (span_text (r_scratch r)) (take i (r_parameters r)))"
      "tidy toks = Some (Within (length h + length v))" "r_input r = input"
      using assms f by (auto simp: reading_inv_def)
    have "length h \<le> length (closed_text r)"
      unfolding *(4) closed_text_def
      by (subst (2) append_take_drop_id [of i, symmetric]) (simp add: take_map drop_map)
    then have "length h \<le> length (r_scratch r)" using *(2) by (simp add: line_read_def)
    then show ?thesis
      using line_read_room [OF *(2)] * f by (auto simp: rendered_len_def line_read_def)
  next
    case SValue
    then obtain start where *: "w = take start input" "layout_inv start (h @ 0x3A # v) r"
      "tidy toks = Some (Within (length h + length v))" "r_input r = input"
      using assms f by (auto simp: reading_inv_def)
    then show ?thesis
      using layout_text_bound [OF *(2)] f by (auto simp: rendered_len_def layout_inv_def)
  next
    case Ending
    then obtain start where *: "w = take start input" "start \<le> r_cursor r" "r_cursor r \<le> length input"
      "seg input start (r_cursor r)
         = weave 0 (h @ (if r_has_separator r then [0x3A] else []) @ v) (r_folds r) @ ending_bytes (r_ending r)"
      "tidy toks = Some (Within (length h + length v))"
      using assms f by (auto simp: reading_inv_def)
    have "length (seg input start (r_cursor r)) \<le> r_cursor r - start" by (simp add: seg_def)
    then show ?thesis
      using length_weave [of "h @ (if r_has_separator r then [0x3A] else []) @ v" "r_folds r" 0] * f
      by (auto simp: rendered_len_def split: if_splits)
  qed (use assms f in \<open>auto simp: reading_inv_def rendered_len_def\<close>)
qed

section \<open>The reader fails only at a bound\<close>

definition bound_error :: "grammar_limits \<Rightarrow> nat \<Rightarrow> parse_error \<Rightarrow> bool" where
  "bound_error lim n e \<longleftrightarrow>
     (e = HeaderTooLarge (gl_header_bytes lim) \<and> gl_header_bytes lim < n)
   \<or> (e = TooManyParameters (gl_parameters lim) \<and> gl_parameters lim < n)
   \<or> (e = TooManyFolds (gl_folds_per_line lim) \<and> gl_folds_per_line lim < n)"

lemma take_fold_bound:
  assumes lay: "layout_inv start x r" and t: "terminator_at (r_input r) (r_cursor r) = Some (nl, w)"
    and f: "take_fold r nl w = (Inl e, r')"
  shows "bound_error (r_limits r) (length (r_input r)) e"
proof -
  have e: "e = TooManyFolds (gl_folds_per_line (r_limits r))"
    "\<not> (length (r_folds r) \<le> u32_max \<and> length (r_folds r) < gl_folds_per_line (r_limits r))"
    using f by (auto simp: take_fold_def Let_def split: if_splits)
  have "length (r_folds r) \<le> r_cursor r" using layout_text_bound [OF lay] by linarith
  moreover have "r_cursor r < length (r_input r)" "length (r_input r) \<le> u32_max"
    using terminator_at_width [OF t] lay by (simp_all add: layout_inv_def)
  ultimately show ?thesis using e unfolding bound_error_def by linarith
qed

lemma length_closed_text: "length (r_parameters r) \<le> length (closed_text r)"
proof -
  have "length ps \<le> length (concat (map (span_text s) ps))" for s ps
    by (induction ps) (simp_all add: span_text_def)
  from this [of "r_parameters r" "r_scratch r"] show ?thesis by (simp add: closed_text_def)
qed

lemma append_header_bound:
  assumes lay: "layout_inv start (r_scratch r) r" and hdr: "header_inv r"
    and c: "r_cursor r < length (r_input r)" and a: "append_header_octet r c = (Inl e, r')"
  shows "bound_error (r_limits r) (length (r_input r)) e"
proof -
  let ?s = "r_scratch r"
  have s: "length ?s < length (r_input r)" "length (r_input r) \<le> u32_max"
    using layout_text_bound [OF lay] lay c by (simp_all add: layout_inv_def)
  define q where "q = advance_line_offset (r\<lparr>r_scratch := ?s @ [c]\<rparr>) 1"
  consider "e = HeaderTooLarge (gl_header_bytes (r_limits r))" "\<not> length ?s < gl_header_bytes (r_limits r)"
    | "step_header_state q c (length ?s) = (Inl e, r')"
    using a s by (auto simp: append_header_octet_def Let_def q_def split: if_splits)
  then show ?thesis
  proof cases
    case 1
    then show ?thesis using s by (simp add: bound_error_def)
  next
    case 2
    let ?p = "close_pending (r\<lparr>r_scratch := ?s @ [0x3B]\<rparr>) (length ?s)"
    have "c = 0x3B" and o': "open_parameter q (length ?s) = (Inl e, r')"
      using 2 by (auto simp: step_header_state_def split: if_splits)
    have "length (r_parameters (close_pending q (length ?s))) = length (r_parameters ?p)"
      by (simp add: q_def close_pending_def Let_def split: option.splits)
    also have "\<dots> \<le> length ?s"
      using length_closed_text [of ?p] close_pending_text(1) [OF hdr refl, of "[0x3B]"] by simp
    finally show ?thesis
      using o' s by (auto simp: open_parameter_def Let_def bound_error_def q_def split: if_splits)
  qed
qed

lemma scan_header_bound:
  assumes "scan_header r = (Inl e, r')" "layout_inv start (r_scratch r) r" "header_inv r"
  shows "bound_error (r_limits r) (length (r_input r)) e"
  using assms
proof (induction r arbitrary: r' rule: scan_header.induct)
  case (1 r)
  note scan = 1(3) and lay = 1(4) and hdr = 1(5)
  have c: "r_cursor r < length (r_input r)"
    using scan by (simp add: scan_header.simps [of r] split: if_splits)
  then have False': "\<not> length (r_input r) \<le> r_cursor r" by simp
  show ?case
  proof (cases "terminator_at (r_input r) (r_cursor r)")
    case None
    have plain: "\<not> (r_input r ! r_cursor r = 0x3A \<and> r_header_state r \<noteq> HQuoted)"
      using scan None False' by (auto simp: scan_header.simps [of r] Let_def split: if_splits)
    obtain y r1 where a: "append_header_octet r (r_input r ! r_cursor r) = (y, r1)" by fastforce
    show ?thesis
    proof (cases y)
      case (Inl e')
      then have "e' = e" using scan None False' plain a by (auto simp: scan_header.simps [of r] Let_def)
      then show ?thesis using append_header_bound [OF lay hdr c] a Inl by simp
    next
      case (Inr u)
      let ?r1 = "r1\<lparr>r_cursor := r_cursor r1 + 1\<rparr>"
      have s: "scan_header ?r1 = (Inl e, r')"
        using scan None False' plain a Inr by (auto simp: scan_header.simps [of r] Let_def)
      note ap = append_header_inv [OF hdr a [unfolded Inr unit_eq [of u]]]
      have pos: "r_input r1 = r_input r" "r_cursor r1 = r_cursor r" "r_folds r1 = r_folds r"
        "r_limits r1 = r_limits r"
        using append_header_frame(1,2,3,4) [of r "r_input r ! r_cursor r"] a by simp_all
      have "layout_inv start (r_scratch r @ [r_input r ! r_cursor r]) ?r1"
        using ap pos seg_octet [OF c] c by (intro layout_more_text [OF lay, where n = 1]) simp_all
      moreover have "header_inv ?r1" using ap by (subst header_inv_cong [of _ r1]) simp_all
      ultimately show ?thesis
        using 1(1) [OF False' refl None plain a [symmetric] Inr s] ap pos by simp
    qed
  next
    case (Some t)
    obtain nl w where t: "terminator_at (r_input r) (r_cursor r) = Some (nl, w)"
      using Some by (cases t) auto
    obtain y r1 where a: "take_fold r nl w = (y, r1)" by fastforce
    show ?thesis
    proof (cases y)
      case (Inl e')
      then have "e' = e" using scan t False' a by (auto simp: scan_header.simps [of r] Let_def)
      then show ?thesis using take_fold_bound [OF lay t] a Inl by simp
    next
      case (Inr taken)
      then have tk: "taken" and s: "scan_header r1 = (Inl e, r')"
        using scan t False' a by (auto simp: scan_header.simps [of r] Let_def split: if_splits)
      have "\<not> \<not> taken" using tk by simp
      moreover have "r_limits r1 = r_limits r" "r_input r1 = r_input r"
        using a by (auto simp: take_fold_def Let_def split: if_splits)
      ultimately show ?thesis
        using 1(2) [OF False' refl t refl a [symmetric] Inr _ s] layout_take_fold [OF lay t]
          header_inv_take_fold [OF a] hdr lay a Inr tk by simp
    qed
  qed
qed

lemma scan_header_limits: "scan_header r = (x, r') \<Longrightarrow> r_limits r' = r_limits r"
proof (induction r arbitrary: x r' rule: scan_header.induct)
  case (1 r)
  have cl: "r_limits (close_header q b) = r_limits q" for q b by (simp add: close_header_def Let_def)
  have tf: "r_limits (snd (take_fold q nl w)) = r_limits q" for q nl w by (simp add: take_fold_def Let_def)
  show ?case
  proof (cases "length (r_input r) \<le> r_cursor r")
    case True
    then show ?thesis using 1(3) by (auto simp: scan_header.simps [of r] cl)
  next
    case False
    show ?thesis
    proof (cases "terminator_at (r_input r) (r_cursor r)")
      case None
      obtain y r1 where a: "append_header_octet r (r_input r ! r_cursor r) = (y, r1)" by fastforce
      have l: "r_limits r1 = r_limits r"
        using append_header_frame(3) [of r "r_input r ! r_cursor r"] a by simp
      show ?thesis
      proof (cases "r_input r ! r_cursor r = 0x3A \<and> r_header_state r \<noteq> HQuoted")
        case True
        then show ?thesis using 1(3) None False by (auto simp: scan_header.simps [of r] cl Let_def)
      next
        case plain: False
        show ?thesis
        proof (cases y)
          case (Inl e)
          then show ?thesis
            using 1(3) None False plain a l by (auto simp: scan_header.simps [of r] Let_def)
        next
          case (Inr u)
          then have "scan_header (r1\<lparr>r_cursor := r_cursor r1 + 1\<rparr>) = (x, r')"
            using 1(3) None False plain a by (auto simp: scan_header.simps [of r] Let_def)
          from 1(1) [OF False refl None plain a [symmetric] Inr this] show ?thesis using l by simp
        qed
      qed
    next
      case (Some t)
      obtain nl w where t: "terminator_at (r_input r) (r_cursor r) = Some (nl, w)"
        using Some by (cases t) auto
      obtain y r1 where a: "take_fold r nl w = (y, r1)" by fastforce
      have l: "r_limits r1 = r_limits r" using tf [of r nl w] a by simp
      show ?thesis
      proof (cases y)
        case (Inl e)
        then show ?thesis using 1(3) t False a l by (auto simp: scan_header.simps [of r] Let_def)
      next
        case (Inr taken)
        show ?thesis
        proof (cases taken)
          case True
          then have "scan_header r1 = (x, r')"
            using 1(3) t False a Inr by (auto simp: scan_header.simps [of r] Let_def)
          moreover have "\<not> \<not> taken" using True by simp
          ultimately show ?thesis
            using 1(2) [OF False refl t refl a [symmetric] Inr, of x r'] l by simp
        next
          case no: False
          then show ?thesis
            using 1(3) t False a Inr l by (auto simp: scan_header.simps [of r] cl Let_def)
        qed
      qed
    qed
  qed
qed

lemma next_value_chunk_limits: "next_value_chunk r = (x, r') \<Longrightarrow> r_limits r' = r_limits r"
proof -
  have tf: "r_limits q' = r_limits q" if "take_fold q nl w = (y, q')" for q nl w y q'
    using that by (auto simp: take_fold_def Let_def split: if_splits)
  assume "next_value_chunk r = (x, r')"
  then show ?thesis
    by (auto simp: next_value_chunk_def scan_to_break_def Let_def dest!: tf
        split: option.splits prod.splits sum.splits if_splits)
qed

lemma advance_limits: "advance r = (x, r') \<Longrightarrow> r_limits r' = r_limits r"
proof (induction r arbitrary: x r' rule: advance.induct)
  case (1 r)
  show ?case
  proof (cases "r_stage r")
    case LineStart
    obtain y r1 where s: "start_line r = (y, r1)" by fastforce
    have l: "r_limits r1 = r_limits r"
      using s scan_header_limits [of "begin_line r"]
      by (auto simp: start_line_def begin_line_def split: if_splits prod.splits sum.splits)
    show ?thesis
    proof (cases y)
      case None
      then show ?thesis using 1(3) LineStart s l by (simp add: advance.simps [of r])
    next
      case (Some z)
      then show ?thesis
        using 1(3) LineStart s l 1(1) [OF LineStart s [symmetric] Some]
        by (cases z) (auto simp: advance.simps [of r])
    qed
  next
    case (SParameter i)
    then show ?thesis
      using 1(3) 1(2) [OF SParameter]
      by (cases "i < length (r_parameters r)") (auto simp: advance.simps [of r])
  next
    case SValue
    obtain y r1 where n: "next_value_chunk r = (y, r1)" by fastforce
    then show ?thesis
      using 1(3) SValue next_value_chunk_limits [OF n] by (cases y) (auto simp: advance_value)
  qed (use 1(3) in \<open>auto simp: advance.simps [of r]\<close>)
qed

lemma value_bound:
  assumes inv: "reading_inv input r toks" and st: "r_stage r = SValue"
    and a: "next_value_chunk r = (Inl e, r')"
  shows "bound_error (r_limits r) (length input) e"
proof -
  obtain start x where lay: "layout_inv start x r" and i: "r_input r = input"
    using inv st by (auto simp: reading_inv_def split: prod.splits)
  define n where "n = length (takeWhile (\<lambda>c. \<not> (c = 0x0D \<or> c = 0x0A)) (drop (r_cursor r) (r_input r)))"
  define r2 where "r2 = advance_line_offset (r\<lparr>r_cursor := r_cursor r + n\<rparr>) n"
  have le: "r_cursor r + n \<le> length input" "length input \<le> u32_max"
    using length_takeWhile_le [of "\<lambda>c. \<not> (c = 0x0D \<or> c = 0x0A)" "drop (r_cursor r) (r_input r)"] lay i
    by (auto simp: n_def layout_inv_def)
  have "r_line_offset r2 = sat_add u32_max (r_line_offset r) n"
    using le by (simp add: r2_def advance_line_offset_def Let_def)
  then have l2: "layout_inv start (x @ seg input (r_cursor r) (r_cursor r + n)) r2"
    using layout_more_text [OF lay, of r2 n] le i by (simp add: r2_def)
  obtain nl w r3 where t: "terminator_at (r_input r2) (r_cursor r2) = Some (nl, w)"
    and f: "take_fold r2 nl w = (Inl e, r3)"
    using a by (auto simp: next_value_chunk_def scan_to_break_def Let_def r2_def n_def
        split: option.splits prod.splits sum.splits if_splits)
  show ?thesis using take_fold_bound [OF l2 t f] i by (simp add: r2_def)
qed

lemma reading_bound:
  assumes inv: "reading_inv input r toks" and n: "next_token r = (Some (Inl e), r')"
  shows "bound_error (r_limits r) (length input) e"
proof -
  have a: "advance r = (Some (Inl e), r')"
    using n by (auto simp: next_token_def split: prod.splits option.splits sum.splits)
  have v: "bound_error (r_limits q) (length input) e"
    if "reading_inv input q toks" "r_stage q = SValue" "advance q = (Some (Inl e), r')" for q
    using that value_bound [OF that(1,2)]
    by (auto simp: advance_value split: prod.splits sum.splits)
  show ?thesis
  proof (cases "r_stage r")
    case LineStart
    have "layout_inv (r_cursor r) (r_scratch (begin_line r)) (begin_line r)"
      using inv LineStart by (auto simp: reading_inv_def layout_inv_def begin_line_def split: prod.splits)
    from scan_header_bound [OF _ this header_inv_begin]
    have sb: "bound_error (r_limits r) (length input) e'" if "scan_header (begin_line r) = (Inl e', r0)" for e' r0
      using that inv by (simp add: begin_line_def reading_inv_def split: prod.splits)
    show ?thesis
      using a LineStart sb
      by (auto simp: advance.simps [of r] start_line_def advance.simps [of "x\<lparr>r_stage := SName\<rparr>" for x]
          split: if_splits prod.splits sum.splits)
  next
    case (SParameter i)
    have ge: "length (r_parameters r) \<le> i" using a SParameter
      by (auto simp: advance.simps [of r] split: if_splits)
    let ?q = "r\<lparr>r_stage := (if r_has_separator r then SValue else Ending)\<rparr>"
    have aq: "advance ?q = (Some (Inl e), r')" using a SParameter ge by (simp add: advance.simps [of r])
    have "r_has_separator r"
    proof (rule ccontr)
      assume "\<not> r_has_separator r"
      then show False using aq by (simp add: advance.simps [of "r\<lparr>r_stage := Ending\<rparr>"])
    qed
    then show ?thesis
      using v [of ?q] aq reading_past_parameters [OF inv SParameter ge] by simp
  next
    case SValue
    then show ?thesis using v inv a by blast
  qed (use a in \<open>auto simp: advance.simps [of r]\<close>)
qed

lemma reading_new: "length input \<le> u32_max \<Longrightarrow> reading_inv input (reader_new input lim) []"
  by (simp add: reading_inv_def reader_new_def)

text \<open>The reader keeps the contract of a source of lines, for the input it was given.\<close>

interpretation lossless_reader: line_source next_token reader_order
  "\<lambda>r toks. reading_inv input r toks \<and> r_limits r = limits" input
  for input limits
proof unfold_locales
  show "tidy acc \<noteq> None" if "reading_inv input s acc \<and> r_limits s = limits" for s acc
    using that by (cases "r_stage s") (auto simp: reading_inv_def split: prod.splits)
  show "reading_inv input s' (acc @ [t]) \<and> r_limits s' = limits"
    if "reading_inv input s acc \<and> r_limits s = limits" "next_token s = (Some (Inr t), s')" for s acc t s'
    using that reading_next [of input s acc t s'] advance_limits [of s]
    by (auto simp: next_token_advance)
qed (use reading_end reading_room in blast)+

lemma reading_new_limits:
  "length input \<le> u32_max \<Longrightarrow>
     reading_inv input (reader_new input limits) [] \<and> r_limits (reader_new input limits) = limits"
  using reading_new by (simp add: reader_new_def)

text \<open>What evaluates the reader on a concrete input.\<close>

lemmas lexer_eval =
  lex_def drain.simps next_token_def advance.simps scan_header.simps reader_new_def
  start_line_def begin_line_def append_header_octet_def step_header_state_def step_unquoted_def
  open_parameter_def close_header_def close_pending_def begin_parameter_value_def take_fold_def
  terminator_at_def is_fold_whitespace_def next_value_chunk_def scan_to_break_def
  advance_line_offset_def header_slice_def slice_or_empty_def parameter_token_def span_opening_def
  Let_def u32_max_def sat_add_def

section \<open>Properties\<close>

text \<open>
  C16. The reader always comes to an end, whatever the octets and the limits: pulling tokens
  returns after finitely many, with the tokens and the bound that stopped it if one did.
\<close>

theorem reader_terminates: "\<exists>toks e. lex input limits = Some (toks, e)"
  using line_reader.drain_returns [of "reader_new input limits" "[]"] by (auto simp: lex_def)

text \<open>
  C3. The reader loses nothing: the tokens of an input read to its end, written out with each
  fold at its recorded offset and each terminator as recorded, are the input, octet for octet.
  The input is at most \<open>u32::MAX\<close> octets, the largest a fold offset can address.
\<close>

theorem reader_lossless:
  assumes "length input \<le> u32_max" and "lex input limits = Some (toks, None)"
  shows "render_tokens toks = input"
proof -
  have "drain next_token (reader_new input limits) [] = Some (toks, None)"
    using assms(2) by (simp add: lex_def)
  then show ?thesis by (rule lossless_reader.drain_renders) (rule reading_new_limits [OF assms(1)])
qed

theorem reader_lossless_witness:
  "render_tokens [TName [65], TParameter [80] [113] True, TValue [98] True, TValue [99] False,
      TEndOfLine [\<lparr>fold_offset = 7, fold_tab = False, fold_newline = CrLf\<rparr>] None True]
   = ascii ''A;P=q:b'' @ [0x0D, 0x0A, 0x20] @ ascii ''c''"
proof (rule reader_lossless)
  show "length (ascii ''A;P=q:b'' @ [0x0D, 0x0A, 0x20] @ ascii ''c'') \<le> u32_max"
    by (simp add: u32_max_def)
  show "lex (ascii ''A;P=q:b'' @ [0x0D, 0x0A, 0x20] @ ascii ''c'') GRAMMAR_DEFAULT
    = Some ([TName [65], TParameter [80] [113] True, TValue [98] True, TValue [99] False,
        TEndOfLine [\<lparr>fold_offset = 7, fold_tab = False, fold_newline = CrLf\<rparr>] None True], None)"
    by (simp add: lexer_eval GRAMMAR_DEFAULT_def)
qed

text \<open>
  C14. The reader judges nothing: the only way it stops early is one of the three bounds of its
  limits, reported with that bound, and only for an input longer than the bound; so an input that
  fits every limit is read to its end.
\<close>

theorem reader_stops_at_bounds_only:
  assumes "length input \<le> u32_max" and "lex input limits = Some (toks, Some e)"
  shows "(e = HeaderTooLarge (gl_header_bytes limits) \<and> gl_header_bytes limits < length input)
    \<or> (e = TooManyParameters (gl_parameters limits) \<and> gl_parameters limits < length input)
    \<or> (e = TooManyFolds (gl_folds_per_line limits) \<and> gl_folds_per_line limits < length input)"
proof -
  let ?Q = "\<lambda>r toks. reading_inv input r toks \<and> r_limits r = limits"
  have "drain next_token (reader_new input limits) [] = Some (toks, Some e)"
    using assms(2) by (simp add: lex_def)
  moreover have "?Q (reader_new input limits) []" by (rule reading_new_limits [OF assms(1)])
  moreover have "?Q r' (acc @ [t])" if "?Q r acc" "next_token r = (Some (Inr t), r')" for r t r' acc
    using that by (rule lossless_reader.reads_next)
  ultimately obtain r r' where "?Q r toks" "next_token r = (Some (Inl e), r')"
    using line_reader.drain_stopped [of "reader_new input limits" "[]" toks e ?Q] by blast
  then show ?thesis using reading_bound [of input r toks e r'] by (simp add: bound_error_def)
qed

theorem reader_stops_at_bounds_only_witness:
  "lex (ascii ''AB:'') (GRAMMAR_DEFAULT\<lparr>gl_header_bytes := 1\<rparr>) = Some ([], Some (HeaderTooLarge 1))
    \<and> gl_header_bytes (GRAMMAR_DEFAULT\<lparr>gl_header_bytes := 1\<rparr>) < length (ascii ''AB:'')"
proof -
  have l: "lex (ascii ''AB:'') (GRAMMAR_DEFAULT\<lparr>gl_header_bytes := 1\<rparr>)
      = Some ([], Some (HeaderTooLarge 1))"
    by (simp add: lexer_eval GRAMMAR_DEFAULT_def)
  have "length (ascii ''AB:'') \<le> u32_max" by (simp add: u32_max_def)
  from reader_stops_at_bounds_only [OF this l] l show ?thesis by simp
qed

end
