(* ===== verification/Component_Tree.thy ===== *)
theory Component_Tree
  imports Syntax
begin

text \<open>
  The document of \<open>core/tree.rs\<close>: boundaries, parameters, properties, components and the document
  over them, with \<open>RawText\<close> of \<open>core/octets.rs\<close> as its octets.  The code walks a component with an
  explicit stack wherever a derived trait would recurse; the walks are modelled as the loops they
  are and shown equal to the structural recursion they replace.
\<close>

section \<open>Names\<close>

definition ascii_lower :: "octet \<Rightarrow> octet" where
  "ascii_lower b = (if 0x41 \<le> b \<and> b \<le> 0x5A then b + 0x20 else b)"

definition eq_ignore_ascii_case :: "octets \<Rightarrow> octets \<Rightarrow> bool" where
  "eq_ignore_ascii_case a b \<longleftrightarrow> map ascii_lower a = map ascii_lower b"

definition eq_name :: "octets \<Rightarrow> octets \<Rightarrow> bool" where
  "eq_name text other \<longleftrightarrow> eq_ignore_ascii_case text other"

section \<open>The nodes\<close>

record boundary =
  b_keyword :: octets
  b_name :: octets
  b_layout :: line_layout

definition boundary_terminate_line :: "boundary \<Rightarrow> line_ending \<Rightarrow> bool \<times> boundary" where
  "boundary_terminate_line b e =
     (case terminate_with (b_layout b) e of (added, l) \<Rightarrow> (added, b\<lparr>b_layout := l\<rparr>))"

record parameter =
  pm_name :: octets
  pm_value :: octets
  pm_has_value :: bool

definition parameter_new :: "octets \<Rightarrow> octets \<Rightarrow> parameter" where
  "parameter_new n v = \<lparr>pm_name = n, pm_value = v, pm_has_value = True\<rparr>"

definition parameter_without_value :: "octets \<Rightarrow> parameter" where
  "parameter_without_value n = \<lparr>pm_name = n, pm_value = [], pm_has_value = False\<rparr>"

definition parameter_is_named :: "parameter \<Rightarrow> octets \<Rightarrow> bool" where
  "parameter_is_named p n \<longleftrightarrow> eq_name (pm_name p) n"

record property =
  pr_name :: octets
  pr_parameters :: "parameter list"
  pr_value_text :: octets
  pr_layout :: line_layout

definition property_new :: "octets \<Rightarrow> parameter list \<Rightarrow> octets \<Rightarrow> line_layout \<Rightarrow> property" where
  "property_new n ps v l =
     \<lparr>pr_name = n, pr_parameters = ps, pr_value_text = v, pr_layout = l\<rparr>"

definition parameters_named :: "property \<Rightarrow> octets \<Rightarrow> parameter list" where
  "parameters_named p wanted = filter (\<lambda>entry. parameter_is_named entry wanted) (pr_parameters p)"

definition property_is_named :: "property \<Rightarrow> octets \<Rightarrow> bool" where
  "property_is_named p n \<longleftrightarrow> eq_name (pr_name p) n"

definition set_value_text :: "property \<Rightarrow> octets \<Rightarrow> property" where
  "set_value_text p v = p\<lparr>pr_value_text := v, pr_layout := mark_refolded (pr_layout p)\<rparr>"

definition set_name :: "property \<Rightarrow> octets \<Rightarrow> property" where
  "set_name p n = p\<lparr>pr_name := n, pr_layout := mark_refolded (pr_layout p)\<rparr>"

definition edit_parameters :: "property \<Rightarrow> (parameter list \<Rightarrow> parameter list) \<Rightarrow> property" where
  "edit_parameters p edit =
     (let p' = p\<lparr>pr_layout := mark_refolded (pr_layout p)\<rparr>
      in p'\<lparr>pr_parameters := edit (pr_parameters p')\<rparr>)"

definition property_terminate_line :: "property \<Rightarrow> line_ending \<Rightarrow> bool \<times> property" where
  "property_terminate_line p e =
     (case terminate_with (pr_layout p) e of (added, l) \<Rightarrow> (added, p\<lparr>pr_layout := l\<rparr>))"

datatype item = IProperty property | IComponent component
and component = Component (c_begin: boundary) (c_items: "item list") (c_end: "boundary option")

record document =
  doc_items :: "item list"

fun as_property :: "item \<Rightarrow> property option" where
  "as_property (IProperty p) = Some p"
| "as_property (IComponent _) = None"

fun as_component :: "item \<Rightarrow> component option" where
  "as_component (IComponent c) = Some c"
| "as_component (IProperty _) = None"

definition component_set_end :: "component \<Rightarrow> boundary option \<Rightarrow> component" where
  "component_set_end c e = Component (c_begin c) (c_items c) e"

definition component_name :: "component \<Rightarrow> octets" where
  "component_name c = b_name (c_begin c)"

definition component_is_named :: "component \<Rightarrow> octets \<Rightarrow> bool" where
  "component_is_named c n \<longleftrightarrow> eq_name (b_name (c_begin c)) n"

definition component_properties :: "component \<Rightarrow> property list" where
  "component_properties c = List.map_filter as_property (c_items c)"

definition component_components :: "component \<Rightarrow> component list" where
  "component_components c = List.map_filter as_component (c_items c)"

definition document_components :: "document \<Rightarrow> component list" where
  "document_components d = List.map_filter as_component (doc_items d)"

section \<open>Walking a component\<close>

datatype walk_step = WBegin boundary | WLine property | WEnd "boundary option"

record open_frame =
  of_rest :: "item list"
  of_end :: "boundary option"

text \<open>The stack is a list whose head is its last element, the innermost component.\<close>

record walk =
  w_open :: "open_frame list"
  w_opening :: "boundary option"

definition walk_over :: "component \<Rightarrow> walk" where
  "walk_over c = \<lparr>w_open = [\<lparr>of_rest = c_items c, of_end = c_end c\<rparr>], w_opening = Some (c_begin c)\<rparr>"

definition walk_next :: "walk \<Rightarrow> walk_step option \<times> walk" where
  "walk_next w =
     (case w_opening w of
        Some b \<Rightarrow> (Some (WBegin b), w\<lparr>w_opening := None\<rparr>)
      | None \<Rightarrow>
          (case w_open w of
             [] \<Rightarrow> (None, w)
           | frame # below \<Rightarrow>
               (case of_rest frame of
                  IProperty p # rest \<Rightarrow>
                    (Some (WLine p), w\<lparr>w_open := frame\<lparr>of_rest := rest\<rparr> # below\<rparr>)
                | IComponent nested # rest \<Rightarrow>
                    (Some (WBegin (c_begin nested)),
                     w\<lparr>w_open := \<lparr>of_rest = c_items nested, of_end = c_end nested\<rparr>
                                   # frame\<lparr>of_rest := rest\<rparr> # below\<rparr>)
                | [] \<Rightarrow> (Some (WEnd (of_end frame)), w\<lparr>w_open := below\<rparr>))))"

text \<open>How much a walk still has to do: one for every node and every open frame.\<close>

fun item_weight :: "item \<Rightarrow> nat" and component_weight :: "component \<Rightarrow> nat" where
  "item_weight (IProperty p) = 1"
| "item_weight (IComponent c) = 1 + component_weight c"
| "component_weight (Component b is e) = 1 + sum_list (map item_weight is)"

definition items_weight :: "item list \<Rightarrow> nat" where
  "items_weight is = sum_list (map item_weight is)"

lemma items_weight_simps [simp]:
  "items_weight [] = 0" "items_weight (i # is) = item_weight i + items_weight is"
  by (simp_all add: items_weight_def)

lemma component_weight_items: "component_weight c = 1 + items_weight (c_items c)"
  by (cases c) (simp add: items_weight_def)

definition walk_weight :: "walk \<Rightarrow> nat" where
  "walk_weight w =
     (if w_opening w = None then 0 else 1)
       + sum_list (map (\<lambda>f. 1 + items_weight (of_rest f)) (w_open w))"

lemma walk_next_descends: "walk_next w = (Some s, w') \<Longrightarrow> walk_weight w' < walk_weight w"
  by (auto simp: walk_next_def walk_weight_def component_weight_items
      split: option.splits list.splits item.splits)

text \<open>Every step of a walk, as the four traits written over it consume them.\<close>

function walk_steps :: "walk \<Rightarrow> walk_step list" where
  "walk_steps w = (case walk_next w of (None, _) \<Rightarrow> [] | (Some s, w') \<Rightarrow> s # walk_steps w')"
  by pat_completeness auto
termination
  by (relation "measure walk_weight") (auto intro: walk_next_descends [OF sym])

declare walk_steps.simps [simp del]

definition component_eq :: "component \<Rightarrow> component \<Rightarrow> bool" where
  "component_eq a b \<longleftrightarrow> walk_steps (walk_over a) = walk_steps (walk_over b)"

text \<open>The structural reading of the same walk.\<close>

fun item_steps :: "item \<Rightarrow> walk_step list" and component_steps :: "component \<Rightarrow> walk_step list" where
  "item_steps (IProperty p) = [WLine p]"
| "item_steps (IComponent c) = component_steps c"
| "component_steps (Component b is e) = WBegin b # concat (map item_steps is) @ [WEnd e]"

definition frames_steps :: "open_frame list \<Rightarrow> walk_step list" where
  "frames_steps fs = concat (map (\<lambda>f. concat (map item_steps (of_rest f)) @ [WEnd (of_end f)]) fs)"

lemma walk_steps_structural:
  "walk_steps w =
     (case w_opening w of None \<Rightarrow> [] | Some b \<Rightarrow> [WBegin b]) @ frames_steps (w_open w)"
proof (induction w rule: walk_steps.induct)
  case (1 w)
  show ?case
  proof (cases "walk_next w")
    case (Pair s w')
    show ?thesis
    proof (cases s)
      case None
      then show ?thesis
        using Pair
        by (auto simp: walk_steps.simps [of w] walk_next_def frames_steps_def
            split: option.splits list.splits item.splits)
    next
      case (Some st)
      then have "walk_steps w = st # walk_steps w'" using Pair by (simp add: walk_steps.simps [of w])
      also have "walk_steps w' = (case w_opening w' of None \<Rightarrow> [] | Some b \<Rightarrow> [WBegin b])
          @ frames_steps (w_open w')"
        using 1 [OF Pair [symmetric]] Some by simp
      finally have eq: "walk_steps w = st # (case w_opening w' of None \<Rightarrow> [] | Some b \<Rightarrow> [WBegin b])
          @ frames_steps (w_open w')" .
      have nested: "component_steps c
          = WBegin (c_begin c) # concat (map item_steps (c_items c)) @ [WEnd (c_end c)]" for c
        by (cases c) simp
      show ?thesis
        unfolding eq using Pair Some
        by (auto simp: walk_next_def frames_steps_def nested
            split: option.splits list.splits item.splits)
    qed
  qed
qed

lemma walk_steps_over: "walk_steps (walk_over c) = component_steps c"
  by (cases c) (simp add: walk_steps_structural walk_over_def frames_steps_def)

text \<open>A sequence of steps determines the tree it came from.\<close>

lemma item_steps_unique:
  "(\<forall>j xs ys. item_steps i @ xs = item_steps j @ ys \<longrightarrow> i = j \<and> xs = ys)"
  "(\<forall>d xs ys. component_steps c @ xs = component_steps d @ ys \<longrightarrow> c = d \<and> xs = ys)"
proof (induction i and c)
  case (IProperty p)
  show ?case
  proof (intro allI impI)
    fix j xs ys assume "item_steps (IProperty p) @ xs = item_steps j @ ys"
    then show "IProperty p = j \<and> xs = ys"
    proof (cases j)
      case (IComponent d)
      then show ?thesis
        using \<open>item_steps (IProperty p) @ xs = _\<close> by (cases d) simp
    qed simp
  qed
next
  case (IComponent c)
  show ?case
  proof (intro allI impI)
    fix j xs ys assume eq: "item_steps (IComponent c) @ xs = item_steps j @ ys"
    show "IComponent c = j \<and> xs = ys"
    proof (cases j)
      case (IProperty p)
      then show ?thesis using eq by (cases c) simp
    next
      case (IComponent d)
      then show ?thesis using eq IComponent.IH by simp
    qed
  qed
next
  case (Component b items e)
  have lists: "items = js \<and> e = e' \<and> xs = ys"
    if "concat (map item_steps items) @ WEnd e # xs = concat (map item_steps js) @ WEnd e' # ys"
    for js e' xs ys
    using that Component.IH
  proof (induction items arbitrary: js)
    case Nil
    show ?case
    proof (cases js)
      case (Cons j js')
      show ?thesis
      proof (cases j)
        case (IComponent d)
        then show ?thesis using Nil Cons by (cases d) simp
      qed (use Nil Cons in simp)
    qed (use Nil in simp)
  next
    case (Cons i items)
    show ?case
    proof (cases js)
      case Nil
      show ?thesis
      proof (cases i)
        case (IComponent d)
        then show ?thesis using Cons.prems(1) Nil by (cases d) simp
      qed (use Cons.prems(1) Nil in simp)
    next
      case js: (Cons j js')
      have u: "\<forall>j xs ys. item_steps i @ xs = item_steps j @ ys \<longrightarrow> i = j \<and> xs = ys"
        by (rule Cons.prems(2)) simp
      from Cons.prems(1) have "item_steps i @ (concat (map item_steps items) @ WEnd e # xs)
          = item_steps j @ (concat (map item_steps js') @ WEnd e' # ys)" by (simp add: js)
      then have "i = j \<and> concat (map item_steps items) @ WEnd e # xs
          = concat (map item_steps js') @ WEnd e' # ys" by (rule u [rule_format])
      then have "i = j" and rest: "concat (map item_steps items) @ WEnd e # xs
          = concat (map item_steps js') @ WEnd e' # ys" by auto
      moreover have "items = js' \<and> e = e' \<and> xs = ys"
        by (rule Cons.IH [OF rest]) (rule Cons.prems(2), simp)
      ultimately show ?thesis using js by simp
    qed
  qed
  show ?case
  proof (intro allI impI)
    fix d xs ys assume eq: "component_steps (Component b items e) @ xs = component_steps d @ ys"
    obtain b' js e' where d: "d = Component b' js e'" by (cases d)
    show "Component b items e = d \<and> xs = ys" using eq lists [of xs js e' ys] by (simp add: d)
  qed
qed

lemma component_steps_inj: "component_steps a = component_steps b \<Longrightarrow> a = b"
  using item_steps_unique(2) [of a] by (metis append_Nil2)

section \<open>Copying a component\<close>

record clone_frame =
  cf_rest :: "item list"
  cf_begin :: boundary
  cf_end :: "boundary option"
  cf_items :: "item list"

definition clone_frame_of :: "component \<Rightarrow> clone_frame" where
  "clone_frame_of source =
     \<lparr>cf_rest = c_items source, cf_begin = c_begin source, cf_end = c_end source, cf_items = []\<rparr>"

definition clone_finish :: "clone_frame \<Rightarrow> component" where
  "clone_finish f = Component (cf_begin f) (cf_items f) (cf_end f)"

definition clone_weight :: "clone_frame list \<Rightarrow> clone_frame \<Rightarrow> nat" where
  "clone_weight open_frames current =
     sum_list (map (\<lambda>f. 1 + items_weight (cf_rest f)) (current # open_frames))"

function clone_loop :: "clone_frame list \<Rightarrow> clone_frame \<Rightarrow> component" where
  "clone_loop open_frames current =
     (case cf_rest current of
        IProperty p # rest \<Rightarrow>
          clone_loop open_frames (current\<lparr>cf_rest := rest, cf_items := cf_items current @ [IProperty p]\<rparr>)
      | IComponent nested # rest \<Rightarrow>
          clone_loop (current\<lparr>cf_rest := rest\<rparr> # open_frames) (clone_frame_of nested)
      | [] \<Rightarrow>
          let finished = clone_finish current in
          case open_frames of
            [] \<Rightarrow> finished
          | parent # below \<Rightarrow>
              clone_loop below (parent\<lparr>cf_items := cf_items parent @ [IComponent finished]\<rparr>))"
  by pat_completeness auto
termination
  by (relation "measure (\<lambda>(fs, c). clone_weight fs c)")
     (auto simp: clone_weight_def clone_frame_of_def component_weight_items)

declare clone_loop.simps [simp del]

definition clone_component :: "component \<Rightarrow> component" where
  "clone_component source = clone_loop [] (clone_frame_of source)"

text \<open>What a stack of frames turns into once every entry is copied.\<close>

fun clone_result :: "clone_frame list \<Rightarrow> component \<Rightarrow> component" where
  "clone_result [] c = c"
| "clone_result (f # fs) c =
     clone_result fs (Component (cf_begin f) (cf_items f @ IComponent c # cf_rest f) (cf_end f))"

lemma clone_loop_result:
  "clone_loop fs f = clone_result fs (Component (cf_begin f) (cf_items f @ cf_rest f) (cf_end f))"
proof (induction fs f rule: clone_loop.induct)
  case (1 fs f)
  show ?case
  proof (cases "cf_rest f")
    case Nil
    then show ?thesis
      using 1(1) [OF Nil refl] 
      by (cases fs) (simp_all add: clone_loop.simps [of "[]" f] clone_loop.simps [of "x # xs" f for x xs]
        clone_finish_def)
  next
    case (Cons i rest)
    show ?thesis
    proof (cases i)
      case (IProperty p)
      then show ?thesis using 1(2) [OF Cons IProperty] Cons by (simp add: clone_loop.simps [of fs f])
    next
      case (IComponent c)
      then show ?thesis
        using 1(3) [OF Cons IComponent] Cons
        by (simp add: clone_loop.simps [of fs f] clone_frame_of_def)
    qed
  qed
qed

lemma clone_component_same: "clone_component c = c"
  by (cases c) (simp add: clone_component_def clone_loop_result clone_frame_of_def)

section \<open>Properties\<close>


end
