(* ===== verification/Emit.thy ===== *)
theory Emit
  imports Component_Tree
begin

text \<open>
  \<open>core/emit.rs\<close> over the \<open>Writer\<close> of \<open>core/output.rs\<close>: a document is written line by line through
  a sink that may fail.  The sink is a parameter \<open>put\<close>, its state threaded explicitly; the
  growable buffer is the instance \<open>vec_put\<close>.  What a writer puts on one line is compared with the
  reference rendering \<open>weave\<close>, the iterative walk with the lines of the tree in order.
\<close>

section \<open>Writing with a sink\<close>

type_synonym ('e, 'w) put = "'w \<Rightarrow> octets \<Rightarrow> ('e + unit) \<times> 'w"

definition vec_put :: "('e, octets) put" where
  "vec_put w bs = (Inr (), w @ bs)"

definition REFOLD_WIDTH :: nat where "REFOLD_WIDTH = 74"

definition MAX_CONTINUATION_OCTETS :: nat where "MAX_CONTINUATION_OCTETS = 3"

definition is_continuation_octet :: "octet \<Rightarrow> bool" where
  "is_continuation_octet octet \<longleftrightarrow> 0x80 \<le> octet \<and> octet \<le> 0xBF"

fun fold_at_from :: "octets \<Rightarrow> nat \<Rightarrow> nat \<Rightarrow> nat option" where
  "fold_at_from bytes floor' 0 = None"
| "fold_at_from bytes floor' (Suc c) =
     (if length bytes \<le> Suc c \<or> \<not> is_continuation_octet (bytes ! Suc c) then Some (Suc c)
      else if Suc c = floor' then None
      else fold_at_from bytes floor' c)"

definition fold_at :: "octets \<Rightarrow> nat \<Rightarrow> nat option" where
  "fold_at bytes room = fold_at_from bytes (room - MAX_CONTINUATION_OCTETS) room"

section \<open>One line\<close>

record line_writer =
  lw_pending :: "fold_point list"
  lw_ending :: "line_ending option"
  lw_refold :: bool
  lw_position :: nat
  lw_column :: nat

definition line_writer_new :: "line_layout \<Rightarrow> line_writer" where
  "line_writer_new layout =
     \<lparr>lw_pending = lay_folds layout, lw_ending = lay_ending layout, lw_refold = lay_refold layout,
      lw_position = 0, lw_column = 0\<rparr>"

definition emit_octets :: "('e, 'w) put \<Rightarrow> line_writer \<Rightarrow> octets \<Rightarrow> 'w \<Rightarrow> ('e + line_writer) \<times> 'w" where
  "emit_octets put lw bytes w =
     (if bytes = [] then (Inr lw, w)
      else and_then (put w bytes) (\<lambda>_ w'.
        (Inr (lw\<lparr>lw_position := lw_position lw + length bytes,
                 lw_column := lw_column lw + length bytes\<rparr>), w')))"

definition break_line ::
  "('e, 'w) put \<Rightarrow> line_writer \<Rightarrow> line_ending \<Rightarrow> octet \<Rightarrow> 'w \<Rightarrow> ('e + line_writer) \<times> 'w" where
  "break_line put lw newline whitespace w =
     and_then (put w (ending_as_bytes newline)) (\<lambda>_ w1.
       and_then (put w1 [whitespace]) (\<lambda>_ w2. (Inr (lw\<lparr>lw_column := 0\<rparr>), w2)))"

fun push_recorded_from ::
  "('e, 'w) put \<Rightarrow> line_writer \<Rightarrow> octets \<Rightarrow> fold_point list \<Rightarrow> 'w \<Rightarrow> ('e + line_writer) \<times> 'w" where
  "push_recorded_from put lw rest [] w = emit_octets put lw rest w"
| "push_recorded_from put lw rest (point # later) w =
     (let taken = fold_offset point - lw_position lw in
      if length rest < taken then emit_octets put lw rest w
      else and_then (emit_octets put lw (take taken rest) w) (\<lambda>lw1 w1.
             and_then (break_line put (lw1\<lparr>lw_pending := later\<rparr>) (fold_newline point)
                         (fold_whitespace point) w1) (\<lambda>lw2 w2.
               push_recorded_from put lw2 (drop taken rest) later w2)))"

definition push_recorded ::
  "('e, 'w) put \<Rightarrow> line_writer \<Rightarrow> octets \<Rightarrow> 'w \<Rightarrow> ('e + line_writer) \<times> 'w" where
  "push_recorded put lw bytes w = push_recorded_from put lw bytes (lw_pending lw) w"

lemma fold_at_from_bounds: "fold_at_from bytes fl n = Some k \<Longrightarrow> 0 < k \<and> k \<le> n"
  by (induction bytes fl n rule: fold_at_from.induct) (auto split: if_splits)

lemma fold_at_bounds: "fold_at bytes room = Some k \<Longrightarrow> 0 < k \<and> k \<le> room"
  by (auto simp: fold_at_def dest: fold_at_from_bounds)

lemma break_line_column: "break_line put lw nl ws w = (Inr lw', w') \<Longrightarrow> lw' = lw\<lparr>lw_column := 0\<rparr>"
  by (auto simp: break_line_def elim!: and_then_InrE)

lemma emit_octets_writer:
  "emit_octets put lw bs w = (Inr lw', w') \<Longrightarrow>
     lw' = lw\<lparr>lw_position := lw_position lw + length bs, lw_column := lw_column lw + length bs\<rparr>"
  by (auto simp: emit_octets_def elim!: and_then_InrE split: if_splits)

text \<open>
  How far the canonical refold cuts: at a codepoint boundary inside the room, at once when there is
  none and the line already has octets, and at the full room when the octets are no UTF-8.
\<close>

definition refold_cut :: "octets \<Rightarrow> nat \<Rightarrow> nat" where
  "refold_cut rest column =
     (let room = REFOLD_WIDTH - column in
      case fold_at rest room of
        Some boundary \<Rightarrow> boundary
      | None \<Rightarrow> if 0 < column then 0 else room)"

lemma refold_cut_progress:
  "0 < refold_cut rest column \<or> 0 < column"
  by (auto simp: refold_cut_def Let_def REFOLD_WIDTH_def dest: fold_at_bounds split: option.splits)

lemma refold_cut_le: "refold_cut rest column \<le> REFOLD_WIDTH - column"
  by (auto simp: refold_cut_def Let_def dest: fold_at_bounds split: option.splits)

function push_refolded_loop ::
  "('e, 'w) put \<Rightarrow> line_writer \<Rightarrow> octets \<Rightarrow> 'w \<Rightarrow> ('e + line_writer) \<times> 'w" where
  "push_refolded_loop put lw rest w =
     (if rest = [] then (Inr lw, w)
      else let room = REFOLD_WIDTH - lw_column lw in
        if length rest \<le> room then emit_octets put lw rest w
        else let cut = refold_cut rest (lw_column lw) in
          case emit_octets put lw (take cut rest) w of
            (Inl e, w1) \<Rightarrow> (Inl e, w1)
          | (Inr lw1, w1) \<Rightarrow>
              (case break_line put lw1 CANONICAL 0x20 w1 of
                 (Inl e, w2) \<Rightarrow> (Inl e, w2)
               | (Inr lw2, w2) \<Rightarrow> push_refolded_loop put lw2 (drop cut rest) w2))"
  by pat_completeness auto
termination
proof (relation "measures [\<lambda>(put, lw, rest, w). length rest, \<lambda>(put, lw, rest, w). lw_column lw]", goal_cases)
  case (2 put lw rest)
  then show ?case
    using refold_cut_progress [of rest "lw_column lw"]
    by (auto dest!: break_line_column [OF sym] emit_octets_writer [OF sym])
qed simp

declare push_refolded_loop.simps [simp del]

definition push_refolded ::
  "('e, 'w) put \<Rightarrow> line_writer \<Rightarrow> octets \<Rightarrow> 'w \<Rightarrow> ('e + line_writer) \<times> 'w" where
  "push_refolded put lw bytes w =
     (if lw_position lw = 0 \<and> bytes \<noteq> [] \<and> (hd bytes = 0x20 \<or> hd bytes = 0x09)
      then and_then (break_line put lw CANONICAL 0x20 w) (\<lambda>lw1 w1. push_refolded_loop put lw1 bytes w1)
      else push_refolded_loop put lw bytes w)"

definition push :: "('e, 'w) put \<Rightarrow> line_writer \<Rightarrow> octets \<Rightarrow> 'w \<Rightarrow> ('e + line_writer) \<times> 'w" where
  "push put lw bytes w =
     (if lw_refold lw then push_refolded put lw bytes w else push_recorded put lw bytes w)"

definition finish :: "('e, 'w) put \<Rightarrow> line_writer \<Rightarrow> 'w \<Rightarrow> ('e + unit) \<times> 'w" where
  "finish put lw w =
     (case lw_ending lw of
        Some terminator \<Rightarrow> put w (ending_as_bytes terminator)
      | None \<Rightarrow> (Inr (), w))"

section \<open>Lines and documents\<close>

definition write_boundary :: "('e, 'w) put \<Rightarrow> boundary \<Rightarrow> 'w \<Rightarrow> ('e + unit) \<times> 'w" where
  "write_boundary put b w =
     (let layout = b_layout b; line = line_writer_new layout in
      and_then (push put line (b_keyword b) w) (\<lambda>line w.
      and_then (if lay_has_separator layout then push put line [0x3A] w else (Inr line, w)) (\<lambda>line w.
      and_then (push put line (b_name b) w) (\<lambda>line w. finish put line w))))"

fun push_parameters ::
  "('e, 'w) put \<Rightarrow> line_writer \<Rightarrow> parameter list \<Rightarrow> 'w \<Rightarrow> ('e + line_writer) \<times> 'w" where
  "push_parameters put line [] w = (Inr line, w)"
| "push_parameters put line (p # ps) w =
     and_then (push put line [0x3B] w) (\<lambda>line w.
     and_then (push put line (pm_name p) w) (\<lambda>line w.
     and_then (if pm_has_value p
               then and_then (push put line [0x3D] w) (\<lambda>line w. push put line (pm_value p) w)
               else (Inr line, w)) (\<lambda>line w.
     push_parameters put line ps w)))"

definition write_property :: "('e, 'w) put \<Rightarrow> property \<Rightarrow> 'w \<Rightarrow> ('e + unit) \<times> 'w" where
  "write_property put p w =
     (let layout = pr_layout p; line = line_writer_new layout in
      and_then (push put line (pr_name p) w) (\<lambda>line w.
      and_then (push_parameters put line (pr_parameters p) w) (\<lambda>line w.
      and_then (if lay_has_separator layout then push put line [0x3A] w else (Inr line, w)) (\<lambda>line w.
      and_then (push put line (pr_value_text p) w) (\<lambda>line w. finish put line w)))))"

datatype line = LProperty property | LBoundary boundary

fun line_layout_of :: "line \<Rightarrow> line_layout" where
  "line_layout_of (LProperty p) = pr_layout p"
| "line_layout_of (LBoundary b) = b_layout b"

text \<open>Writing one line answers with what the next line will owe it.\<close>

definition write_line :: "('e, 'w) put \<Rightarrow> line \<Rightarrow> bool \<Rightarrow> 'w \<Rightarrow> ('e + bool) \<times> 'w" where
  "write_line put l owed w =
     (let owed' = (lay_ending (line_layout_of l) = None) in
      and_then (if owed then put w (ending_as_bytes CANONICAL) else (Inr (), w)) (\<lambda>_ w.
      and_then (case l of LProperty p \<Rightarrow> write_property put p w
                        | LBoundary b \<Rightarrow> write_boundary put b w) (\<lambda>_ w. (Inr owed', w))))"

record open_component =
  oc_rest :: "item list"
  oc_end :: "boundary option"

definition write_weight :: "open_component list \<Rightarrow> item list \<Rightarrow> nat" where
  "write_weight opened cursor =
     items_weight cursor + sum_list (map (\<lambda>f. 1 + items_weight (oc_rest f)) opened)"

function write_items_loop ::
  "('e, 'w) put \<Rightarrow> open_component list \<Rightarrow> item list \<Rightarrow> bool \<Rightarrow> 'w \<Rightarrow> ('e + unit) \<times> 'w" where
  "write_items_loop put opened cursor owed w =
     (case cursor of
        [] \<Rightarrow>
          (case opened of
             [] \<Rightarrow> (Inr (), w)
           | finished # below \<Rightarrow>
               (case (case oc_end finished of
                        Some closing \<Rightarrow> write_line put (LBoundary closing) owed w
                      | None \<Rightarrow> (Inr owed, w)) of
                  (Inl e, w1) \<Rightarrow> (Inl e, w1)
                | (Inr owed1, w1) \<Rightarrow> write_items_loop put below (oc_rest finished) owed1 w1))
      | entry # rest \<Rightarrow>
          (case entry of
             IProperty p \<Rightarrow>
               (case write_line put (LProperty p) owed w of
                  (Inl e, w1) \<Rightarrow> (Inl e, w1)
                | (Inr owed1, w1) \<Rightarrow> write_items_loop put opened rest owed1 w1)
           | IComponent c \<Rightarrow>
               (case write_line put (LBoundary (c_begin c)) owed w of
                  (Inl e, w1) \<Rightarrow> (Inl e, w1)
                | (Inr owed1, w1) \<Rightarrow>
                    write_items_loop put (\<lparr>oc_rest = rest, oc_end = c_end c\<rparr> # opened)
                      (c_items c) owed1 w1)))"
  by pat_completeness auto
termination
  by (relation "measure (\<lambda>(put, opened, cursor, owed, w). write_weight opened cursor)")
     (auto simp: write_weight_def component_weight_items)

declare write_items_loop.simps [simp del]

definition write_items :: "('e, 'w) put \<Rightarrow> item list \<Rightarrow> 'w \<Rightarrow> ('e + unit) \<times> 'w" where
  "write_items put items w = write_items_loop put [] items False w"

definition serialize :: "('e, 'w) put \<Rightarrow> document \<Rightarrow> 'w \<Rightarrow> ('e + unit) \<times> 'w" where
  "serialize put doc w = write_items put (doc_items doc) w"

definition to_bytes :: "document \<Rightarrow> octets" where
  "to_bytes doc = snd (serialize (vec_put :: (unit, octets) put) doc [])"

section \<open>A preserved line\<close>

text \<open>
  What pushing a span into the buffer leaves: the octets appended are the next part of the
  reference rendering, and the folds still pending lie past the octets written.
\<close>

definition folds_ahead :: "nat \<Rightarrow> fold_point list \<Rightarrow> bool" where
  "folds_ahead p fs \<longleftrightarrow> (case fs of [] \<Rightarrow> True | f # _ \<Rightarrow> p < fold_offset f)"

lemma emit_octets_vec [simp]:
  "emit_octets vec_put lw bs acc =
     (Inr (lw\<lparr>lw_position := lw_position lw + length bs, lw_column := lw_column lw + length bs\<rparr>), acc @ bs)"
  by (simp add: emit_octets_def vec_put_def)

lemma break_line_vec [simp]:
  "break_line vec_put lw nl ws acc = (Inr (lw\<lparr>lw_column := 0\<rparr>), acc @ ending_as_bytes nl @ [ws])"
  by (simp add: break_line_def vec_put_def)

lemma push_recorded_from_vec:
  "lw_pending lw = fs \<Longrightarrow> \<exists>lw' out.
     push_recorded_from (vec_put :: ('e, octets) put) lw bs fs acc = (Inr lw', acc @ out)
   \<and> lw_position lw' = lw_position lw + length bs \<and> lw_refold lw' = lw_refold lw
   \<and> lw_ending lw' = lw_ending lw \<and> set (lw_pending lw') \<subseteq> set fs
   \<and> folds_ahead (lw_position lw') (lw_pending lw')
   \<and> (\<forall>cs. weave (lw_position lw) (bs @ cs) fs
            = out @ weave (lw_position lw') cs (lw_pending lw'))"
proof (induction fs arbitrary: lw bs acc)
  case Nil
  then show ?case by (simp add: folds_ahead_def)
next
  case (Cons f fs)
  let ?t = "fold_offset f - lw_position lw"
  show ?case
  proof (cases "length bs < ?t")
    case True
    then show ?thesis
      using Cons.prems by (auto simp: Let_def folds_ahead_def weave_skip)
  next
    case False
    define lw2 where "lw2 = lw\<lparr>lw_position := lw_position lw + ?t, lw_pending := fs, lw_column := 0\<rparr>"
    obtain lw' out where IH:
      "push_recorded_from (vec_put :: ('e, octets) put) lw2 (drop ?t bs) fs
          (acc @ take ?t bs @ fold_bytes f) = (Inr lw', (acc @ take ?t bs @ fold_bytes f) @ out)"
      "lw_position lw' = lw_position lw2 + length (drop ?t bs)" "lw_refold lw' = lw_refold lw2"
      "lw_ending lw' = lw_ending lw2" "set (lw_pending lw') \<subseteq> set fs"
      "folds_ahead (lw_position lw') (lw_pending lw')"
      "\<forall>cs. weave (lw_position lw2) (drop ?t bs @ cs) fs
            = out @ weave (lw_position lw') cs (lw_pending lw')"
      using Cons.IH [of lw2 "drop ?t bs" "acc @ take ?t bs @ fold_bytes f"] by (auto simp: lw2_def)
    have "push_recorded_from vec_put lw bs (f # fs) acc
        = push_recorded_from (vec_put :: ('e, octets) put) lw2 (drop ?t bs) fs
            (acc @ take ?t bs @ fold_bytes f)"
      using False by (simp add: Let_def lw2_def fold_bytes_def min_def)
    moreover have "weave (lw_position lw) (bs @ cs) (f # fs)
        = (take ?t bs @ fold_bytes f @ out) @ weave (lw_position lw') cs (lw_pending lw')" for cs
      using False weave_reach [of f "lw_position lw" "bs @ cs" fs] IH(7) by (simp add: lw2_def)
    ultimately show ?thesis
      using IH False
      by (intro exI [of _ lw'] exI [of _ "take ?t bs @ fold_bytes f @ out"]) (auto simp: lw2_def)
  qed
qed

text \<open>The state of a line writer in the preserved mode, and the tx it has taken so far.\<close>

definition preserving :: "octets \<Rightarrow> fold_point list \<Rightarrow> octets \<Rightarrow> octets \<Rightarrow> line_writer \<Rightarrow> bool" where
  "preserving acc0 fs tx acc lw \<longleftrightarrow>
     \<not> lw_refold lw \<and> lw_position lw = length tx \<and> set (lw_pending lw) \<subseteq> set fs
   \<and> (\<exists>out. acc = acc0 @ out
        \<and> (\<forall>cs. weave 0 (tx @ cs) fs = out @ weave (length tx) cs (lw_pending lw)))"

lemma push_preserving:
  assumes "preserving acc0 fs tx acc lw"
  shows "\<exists>lw' acc'. push (vec_put :: ('e, octets) put) lw bs acc = (Inr lw', acc')
    \<and> preserving acc0 fs (tx @ bs) acc' lw' \<and> lw_ending lw' = lw_ending lw
    \<and> folds_ahead (length (tx @ bs)) (lw_pending lw')"
proof -
  obtain out where o': "acc = acc0 @ out"
    "\<forall>cs. weave 0 (tx @ cs) fs = out @ weave (length tx) cs (lw_pending lw)"
    using assms by (auto simp: preserving_def)
  obtain lw' out' where r:
    "push_recorded_from (vec_put :: ('e, octets) put) lw bs (lw_pending lw) acc = (Inr lw', acc @ out')"
    "lw_position lw' = lw_position lw + length bs" "lw_refold lw' = lw_refold lw"
    "lw_ending lw' = lw_ending lw" "set (lw_pending lw') \<subseteq> set (lw_pending lw)"
    "folds_ahead (lw_position lw') (lw_pending lw')"
    "\<forall>cs. weave (lw_position lw) (bs @ cs) (lw_pending lw)
        = out' @ weave (lw_position lw') cs (lw_pending lw')"
    using push_recorded_from_vec [OF refl, of lw bs acc] by blast
  have "weave 0 ((tx @ bs) @ cs) fs
      = (out @ out') @ weave (length (tx @ bs)) cs (lw_pending lw')" for cs
    using o'(2) [rule_format, of "bs @ cs"] r(2,7) assms by (simp add: preserving_def)
  then show ?thesis
    using r o'(1) assms
    by (intro exI [of _ lw'] exI [of _ "acc @ out'"])
       (auto simp: push_def push_recorded_def preserving_def)
qed

lemma push_preservingE:
  assumes "preserving acc0 fs tx acc lw"
  obtains lw' acc' where "push (vec_put :: ('e, octets) put) lw bs acc = (Inr lw', acc')"
    "preserving acc0 fs (tx @ bs) acc' lw'" "lw_ending lw' = lw_ending lw"
    "folds_ahead (length (tx @ bs)) (lw_pending lw')"
  using push_preserving [OF assms, of bs] by blast

lemma preserving_new:
  "\<not> lay_refold l \<Longrightarrow> preserving acc (lay_folds l) [] acc (line_writer_new l)"
  by (simp add: preserving_def line_writer_new_def)

definition parameter_text :: "parameter \<Rightarrow> octets" where
  "parameter_text p = 0x3B # pm_name p @ (if pm_has_value p then 0x3D # pm_value p else [])"

definition parameters_text :: "parameter list \<Rightarrow> octets" where
  "parameters_text ps = concat (map parameter_text ps)"

lemma push_parameters_preserving:
  assumes "preserving acc0 fs tx acc lw"
  shows "\<exists>lw' acc'. push_parameters (vec_put :: ('e, octets) put) lw ps acc = (Inr lw', acc')
    \<and> preserving acc0 fs (tx @ parameters_text ps) acc' lw' \<and> lw_ending lw' = lw_ending lw"
  using assms
proof (induction ps arbitrary: tx acc lw)
  case Nil
  then show ?case by (simp add: parameters_text_def)
next
  case (Cons p ps)
  obtain lw1 acc1 where 1: "push (vec_put :: ('e, octets) put) lw [0x3B] acc = (Inr lw1, acc1)"
    "preserving acc0 fs (tx @ [0x3B]) acc1 lw1" "lw_ending lw1 = lw_ending lw"
    using push_preservingE [OF Cons.prems, of "[0x3B]"] by blast
  obtain lw2 acc2 where 2: "push (vec_put :: ('e, octets) put) lw1 (pm_name p) acc1 = (Inr lw2, acc2)"
    "preserving acc0 fs ((tx @ [0x3B]) @ pm_name p) acc2 lw2" "lw_ending lw2 = lw_ending lw1"
    using push_preservingE [OF 1(2), of "pm_name p"] by blast
  obtain lw4 acc4 where 4: "(if pm_has_value p
        then and_then (push (vec_put :: ('e, octets) put) lw2 [0x3D] acc2) (\<lambda>line w. push vec_put line (pm_value p) w)
        else (Inr lw2, acc2)) = (Inr lw4, acc4)"
    "preserving acc0 fs (tx @ parameter_text p) acc4 lw4" "lw_ending lw4 = lw_ending lw2"
  proof (cases "pm_has_value p")
    case True
    obtain lw3 acc3 where 3: "push (vec_put :: ('e, octets) put) lw2 [0x3D] acc2 = (Inr lw3, acc3)"
      "preserving acc0 fs (((tx @ [0x3B]) @ pm_name p) @ [0x3D]) acc3 lw3" "lw_ending lw3 = lw_ending lw2"
      using push_preservingE [OF 2(2), of "[0x3D]"] by blast
    obtain lw4 acc4 where 4: "push (vec_put :: ('e, octets) put) lw3 (pm_value p) acc3 = (Inr lw4, acc4)"
      "preserving acc0 fs ((((tx @ [0x3B]) @ pm_name p) @ [0x3D]) @ pm_value p) acc4 lw4"
      "lw_ending lw4 = lw_ending lw3"
      using push_preservingE [OF 3(2), of "pm_value p"] by blast
    show ?thesis using that [of lw4 acc4] True 3 4 by (simp add: parameter_text_def)
  next
    case False
    then show ?thesis using that [of lw2 acc2] 2 by (simp add: parameter_text_def)
  qed
  from Cons.IH [OF 4(2)] obtain lw5 acc5 where
    "push_parameters (vec_put :: ('e, octets) put) lw4 ps acc4 = (Inr lw5, acc5)"
    "preserving acc0 fs ((tx @ parameter_text p) @ parameters_text ps) acc5 lw5"
    "lw_ending lw5 = lw_ending lw4" by blast
  then show ?case using 1 2 4 by (simp add: parameters_text_def)
qed

text \<open>The unfolded octets of a line, and the line as its recorded layout has it.\<close>

fun line_text :: "line \<Rightarrow> octets" where
  "line_text (LProperty p) =
     pr_name p @ parameters_text (pr_parameters p)
       @ (if lay_has_separator (pr_layout p) then [0x3A] else []) @ pr_value_text p"
| "line_text (LBoundary b) =
     b_keyword b @ (if lay_has_separator (b_layout b) then [0x3A] else []) @ b_name b"

definition line_octets :: "line \<Rightarrow> octets" where
  "line_octets l =
     weave 0 (line_text l) (lay_folds (line_layout_of l)) @ ending_bytes (lay_ending (line_layout_of l))"

text \<open>A layout that was read: not marked for refolding, its folds inside the line.\<close>

definition line_preserved :: "line \<Rightarrow> bool" where
  "line_preserved l \<longleftrightarrow> \<not> lay_refold (line_layout_of l)
     \<and> (\<forall>f \<in> set (lay_folds (line_layout_of l)). fold_offset f \<le> length (line_text l))"

lemma preserving_done:
  assumes "preserving acc0 fs tx acc lw" "folds_ahead (length tx) (lw_pending lw)"
    and "\<forall>f \<in> set fs. fold_offset f \<le> length tx"
  shows "acc = acc0 @ weave 0 tx fs"
proof -
  have "lw_pending lw = []"
    using assms by (cases "lw_pending lw") (auto simp: preserving_def folds_ahead_def)
  then show ?thesis using assms(1) by (auto simp: preserving_def dest: spec [of _ "[]"])
qed

lemma finish_vec: "finish (vec_put :: ('e, octets) put) lw acc = (Inr (), acc @ ending_bytes (lw_ending lw))"
  by (simp add: finish_def vec_put_def split: option.splits)

lemma separator_preserving:
  assumes "preserving acc0 fs tx acc lw"
  obtains lw' acc' where "(if sep then push (vec_put :: ('e, octets) put) lw [0x3A] acc else (Inr lw, acc)) = (Inr lw', acc')"
    "preserving acc0 fs (tx @ (if sep then [0x3A] else [])) acc' lw'" "lw_ending lw' = lw_ending lw"
proof (cases sep)
  case True
  obtain lw' acc' where "push (vec_put :: ('e, octets) put) lw [0x3A] acc = (Inr lw', acc')"
    "preserving acc0 fs (tx @ [0x3A]) acc' lw'" "lw_ending lw' = lw_ending lw"
    using push_preservingE [OF assms, of "[0x3A]"] by blast
  then show ?thesis using that [of lw' acc'] True by simp
next
  case False
  then show ?thesis using that [of lw acc] assms by simp
qed

lemma write_property_preserved:
  assumes "line_preserved (LProperty p)"
  shows "write_property (vec_put :: ('e, octets) put) p acc = (Inr (), acc @ line_octets (LProperty p))"
proof -
  let ?l = "pr_layout p" and ?fs = "lay_folds (pr_layout p)"
  have new: "preserving acc ?fs [] acc (line_writer_new ?l)"
    using assms by (intro preserving_new) (simp add: line_preserved_def)
  obtain lw1 acc1 where 1: "push (vec_put :: ('e, octets) put) (line_writer_new ?l) (pr_name p) acc = (Inr lw1, acc1)"
    "preserving acc ?fs ([] @ pr_name p) acc1 lw1" "lw_ending lw1 = lw_ending (line_writer_new ?l)"
    using push_preservingE [OF new, of "pr_name p"] by blast
  obtain lw2 acc2 where 2: "push_parameters (vec_put :: ('e, octets) put) lw1 (pr_parameters p) acc1 = (Inr lw2, acc2)"
    "preserving acc ?fs (([] @ pr_name p) @ parameters_text (pr_parameters p)) acc2 lw2" "lw_ending lw2 = lw_ending lw1"
    using push_parameters_preserving [OF 1(2), of "pr_parameters p"] by blast
  obtain lw3 acc3 where 3: "(if lay_has_separator ?l then push (vec_put :: ('e, octets) put) lw2 [0x3A] acc2 else (Inr lw2, acc2)) = (Inr lw3, acc3)"
    "preserving acc ?fs ((([] @ pr_name p) @ parameters_text (pr_parameters p)) @ (if lay_has_separator ?l then [0x3A] else [])) acc3 lw3"
    "lw_ending lw3 = lw_ending lw2"
    using separator_preserving [OF 2(2)] by blast
  have tx: "((([] @ pr_name p) @ parameters_text (pr_parameters p))
      @ (if lay_has_separator ?l then [0x3A] else [])) @ pr_value_text p = line_text (LProperty p)" by simp
  obtain lw4 acc4 where 4: "push (vec_put :: ('e, octets) put) lw3 (pr_value_text p) acc3 = (Inr lw4, acc4)"
    "preserving acc ?fs (line_text (LProperty p)) acc4 lw4" "lw_ending lw4 = lw_ending lw3"
    "folds_ahead (length (line_text (LProperty p))) (lw_pending lw4)"
    using push_preservingE [OF 3(2), of "pr_value_text p", unfolded tx] by blast
  have "acc4 = acc @ weave 0 (line_text (LProperty p)) ?fs"
    using preserving_done [OF 4(2,4)] assms by (simp add: line_preserved_def)
  moreover have "lw_ending lw4 = lay_ending ?l" using 1 2 3 4 by (simp add: line_writer_new_def)
  ultimately show ?thesis
    using 1(1) 2(1) 3(1) 4(1) by (simp add: write_property_def Let_def finish_vec line_octets_def)
qed

lemma write_boundary_preserved:
  assumes "line_preserved (LBoundary b)"
  shows "write_boundary (vec_put :: ('e, octets) put) b acc = (Inr (), acc @ line_octets (LBoundary b))"
proof -
  let ?l = "b_layout b" and ?fs = "lay_folds (b_layout b)"
  have new: "preserving acc ?fs [] acc (line_writer_new ?l)"
    using assms by (intro preserving_new) (simp add: line_preserved_def)
  obtain lw1 acc1 where 1: "push (vec_put :: ('e, octets) put) (line_writer_new ?l) (b_keyword b) acc = (Inr lw1, acc1)"
    "preserving acc ?fs ([] @ b_keyword b) acc1 lw1" "lw_ending lw1 = lw_ending (line_writer_new ?l)"
    using push_preservingE [OF new, of "b_keyword b"] by blast
  obtain lw3 acc3 where 3: "(if lay_has_separator ?l then push (vec_put :: ('e, octets) put) lw1 [0x3A] acc1 else (Inr lw1, acc1)) = (Inr lw3, acc3)"
    "preserving acc ?fs (([] @ b_keyword b) @ (if lay_has_separator ?l then [0x3A] else [])) acc3 lw3"
    "lw_ending lw3 = lw_ending lw1"
    using separator_preserving [OF 1(2)] by blast
  have tx: "(([] @ b_keyword b) @ (if lay_has_separator ?l then [0x3A] else [])) @ b_name b
      = line_text (LBoundary b)" by simp
  obtain lw4 acc4 where 4: "push (vec_put :: ('e, octets) put) lw3 (b_name b) acc3 = (Inr lw4, acc4)"
    "preserving acc ?fs (line_text (LBoundary b)) acc4 lw4" "lw_ending lw4 = lw_ending lw3"
    "folds_ahead (length (line_text (LBoundary b))) (lw_pending lw4)"
    using push_preservingE [OF 3(2), of "b_name b", unfolded tx] by blast
  have "acc4 = acc @ weave 0 (line_text (LBoundary b)) ?fs"
    using preserving_done [OF 4(2,4)] assms by (simp add: line_preserved_def)
  moreover have "lw_ending lw4 = lay_ending ?l" using 1 3 4 by (simp add: line_writer_new_def)
  ultimately show ?thesis
    using 1(1) 3(1) 4(1) by (simp add: write_boundary_def Let_def finish_vec line_octets_def)
qed

lemma write_line_preserved:
  assumes "line_preserved l"
  shows "write_line (vec_put :: ('e, octets) put) l owed acc
    = (Inr (lay_ending (line_layout_of l) = None),
       acc @ (if owed then ending_as_bytes CANONICAL else []) @ line_octets l)"
  using assms
  by (cases l)
     (auto simp: write_line_def Let_def vec_put_def [of acc]
       write_property_preserved write_boundary_preserved)

section \<open>The lines of a tree\<close>

fun item_lines :: "item \<Rightarrow> line list" and component_lines :: "component \<Rightarrow> line list" where
  "item_lines (IProperty p) = [LProperty p]"
| "item_lines (IComponent c) = component_lines c"
| "component_lines (Component b is e) =
     LBoundary b # concat (map item_lines is) @ (case e of Some b' \<Rightarrow> [LBoundary b'] | None \<Rightarrow> [])"

definition items_lines :: "item list \<Rightarrow> line list" where
  "items_lines is = concat (map item_lines is)"

lemma items_lines_simps [simp]:
  "items_lines [] = []" "items_lines (i # is) = item_lines i @ items_lines is"
  "items_lines (is @ js) = items_lines is @ items_lines js"
  by (simp_all add: items_lines_def)

definition end_lines :: "boundary option \<Rightarrow> line list" where
  "end_lines e = (case e of Some b \<Rightarrow> [LBoundary b] | None \<Rightarrow> [])"

lemma component_lines_eq:
  "component_lines c = LBoundary (c_begin c) # items_lines (c_items c) @ end_lines (c_end c)"
  by (cases c) (simp add: items_lines_def end_lines_def)

definition opened_lines :: "open_component list \<Rightarrow> line list" where
  "opened_lines fs = concat (map (\<lambda>f. end_lines (oc_end f) @ items_lines (oc_rest f)) fs)"

lemma opened_lines_simps [simp]:
  "opened_lines [] = []"
  "opened_lines (f # fs) = end_lines (oc_end f) @ items_lines (oc_rest f) @ opened_lines fs"
  by (simp_all add: opened_lines_def)

fun lines_octets :: "bool \<Rightarrow> line list \<Rightarrow> octets" where
  "lines_octets owed [] = []"
| "lines_octets owed (l # ls) =
     (if owed then ending_as_bytes CANONICAL else []) @ line_octets l
       @ lines_octets (lay_ending (line_layout_of l) = None) ls"

lemma write_items_loop_preserved:
  assumes "list_all line_preserved (items_lines cursor @ opened_lines opened)"
  shows "write_items_loop (vec_put :: ('e, octets) put) opened cursor owed acc
    = (Inr (), acc @ lines_octets owed (items_lines cursor @ opened_lines opened))"
  using assms
proof (induction "vec_put :: ('e, octets) put" opened cursor owed acc rule: write_items_loop.induct)
  case (1 opened cursor owed acc)
  show ?case
  proof (cases cursor)
    case Nil
    show ?thesis
    proof (cases opened)
      case Nil
      then show ?thesis using \<open>cursor = []\<close> by (simp add: write_items_loop.simps)
    next
      case (Cons f below)
      show ?thesis
      proof (cases "oc_end f")
        case None
        then have "(Inr owed, acc) = (case oc_end f of None \<Rightarrow> (Inr owed, acc)
            | Some closing \<Rightarrow> write_line (vec_put :: ('e, octets) put) (LBoundary closing) owed acc)" by simp
        from 1(1) [OF Nil Cons this refl] show ?thesis
          using 1(4) Nil Cons None
          by (simp add: write_items_loop.simps [of vec_put "f # below"] end_lines_def)
      next
        case (Some b)
        let ?o = "lay_ending (line_layout_of (LBoundary b)) = None"
        let ?a = "acc @ (if owed then ending_as_bytes CANONICAL else []) @ line_octets (LBoundary b)"
        have "line_preserved (LBoundary b)" using 1(4) Nil Cons Some by (simp add: end_lines_def)
        then have w: "write_line (vec_put :: ('e, octets) put) (LBoundary b) owed acc = (Inr ?o, ?a)"
          by (rule write_line_preserved)
        then have "(Inr ?o, ?a) = (case oc_end f of None \<Rightarrow> (Inr owed, acc)
            | Some closing \<Rightarrow> write_line (vec_put :: ('e, octets) put) (LBoundary closing) owed acc)"
          using Some by simp
        from 1(1) [OF Nil Cons this refl]
        have "write_items_loop (vec_put :: ('e, octets) put) below (oc_rest f) ?o ?a
            = (Inr (), ?a @ lines_octets ?o (items_lines (oc_rest f) @ opened_lines below))"
          using 1(4) Nil Cons by simp
        then show ?thesis
          using Nil Cons Some w
          by (simp add: write_items_loop.simps [of vec_put "f # below"] end_lines_def)
      qed
    qed
  next
    case (Cons i rest)
    show ?thesis
    proof (cases i)
      case (IProperty p)
      let ?o = "lay_ending (line_layout_of (LProperty p)) = None"
      let ?a = "acc @ (if owed then ending_as_bytes CANONICAL else []) @ line_octets (LProperty p)"
      have "line_preserved (LProperty p)" using 1(4) Cons IProperty by simp
      then have w: "write_line (vec_put :: ('e, octets) put) (LProperty p) owed acc = (Inr ?o, ?a)"
        by (rule write_line_preserved)
      have "write_items_loop (vec_put :: ('e, octets) put) opened rest ?o ?a
          = (Inr (), ?a @ lines_octets ?o (items_lines rest @ opened_lines opened))"
        using 1(2) [OF Cons IProperty w [symmetric] refl] 1(4) Cons IProperty by simp
      then show ?thesis using Cons IProperty w
        by (simp add: write_items_loop.simps [of vec_put opened "IProperty p # rest"] split del: if_split)
    next
      case (IComponent c)
      let ?o = "lay_ending (line_layout_of (LBoundary (c_begin c))) = None"
      let ?a = "acc @ (if owed then ending_as_bytes CANONICAL else []) @ line_octets (LBoundary (c_begin c))"
      let ?f = "\<lparr>oc_rest = rest, oc_end = c_end c\<rparr>"
      have "line_preserved (LBoundary (c_begin c))"
        using 1(4) Cons IComponent by (simp add: component_lines_eq)
      then have w: "write_line (vec_put :: ('e, octets) put) (LBoundary (c_begin c)) owed acc = (Inr ?o, ?a)"
        by (rule write_line_preserved)
      have "write_items_loop (vec_put :: ('e, octets) put) (?f # opened) (c_items c) ?o ?a
          = (Inr (), ?a @ lines_octets ?o (items_lines (c_items c) @ opened_lines (?f # opened)))"
        using 1(3) [OF Cons IComponent w [symmetric] refl] 1(4) Cons IComponent
        by (simp add: component_lines_eq)
      then show ?thesis using Cons IComponent w
        by (simp add: write_items_loop.simps [of vec_put opened "IComponent c # rest"] component_lines_eq
            split del: if_split)
    qed
  qed
qed

lemma to_bytes_preserved:
  "list_all line_preserved (items_lines (doc_items doc)) \<Longrightarrow>
     to_bytes doc = lines_octets False (items_lines (doc_items doc))"
  using write_items_loop_preserved [of "doc_items doc" "[]" False "[]", where ?'e = unit]
  by (simp add: to_bytes_def serialize_def write_items_def)

text \<open>When only the last line may be without a terminator, nothing is ever owed.\<close>

lemma lines_octets_concat:
  "(\<forall>l \<in> set (butlast ls). lay_ending (line_layout_of l) \<noteq> None) \<Longrightarrow>
     lines_octets False ls = concat (map line_octets ls)"
proof (induction ls)
  case (Cons l ls)
  then show ?case by (cases ls) auto
qed simp

end
