(* ===== verification/Diagnostics.thy ===== *)
theory Diagnostics
  imports Ledger Gregorian
begin

text \<open>
  The reporting vocabulary of \<open>core/grammar/report.rs\<close> and the offsets of
  \<open>core/grammar/location.rs\<close>: the diagnostic codes and their frozen keys, spans and locations, the
  diagnostic value with its inline subject, and the sink interface with its two implementations.
  The code's one flat enumeration \<open>DiagnosticCode\<close> is three enumerations here, cut in declaration
  order and wrapped in one type, because a single datatype of 88 constructors takes minutes to
  define.
\<close>

section \<open>Offsets\<close>

record span =
  span_start :: nat
  span_end :: nat

definition span_new :: "nat \<Rightarrow> nat \<Rightarrow> span option" where
  "span_new s e = (if s \<le> e then Some \<lparr>span_start = s, span_end = e\<rparr> else None)"

definition span_at :: "nat \<Rightarrow> span" where
  "span_at offset = \<lparr>span_start = offset, span_end = sat_add u64_max offset 1\<rparr>"

definition span_len :: "span \<Rightarrow> nat" where
  "span_len s = span_end s - span_start s"

definition span_is_empty :: "span \<Rightarrow> bool" where
  "span_is_empty s \<longleftrightarrow> span_end s \<le> span_start s"

record location =
  loc_span :: "span option"

definition NOWHERE :: location where
  "NOWHERE = \<lparr>loc_span = None\<rparr>"

definition location_at :: "span \<Rightarrow> location" where
  "location_at s = \<lparr>loc_span = Some s\<rparr>"

definition location_at_offset :: "nat \<Rightarrow> location" where
  "location_at_offset offset = location_at (span_at offset)"

definition location_is_known :: "location \<Rightarrow> bool" where
  "location_is_known l \<longleftrightarrow> loc_span l \<noteq> None"

section \<open>Codes\<close>

datatype severity = Note | Violation | LimitReached

datatype (plugins only: code size) reading_code =
    InvalidUtf8Text | MissingValueSeparator | EmptyPropertyName | ParametersOnComponentBoundary
    | UnmatchedEnd | MismatchedEndName | UnclosedComponent | BareLineFeed | BareCarriageReturn
    | MissingFinalLineBreak | LineTooLong | ControlCharacterInText | UnterminatedQuotedParameter
    | UndefinedCaretEscape | ParameterWithoutValue | DuplicateProperty | MalformedDate
    | MalformedDateTime | MalformedTime | MalformedDuration | MalformedPeriod
    | MalformedUtcOffset | MalformedGeo | MalformedInteger | MalformedFloat | MalformedBoolean
    | MalformedBinary | MalformedUri | UnknownValueType | MissingRequiredProperty
    | PropertyNotAllowedHere | MutuallyExclusiveProperties

datatype (plugins only: code size) expansion_code =
    RecurrenceBudgetExhausted | RecurrenceCalendarEnded | NonexistentRecurrenceInstance
    | MalformedRecurrenceRule | DuplicateRecurrenceRulePart | UnknownRecurrenceRulePart
    | RecurrenceRulePartOutOfRange | RecurrenceUntilValueTypeMismatch | BySetPosWithoutByRule
    | MutuallyExclusiveRuleParts | ExtraRecurrenceRuleIgnored | ExdateShadowsOverride
    | OverrideLeftWindow | OverrideShiftNotRepresentable | UnknownTimeZone
    | MissingTimeZoneDefinition | AmbiguousLocalTime | NonexistentLocalTime
    | TimeZoneSourceDisagreement | VtimezoneWithoutObservance | VtimezoneRuleUnsupported
    | VtimezoneObservancesTruncated | DuplicateTimeZoneIdentifier | TimeZoneCoverageExhausted
    | RecurrenceUntilNotUtc | ExdateValueTypeMismatch | OverrideMatchesNoInstance
    | TimeZoneWithoutTransitions | TimeZoneBeforeKnownTransitions | VtimezoneComponentsTruncated
    | VtimezoneObservanceUnreadable | ExdateZoneUnknown

datatype (plugins only: code size) exchange_code =
    SchedulingMethodUnknown | SchedulingCalendarAddressUnreadable | SchedulingSequenceUnreadable
    | SchedulingPropertyNotAllowed | SchedulingRequiredPropertyMissing
    | SchedulingCancellationStatusInvalid | SchedulingInstanceAmbiguous
    | SchedulingRangeNotPermitted | SchedulingExclusionUnplaced | SchedulingZoneContinued
    | SchedulingSenderNotPermitted | SchedulingMethodAmbiguous | SchedulingInstanceNonexistent
    | DavForeignElementSkipped | DavCalendarDataCopied | DavCalendarDataLineEndingsFolded
    | DavPropertyUnmodeled | DavStatusUnreadable | DavResponseWithoutHref
    | DavResponsesTruncated | DavPropertyMarkupDropped | DavSyncTokenWithheld
    | QueryCalendarDataReduced | QueryFilterUndecidable

datatype diagnostic_code =
    Reading reading_code
  | Expansion expansion_code
  | Exchange exchange_code

definition reading_as_str :: "reading_code \<Rightarrow> string" where
  "reading_as_str c =
    (case c of
       InvalidUtf8Text \<Rightarrow> ''invalid-utf8-text''
     | MissingValueSeparator \<Rightarrow> ''missing-value-separator''
     | EmptyPropertyName \<Rightarrow> ''empty-property-name''
     | ParametersOnComponentBoundary \<Rightarrow> ''parameters-on-component-boundary''
     | UnmatchedEnd \<Rightarrow> ''unmatched-end''
     | MismatchedEndName \<Rightarrow> ''mismatched-end-name''
     | UnclosedComponent \<Rightarrow> ''unclosed-component''
     | BareLineFeed \<Rightarrow> ''bare-line-feed''
     | BareCarriageReturn \<Rightarrow> ''bare-carriage-return''
     | MissingFinalLineBreak \<Rightarrow> ''missing-final-line-break''
     | LineTooLong \<Rightarrow> ''line-too-long''
     | ControlCharacterInText \<Rightarrow> ''control-character-in-text''
     | UnterminatedQuotedParameter \<Rightarrow> ''unterminated-quoted-parameter''
     | UndefinedCaretEscape \<Rightarrow> ''undefined-caret-escape''
     | ParameterWithoutValue \<Rightarrow> ''parameter-without-value''
     | DuplicateProperty \<Rightarrow> ''duplicate-property''
     | MalformedDate \<Rightarrow> ''malformed-date''
     | MalformedDateTime \<Rightarrow> ''malformed-date-time''
     | MalformedTime \<Rightarrow> ''malformed-time''
     | MalformedDuration \<Rightarrow> ''malformed-duration''
     | MalformedPeriod \<Rightarrow> ''malformed-period''
     | MalformedUtcOffset \<Rightarrow> ''malformed-utc-offset''
     | MalformedGeo \<Rightarrow> ''malformed-geo''
     | MalformedInteger \<Rightarrow> ''malformed-integer''
     | MalformedFloat \<Rightarrow> ''malformed-float''
     | MalformedBoolean \<Rightarrow> ''malformed-boolean''
     | MalformedBinary \<Rightarrow> ''malformed-binary''
     | MalformedUri \<Rightarrow> ''malformed-uri''
     | UnknownValueType \<Rightarrow> ''unknown-value-type''
     | MissingRequiredProperty \<Rightarrow> ''missing-required-property''
     | PropertyNotAllowedHere \<Rightarrow> ''property-not-allowed-here''
     | MutuallyExclusiveProperties \<Rightarrow> ''mutually-exclusive-properties'')"

definition expansion_as_str :: "expansion_code \<Rightarrow> string" where
  "expansion_as_str c =
    (case c of
       RecurrenceBudgetExhausted \<Rightarrow> ''recurrence-budget-exhausted''
     | RecurrenceCalendarEnded \<Rightarrow> ''recurrence-calendar-ended''
     | NonexistentRecurrenceInstance \<Rightarrow> ''nonexistent-recurrence-instance''
     | MalformedRecurrenceRule \<Rightarrow> ''malformed-recurrence-rule''
     | DuplicateRecurrenceRulePart \<Rightarrow> ''duplicate-recurrence-rule-part''
     | UnknownRecurrenceRulePart \<Rightarrow> ''unknown-recurrence-rule-part''
     | RecurrenceRulePartOutOfRange \<Rightarrow> ''recurrence-rule-part-out-of-range''
     | RecurrenceUntilValueTypeMismatch \<Rightarrow> ''recurrence-until-value-type-mismatch''
     | BySetPosWithoutByRule \<Rightarrow> ''by-set-pos-without-by-rule''
     | MutuallyExclusiveRuleParts \<Rightarrow> ''mutually-exclusive-rule-parts''
     | ExtraRecurrenceRuleIgnored \<Rightarrow> ''extra-recurrence-rule-ignored''
     | ExdateShadowsOverride \<Rightarrow> ''exdate-shadows-override''
     | OverrideLeftWindow \<Rightarrow> ''override-left-window''
     | OverrideShiftNotRepresentable \<Rightarrow> ''override-shift-not-representable''
     | UnknownTimeZone \<Rightarrow> ''unknown-time-zone''
     | MissingTimeZoneDefinition \<Rightarrow> ''missing-time-zone-definition''
     | AmbiguousLocalTime \<Rightarrow> ''ambiguous-local-time''
     | NonexistentLocalTime \<Rightarrow> ''nonexistent-local-time''
     | TimeZoneSourceDisagreement \<Rightarrow> ''time-zone-source-disagreement''
     | VtimezoneWithoutObservance \<Rightarrow> ''vtimezone-without-observance''
     | VtimezoneRuleUnsupported \<Rightarrow> ''vtimezone-rule-unsupported''
     | VtimezoneObservancesTruncated \<Rightarrow> ''vtimezone-observances-truncated''
     | DuplicateTimeZoneIdentifier \<Rightarrow> ''duplicate-time-zone-identifier''
     | TimeZoneCoverageExhausted \<Rightarrow> ''time-zone-coverage-exhausted''
     | RecurrenceUntilNotUtc \<Rightarrow> ''recurrence-until-not-utc''
     | ExdateValueTypeMismatch \<Rightarrow> ''exdate-value-type-mismatch''
     | OverrideMatchesNoInstance \<Rightarrow> ''override-matches-no-instance''
     | TimeZoneWithoutTransitions \<Rightarrow> ''time-zone-without-transitions''
     | TimeZoneBeforeKnownTransitions \<Rightarrow> ''time-zone-before-known-transitions''
     | VtimezoneComponentsTruncated \<Rightarrow> ''vtimezone-components-truncated''
     | VtimezoneObservanceUnreadable \<Rightarrow> ''vtimezone-observance-unreadable''
     | ExdateZoneUnknown \<Rightarrow> ''exdate-zone-unknown'')"

definition exchange_as_str :: "exchange_code \<Rightarrow> string" where
  "exchange_as_str c =
    (case c of
       SchedulingMethodUnknown \<Rightarrow> ''scheduling-method-unknown''
     | SchedulingCalendarAddressUnreadable \<Rightarrow> ''scheduling-calendar-address-unreadable''
     | SchedulingSequenceUnreadable \<Rightarrow> ''scheduling-sequence-unreadable''
     | SchedulingPropertyNotAllowed \<Rightarrow> ''scheduling-property-not-allowed''
     | SchedulingRequiredPropertyMissing \<Rightarrow> ''scheduling-required-property-missing''
     | SchedulingCancellationStatusInvalid \<Rightarrow> ''scheduling-cancellation-status-invalid''
     | SchedulingInstanceAmbiguous \<Rightarrow> ''scheduling-instance-ambiguous''
     | SchedulingRangeNotPermitted \<Rightarrow> ''scheduling-range-not-permitted''
     | SchedulingExclusionUnplaced \<Rightarrow> ''scheduling-exclusion-unplaced''
     | SchedulingZoneContinued \<Rightarrow> ''scheduling-zone-continued''
     | SchedulingSenderNotPermitted \<Rightarrow> ''scheduling-sender-not-permitted''
     | SchedulingMethodAmbiguous \<Rightarrow> ''scheduling-method-ambiguous''
     | SchedulingInstanceNonexistent \<Rightarrow> ''scheduling-instance-nonexistent''
     | DavForeignElementSkipped \<Rightarrow> ''dav-foreign-element-skipped''
     | DavCalendarDataCopied \<Rightarrow> ''dav-calendar-data-copied''
     | DavCalendarDataLineEndingsFolded \<Rightarrow> ''dav-calendar-data-line-endings-folded''
     | DavPropertyUnmodeled \<Rightarrow> ''dav-property-unmodeled''
     | DavStatusUnreadable \<Rightarrow> ''dav-status-unreadable''
     | DavResponseWithoutHref \<Rightarrow> ''dav-response-without-href''
     | DavResponsesTruncated \<Rightarrow> ''dav-responses-truncated''
     | DavPropertyMarkupDropped \<Rightarrow> ''dav-property-markup-dropped''
     | DavSyncTokenWithheld \<Rightarrow> ''dav-sync-token-withheld''
     | QueryCalendarDataReduced \<Rightarrow> ''query-calendar-data-reduced''
     | QueryFilterUndecidable \<Rightarrow> ''query-filter-undecidable'')"

fun code_as_str :: "diagnostic_code \<Rightarrow> string" where
  "code_as_str (Reading c) = reading_as_str c"
| "code_as_str (Expansion c) = expansion_as_str c"
| "code_as_str (Exchange c) = exchange_as_str c"

definition reading_codes :: "reading_code list" where
  "reading_codes =
     [InvalidUtf8Text, MissingValueSeparator, EmptyPropertyName, ParametersOnComponentBoundary,
     UnmatchedEnd, MismatchedEndName, UnclosedComponent, BareLineFeed, BareCarriageReturn,
     MissingFinalLineBreak, LineTooLong, ControlCharacterInText, UnterminatedQuotedParameter,
     UndefinedCaretEscape, ParameterWithoutValue, DuplicateProperty, MalformedDate,
     MalformedDateTime, MalformedTime, MalformedDuration, MalformedPeriod, MalformedUtcOffset,
     MalformedGeo, MalformedInteger, MalformedFloat, MalformedBoolean, MalformedBinary,
     MalformedUri, UnknownValueType, MissingRequiredProperty, PropertyNotAllowedHere,
     MutuallyExclusiveProperties]"

definition expansion_codes :: "expansion_code list" where
  "expansion_codes =
     [RecurrenceBudgetExhausted, RecurrenceCalendarEnded, NonexistentRecurrenceInstance,
     MalformedRecurrenceRule, DuplicateRecurrenceRulePart, UnknownRecurrenceRulePart,
     RecurrenceRulePartOutOfRange, RecurrenceUntilValueTypeMismatch, BySetPosWithoutByRule,
     MutuallyExclusiveRuleParts, ExtraRecurrenceRuleIgnored, ExdateShadowsOverride,
     OverrideLeftWindow, OverrideShiftNotRepresentable, UnknownTimeZone,
     MissingTimeZoneDefinition, AmbiguousLocalTime, NonexistentLocalTime,
     TimeZoneSourceDisagreement, VtimezoneWithoutObservance, VtimezoneRuleUnsupported,
     VtimezoneObservancesTruncated, DuplicateTimeZoneIdentifier, TimeZoneCoverageExhausted,
     RecurrenceUntilNotUtc, ExdateValueTypeMismatch, OverrideMatchesNoInstance,
     TimeZoneWithoutTransitions, TimeZoneBeforeKnownTransitions, VtimezoneComponentsTruncated,
     VtimezoneObservanceUnreadable, ExdateZoneUnknown]"

definition exchange_codes :: "exchange_code list" where
  "exchange_codes =
     [SchedulingMethodUnknown, SchedulingCalendarAddressUnreadable,
     SchedulingSequenceUnreadable, SchedulingPropertyNotAllowed,
     SchedulingRequiredPropertyMissing, SchedulingCancellationStatusInvalid,
     SchedulingInstanceAmbiguous, SchedulingRangeNotPermitted, SchedulingExclusionUnplaced,
     SchedulingZoneContinued, SchedulingSenderNotPermitted, SchedulingMethodAmbiguous,
     SchedulingInstanceNonexistent, DavForeignElementSkipped, DavCalendarDataCopied,
     DavCalendarDataLineEndingsFolded, DavPropertyUnmodeled, DavStatusUnreadable,
     DavResponseWithoutHref, DavResponsesTruncated, DavPropertyMarkupDropped,
     DavSyncTokenWithheld, QueryCalendarDataReduced, QueryFilterUndecidable]"

section \<open>The diagnostic value\<close>

definition SUBJECT_CAPACITY :: nat where "SUBJECT_CAPACITY = 64"

record subject =
  sub_octets :: octets
  sub_len :: nat
  sub_truncated :: bool

definition subject_new :: "octets \<Rightarrow> subject" where
  "subject_new bs =
     (let kept = replicate SUBJECT_CAPACITY 0;
          taken = (if SUBJECT_CAPACITY \<le> length bs then take SUBJECT_CAPACITY bs else bs)
      in if length kept < length taken
         then \<lparr>sub_octets = kept, sub_len = 0, sub_truncated = True\<rparr>
         else \<lparr>sub_octets = taken @ drop (length taken) kept,
               sub_len = (if length taken \<le> u8_max then length taken else 0),
               sub_truncated = length taken < length bs\<rparr>)"

definition subject_as_bytes :: "subject \<Rightarrow> octets" where
  "subject_as_bytes s = (if sub_len s \<le> length (sub_octets s) then take (sub_len s) (sub_octets s) else [])"

record diagnostic =
  d_code :: diagnostic_code
  d_severity :: severity
  d_location :: location
  d_instant :: "instant option"
  d_subject :: "subject option"

definition diagnostic_new :: "diagnostic_code \<Rightarrow> severity \<Rightarrow> location \<Rightarrow> diagnostic" where
  "diagnostic_new c s l =
     \<lparr>d_code = c, d_severity = s, d_location = l, d_instant = None, d_subject = None\<rparr>"

definition diagnostic_at_instant :: "diagnostic_code \<Rightarrow> severity \<Rightarrow> instant \<Rightarrow> diagnostic" where
  "diagnostic_at_instant c s i =
     \<lparr>d_code = c, d_severity = s, d_location = NOWHERE, d_instant = Some i, d_subject = None\<rparr>"

definition diagnostic_about :: "diagnostic \<Rightarrow> subject \<Rightarrow> diagnostic" where
  "diagnostic_about d s = d\<lparr>d_subject := Some s\<rparr>"

section \<open>Sinks\<close>

datatype sink_outcome = Accepted | Refused

type_synonym 'k sink_push = "'k \<Rightarrow> diagnostic \<Rightarrow> sink_outcome \<times> 'k"

definition vec_push :: "diagnostic list sink_push" where
  "vec_push sink d = (Accepted, sink @ [d])"

definition ignore_push :: "unit sink_push" where
  "ignore_push sink d = (Refused, sink)"

definition report_diagnostic :: "'k sink_push \<Rightarrow> 'k \<Rightarrow> meter \<Rightarrow> diagnostic \<Rightarrow> 'k \<times> meter" where
  "report_diagnostic push sink m d =
     (case push sink d of
        (Refused, sink') \<Rightarrow> (sink', note_dropped_diagnostic m)
      | (Accepted, sink') \<Rightarrow> (sink', m))"

text \<open>A caller holds its sink and its ledger together.\<close>

type_synonym 'k env = "'k \<times> meter"

definition report :: "'k sink_push \<Rightarrow> diagnostic \<Rightarrow> 'k env \<Rightarrow> 'k env" where
  "report push' d env = report_diagnostic push' (fst env) (snd env) d"

text \<open>A step that charges and cannot report, beside a sink.\<close>

definition with_sink :: "'k \<Rightarrow> ('a \<times> meter) \<Rightarrow> 'a \<times> 'k env" where
  "with_sink k r = (case r of (x, m) \<Rightarrow> (x, (k, m)))"

text \<open>Offering several diagnostics in order.\<close>

fun report_all :: "'k sink_push \<Rightarrow> 'k \<Rightarrow> meter \<Rightarrow> diagnostic list \<Rightarrow> 'k \<times> meter" where
  "report_all push sink m [] = (sink, m)"
| "report_all push sink m (d # ds) =
     (case report_diagnostic push sink m d of (sink', m') \<Rightarrow> report_all push sink' m' ds)"

text \<open>
  What every sink promises its callers: it keeps what it says it accepted, in order, and nothing
  it says it refused.
\<close>

locale diagnostic_sink =
  fixes push :: "'k \<Rightarrow> diagnostic \<Rightarrow> sink_outcome \<times> 'k"
    and kept :: "'k \<Rightarrow> diagnostic list"
  assumes accepts: "push k d = (Accepted, k') \<Longrightarrow> kept k' = kept k @ [d]"
    and refuses: "push k d = (Refused, k') \<Longrightarrow> kept k' = kept k"
begin

lemma report_counts:
  assumes "report_all push k m ds = (k', m')"
    and "m_dropped m + length ds \<le> u32_max"
  shows "length (kept k') + m_dropped m' = length (kept k) + m_dropped m + length ds"
  using assms
proof (induction ds arbitrary: k m)
  case (Cons d ds)
  obtain o1 k1 where p: "push k d = (o1, k1)" by fastforce
  show ?case
  proof (cases o1)
    case Accepted
    then show ?thesis
      using Cons p accepts [of k d k1] by (simp add: report_diagnostic_def)
  next
    case Refused
    then have "report_all push k1 (note_dropped_diagnostic m) ds = (k', m')"
      using Cons.prems p by (simp add: report_diagnostic_def)
    moreover have "m_dropped (note_dropped_diagnostic m) = m_dropped m + 1"
      using Cons.prems by (simp add: note_dropped_diagnostic_def sat_add_def)
    ultimately show ?thesis
      using Cons.IH [of k1 "note_dropped_diagnostic m"] Cons.prems p Refused refuses [of k d k1]
      by simp
  qed
qed simp

end

interpretation vec_sink: diagnostic_sink vec_push "\<lambda>k. k"
  by unfold_locales (simp_all add: vec_push_def)

interpretation ignore_sink: diagnostic_sink ignore_push "\<lambda>k. []"
  by unfold_locales (simp_all add: ignore_push_def)

lemma report_all_vec: "report_all vec_push k m ds = (k @ ds, m)"
  by (induction ds arbitrary: k) (simp_all add: report_diagnostic_def vec_push_def)

section \<open>Properties\<close>

lemma group_codes_complete:
  "set reading_codes = UNIV" "set expansion_codes = UNIV" "set exchange_codes = UNIV"
proof -
  have "c \<in> set reading_codes" for c by (cases c) (simp_all add: reading_codes_def)
  then show "set reading_codes = UNIV" by blast
  have "c \<in> set expansion_codes" for c by (cases c) (simp_all add: expansion_codes_def)
  then show "set expansion_codes = UNIV" by blast
  have "c \<in> set exchange_codes" for c by (cases c) (simp_all add: exchange_codes_def)
  then show "set exchange_codes = UNIV" by blast
qed

definition all_codes :: "diagnostic_code list" where
  "all_codes = map Reading reading_codes @ map Expansion expansion_codes @ map Exchange exchange_codes"

lemma all_codes_complete: "c \<in> set all_codes"
  using group_codes_complete by (cases c) (auto simp: all_codes_def)

lemma all_keys_distinct: "distinct (map code_as_str all_codes)"
  by (simp add: all_codes_def reading_codes_def expansion_codes_def exchange_codes_def
      reading_as_str_def expansion_as_str_def exchange_as_str_def)

text \<open>
  Every diagnostic code has a key of its own: two codes with the same key are the same code,
  so a list keyed on the strings is a list keyed on the codes.
\<close>

theorem diagnostic_keys_distinct:
  "code_as_str c = code_as_str d \<longleftrightarrow> c = d"
  using all_keys_distinct all_codes_complete [of c] all_codes_complete [of d]
  by (auto simp: distinct_map inj_on_eq_iff)

text \<open>
  C22. No diagnostic disappears: after any number of reports to one of the crate's two sinks, each
  diagnostic is either in the list the caller holds, in the order it was raised, or in the ledger's
  count of the dropped ones, as long as that 32-bit count has not been reached.
\<close>

theorem diagnostics_kept_or_counted:
  assumes "m_dropped m + length ds \<le> u32_max"
  shows "report_all vec_push k m ds = (k @ ds, m)
    \<and> report_all ignore_push () m ds = ((), m\<lparr>m_dropped := m_dropped m + length ds\<rparr>)"
proof -
  have "report_all ignore_push () m ds = ((), m\<lparr>m_dropped := m_dropped m + length ds\<rparr>)"
    using assms
    by (induction ds arbitrary: m)
       (simp_all add: report_diagnostic_def ignore_push_def note_dropped_diagnostic_def sat_add_def)
  then show ?thesis by (simp add: report_all_vec)
qed

theorem diagnostics_kept_or_counted_witness:
  "m_dropped (snd (report_all ignore_push () (meter_new LIMITS_DEFAULT)
     [diagnostic_new (Reading BareLineFeed) Violation NOWHERE])) = 1"
proof -
  have "m_dropped (meter_new LIMITS_DEFAULT)
      + length [diagnostic_new (Reading BareLineFeed) Violation NOWHERE] \<le> u32_max"
    by (simp add: meter_new_def meter_with_budget_def width_defs)
  from diagnostics_kept_or_counted [OF this] show ?thesis
    by (simp add: meter_new_def meter_with_budget_def)
qed

text \<open>
  A diagnostic's inline subject carries exactly the first 64 octets of the name it was given,
  and says it is truncated exactly when the name was longer.
\<close>

theorem subject_keeps_prefix:
  "subject_as_bytes (subject_new bs) = take 64 bs
    \<and> (sub_truncated (subject_new bs) \<longleftrightarrow> 64 < length bs)
    \<and> length (sub_octets (subject_new bs)) = 64"
  by (auto simp: subject_new_def subject_as_bytes_def SUBJECT_CAPACITY_def Let_def u8_max_def)

end
