(* ===== verification/Text_Escape.thy ===== *)
theory Text_Escape
  imports Diagnostics
begin

text \<open>
  \<open>core/grammar/escape.rs\<close>: the TEXT escapes of RFC 5545, parameter quoting, and which names and
  values the grammar can write.  A function returning \<open>Cow\<close> is its octets; the borrowed and the
  owned answer are two branches of one definition.  The locale \<open>octet_escape\<close> is the contract that
  this module and \<open>caret.rs\<close> share: one marker octet, a table of meanings and one of spellings,
  and a left-to-right walk in each direction.
\<close>

section \<open>The contract of an octet escape\<close>

locale octet_escape =
  fixes mark :: octet
    and meaning :: "octet \<Rightarrow> octet option"
    and spelling :: "octet \<Rightarrow> octet option"
    and decode_into :: "octets \<Rightarrow> octets \<Rightarrow> octets"
    and encode_into :: "octets \<Rightarrow> octets \<Rightarrow> octets"
  assumes decode_done: "decode_into [] out = out"
    and decode_pair: "meaning s = Some c
        \<Longrightarrow> decode_into (mark # s # after) out = decode_into after (out @ [c])"
    and decode_plain: "\<not> (b = mark \<and> (\<exists>s t. rest = s # t \<and> meaning s \<noteq> None))
        \<Longrightarrow> decode_into (b # rest) out = decode_into rest (out @ [b])"
    and encode_done: "encode_into [] out = out"
    and encode_marked: "spelling b = Some s
        \<Longrightarrow> encode_into (b # rest) out = encode_into rest (out @ [mark, s])"
    and encode_plain: "spelling b = None
        \<Longrightarrow> encode_into (b # rest) out = encode_into rest (out @ [b])"
    and spelled: "spelling b = Some s \<Longrightarrow> meaning s = Some b"
    and mark_spelled: "spelling mark \<noteq> None"
begin

lemma decode_append: "decode_into bs out = out @ decode_into bs []"
proof (induction bs arbitrary: out rule: length_induct)
  case (1 bs)
  note IH = 1
  show ?case
  proof (cases bs)
    case Nil
    then show ?thesis by (simp add: decode_done)
  next
    case (Cons b rest)
    show ?thesis
    proof (cases "b = mark \<and> (\<exists>s t. rest = s # t \<and> meaning s \<noteq> None)")
      case True
      then obtain s t c where [simp]: "b = mark" "rest = s # t" "meaning s = Some c" by blast
      have "decode_into t y = y @ decode_into t []" for y
        by (rule IH [rule_format]) (simp add: Cons)
      from this [of "out @ [c]"] this [of "[c]"] show ?thesis by (simp add: Cons decode_pair)
    next
      case False
      have "decode_into rest y = y @ decode_into rest []" for y
        by (rule IH [rule_format]) (simp add: Cons)
      from this [of "out @ [b]"] this [of "[b]"] show ?thesis by (simp add: Cons decode_plain [OF False])
    qed
  qed
qed

lemma encode_append: "encode_into bs out = out @ encode_into bs []"
proof (induction bs arbitrary: out)
  case (Cons b bs)
  show ?case
  proof (cases "spelling b")
    case None
    then show ?thesis using Cons [of "out @ [b]"] Cons [of "[b]"] by (simp add: encode_plain)
  next
    case (Some s)
    then show ?thesis
      using Cons [of "out @ [mark, s]"] Cons [of "[mark, s]"] by (simp add: encode_marked)
  qed
qed (simp add: encode_done)

text \<open>Decoding undoes encoding, for every octet string and whatever follows it.\<close>

lemma decode_encode_append: "decode_into (encode_into bs [] @ rest) [] = bs @ decode_into rest []"
proof (induction bs)
  case (Cons b bs)
  show ?case
  proof (cases "spelling b")
    case None
    then have n: "b \<noteq> mark" using mark_spelled by auto
    have "encode_into (b # bs) [] = b # encode_into bs []"
      using None encode_append [of bs "[b]"] by (simp add: encode_plain)
    then have "decode_into (encode_into (b # bs) [] @ rest) []
        = decode_into (encode_into bs [] @ rest) [b]"
      using n by (simp add: decode_plain)
    then show ?thesis using Cons decode_append [of "encode_into bs [] @ rest" "[b]"] by simp
  next
    case (Some s)
    have "encode_into (b # bs) [] = mark # s # encode_into bs []"
      using Some encode_append [of bs "[mark, s]"] by (simp add: encode_marked)
    then have "decode_into (encode_into (b # bs) [] @ rest) []
        = decode_into (encode_into bs [] @ rest) [b]"
      using spelled [OF Some] by (simp add: decode_pair)
    then show ?thesis using Cons decode_append [of "encode_into bs [] @ rest" "[b]"] by simp
  qed
qed (simp add: encode_done)

lemma decode_encode: "decode_into (encode_into bs []) [] = bs"
  using decode_encode_append [of bs "[]"] by (simp add: decode_done)

lemma encode_none_needed:
  assumes "\<forall>b \<in> set bs. spelling b = None"
  shows "encode_into bs [] = bs"
  using assms
proof (induction bs)
  case (Cons b bs)
  then show ?case using encode_append [of bs "[b]"] by (simp add: encode_plain)
qed (simp add: encode_done)

lemma length_encode:
  "length (encode_into bs []) = length bs + length (filter (\<lambda>b. spelling b \<noteq> None) bs)"
proof (induction bs)
  case (Cons b bs)
  show ?case
  proof (cases "spelling b")
    case None
    then show ?thesis using Cons encode_append [of bs "[b]"] by (simp add: encode_plain)
  next
    case (Some s)
    then show ?thesis using Cons encode_append [of bs "[mark, s]"] by (simp add: encode_marked)
  qed
qed (simp add: encode_done)

text \<open>Encoding leaves no octet unescaped that the table spells, except as part of a pair.\<close>

lemma encoded_octets:
  "c \<in> set (encode_into bs []) \<Longrightarrow>
     c = mark \<or> (\<exists>b. spelling b = Some c) \<or> (c \<in> set bs \<and> spelling c = None)"
proof (induction bs)
  case (Cons b bs)
  show ?case
  proof (cases "spelling b")
    case None
    then show ?thesis using Cons encode_append [of bs "[b]"] by (auto simp: encode_plain)
  next
    case (Some s)
    then show ?thesis using Cons encode_append [of bs "[mark, s]"] by (auto simp: encode_marked)
  qed
qed (simp add: encode_done)

lemma unspelled_kept: "c \<in> set bs \<Longrightarrow> spelling c = None \<Longrightarrow> c \<in> set (encode_into bs [])"
proof (induction bs)
  case (Cons b bs)
  show ?case
  proof (cases "spelling b")
    case None
    then show ?thesis using Cons encode_append [of bs "[b]"] by (auto simp: encode_plain)
  next
    case (Some s)
    then show ?thesis using Cons encode_append [of bs "[mark, s]"] by (auto simp: encode_marked)
  qed
qed simp

text \<open>Whether two neighbouring octets form a defined pair anywhere, and what that decides.\<close>

lemma decode_no_pair:
  assumes "\<not> list_ex (\<lambda>(a, b). a = mark \<and> meaning b \<noteq> None) (zip bs (tl bs))"
  shows "decode_into bs [] = bs"
  using assms
proof (induction bs)
  case (Cons b bs)
  have p: "\<not> (b = mark \<and> (\<exists>s t. bs = s # t \<and> meaning s \<noteq> None))"
    using Cons.prems by (cases bs) auto
  have "\<not> list_ex (\<lambda>(a, b). a = mark \<and> meaning b \<noteq> None) (zip bs (tl bs))"
    using Cons.prems by (cases bs) auto
  then show ?case
    using Cons.IH decode_append [of bs "[b]"] by (simp add: decode_plain [OF p])
qed (simp add: decode_done)

lemma length_decode_le: "length (decode_into bs []) \<le> length bs"
proof (induction bs rule: length_induct)
  case (1 bs)
  note IH = 1
  show ?case
  proof (cases bs)
    case Nil
    then show ?thesis by (simp add: decode_done)
  next
    case (Cons b rest)
    show ?thesis
    proof (cases "b = mark \<and> (\<exists>s t. rest = s # t \<and> meaning s \<noteq> None)")
      case True
      then obtain s t c where [simp]: "b = mark" "rest = s # t" "meaning s = Some c" by blast
      have "length (decode_into t []) \<le> length t" using IH Cons by simp
      then show ?thesis using decode_append [of t "[c]"] by (simp add: Cons decode_pair)
    next
      case False
      have "length (decode_into rest []) \<le> length rest" using IH Cons by simp
      then show ?thesis using decode_append [of rest "[b]"] by (simp add: Cons decode_plain [OF False])
    qed
  qed
qed

lemma decode_changes:
  assumes "list_ex (\<lambda>(a, b). a = mark \<and> meaning b \<noteq> None) (zip bs (tl bs))"
  shows "length (decode_into bs []) < length bs"
  using assms
proof (induction bs rule: length_induct)
  case (1 bs)
  note IH = 1
  then obtain b rest where Cons: "bs = b # rest" by (cases bs) auto
  show ?case
  proof (cases "b = mark \<and> (\<exists>s t. rest = s # t \<and> meaning s \<noteq> None)")
    case True
    then obtain s t c where [simp]: "b = mark" "rest = s # t" "meaning s = Some c" by blast
    have "length (decode_into t []) \<le> length t" by (rule length_decode_le)
    then show ?thesis using decode_append [of t "[c]"] by (simp add: Cons decode_pair)
  next
    case False
    then have "list_ex (\<lambda>(a, b). a = mark \<and> meaning b \<noteq> None) (zip rest (tl rest))"
      using IH(2) Cons by (cases rest) auto
    then have "length (decode_into rest []) < length rest" using IH(1) Cons by simp
    then show ?thesis using decode_append [of rest "[b]"] by (simp add: Cons decode_plain [OF False])
  qed
qed

lemma decode_changes_iff:
  "list_ex (\<lambda>(a, b). a = mark \<and> meaning b \<noteq> None) (zip bs (tl bs)) \<longleftrightarrow> decode_into bs [] \<noteq> bs"
  using decode_no_pair decode_changes by fastforce

end

section \<open>TEXT escapes\<close>

definition TEXT_ESCAPES :: "(octet \<times> octet) list" where
  "TEXT_ESCAPES = [(0x5C, 0x5C), (0x3B, 0x3B), (0x2C, 0x2C), (0x6E, 0x0A), (0x4E, 0x0A)]"

definition TEXT_MUST_ESCAPE :: octets where
  "TEXT_MUST_ESCAPE = [0x5C, 0x3B, 0x2C, 0x0A]"

definition PARAMETER_MUST_QUOTE :: octets where
  "PARAMETER_MUST_QUOTE = [0x3B, 0x3A, 0x2C]"

definition text_escape_meaning :: "octet \<Rightarrow> octet option" where
  "text_escape_meaning spelling =
     map_option snd (find (\<lambda>(written, _). written = spelling) TEXT_ESCAPES)"

definition text_escape_spelling :: "octet \<Rightarrow> octet option" where
  "text_escape_spelling octet =
     (if octet \<notin> set TEXT_MUST_ESCAPE then None
      else map_option fst (find (\<lambda>(_, stands_for). stands_for = octet) TEXT_ESCAPES))"

fun take_escape :: "octets \<Rightarrow> (octet \<times> octets) option" where
  "take_escape [] = None"
| "take_escape (head # tail) =
     (if head \<noteq> 0x5C then None
      else case tail of
             [] \<Rightarrow> None
           | spelling # after \<Rightarrow>
               map_option (\<lambda>meaning. (meaning, after)) (text_escape_meaning spelling))"

lemma take_escape_shorter: "take_escape rest = Some (c, after) \<Longrightarrow> length after < length rest"
  by (cases rest) (auto split: if_splits list.splits)

definition text_needs_unescaping :: "octets \<Rightarrow> bool" where
  "text_needs_unescaping bytes \<longleftrightarrow>
     list_ex (\<lambda>(a, b). a = 0x5C \<and> text_escape_meaning b \<noteq> None) (zip bytes (tl bytes))"

function (sequential) unescape_text_into :: "octets \<Rightarrow> octets \<Rightarrow> octets" where
  "unescape_text_into [] out = out"
| "unescape_text_into (head # tail) out =
     (case take_escape (head # tail) of
        Some (stands_for, after) \<Rightarrow> unescape_text_into after (out @ [stands_for])
      | None \<Rightarrow> unescape_text_into tail (out @ [head]))"
  by pat_completeness auto
termination by (relation "measure (length \<circ> fst)") (auto simp del: take_escape.simps dest: take_escape_shorter)

definition unescape_text :: "octets \<Rightarrow> octets" where
  "unescape_text bytes =
     (if \<not> text_needs_unescaping bytes then bytes else unescape_text_into bytes [])"

definition text_needs_escaping :: "octets \<Rightarrow> bool" where
  "text_needs_escaping bytes \<longleftrightarrow> list_ex (\<lambda>octet. text_escape_spelling octet \<noteq> None) bytes"

fun escape_text_into :: "octets \<Rightarrow> octets \<Rightarrow> octets" where
  "escape_text_into [] out = out"
| "escape_text_into (octet # rest) out =
     (case text_escape_spelling octet of
        Some spelling \<Rightarrow> escape_text_into rest ((out @ [0x5C]) @ [spelling])
      | None \<Rightarrow> escape_text_into rest (out @ [octet]))"

definition escape_text :: "octets \<Rightarrow> octets" where
  "escape_text bytes =
     (let escape_count = length (filter (\<lambda>octet. text_escape_spelling octet \<noteq> None) bytes) in
      if escape_count = 0 then bytes else escape_text_into bytes [])"

section \<open>Parameter quoting\<close>

datatype parameter_quoting = Bare | Quoted | Unterminated

definition is_unterminated :: "parameter_quoting \<Rightarrow> bool" where
  "is_unterminated q \<longleftrightarrow> q = Unterminated"

fun quoting_diagnostic_code :: "parameter_quoting \<Rightarrow> diagnostic_code option" where
  "quoting_diagnostic_code Bare = None"
| "quoting_diagnostic_code Quoted = None"
| "quoting_diagnostic_code Unterminated = Some (Reading UnterminatedQuotedParameter)"

record unquoted_parameter =
  unq_value :: octets
  unq_quoting :: parameter_quoting

definition unquote_parameter :: "octets \<Rightarrow> unquoted_parameter" where
  "unquote_parameter bytes =
     (case bytes of
        [] \<Rightarrow> \<lparr>unq_value = bytes, unq_quoting = Bare\<rparr>
      | b # after_opening \<Rightarrow>
          if b \<noteq> 0x22 then \<lparr>unq_value = bytes, unq_quoting = Bare\<rparr>
          else if after_opening \<noteq> [] \<and> last after_opening = 0x22
               then \<lparr>unq_value = butlast after_opening, unq_quoting = Quoted\<rparr>
               else \<lparr>unq_value = after_opening, unq_quoting = Unterminated\<rparr>)"

definition parameter_needs_quoting :: "octets \<Rightarrow> bool" where
  "parameter_needs_quoting bytes \<longleftrightarrow> list_ex (\<lambda>octet. octet \<in> set PARAMETER_MUST_QUOTE) bytes"

definition is_control_octet :: "octet \<Rightarrow> bool" where
  "is_control_octet octet \<longleftrightarrow> octet \<le> 0x08 \<or> (0x0A \<le> octet \<and> octet \<le> 0x1F) \<or> octet = 0x7F"

definition parameter_is_representable :: "octets \<Rightarrow> bool" where
  "parameter_is_representable bytes \<longleftrightarrow>
     \<not> list_ex (\<lambda>octet. octet = 0x22 \<or> is_control_octet octet) bytes"

definition PARAMETER_NAME_DELIMITERS :: octets where
  "PARAMETER_NAME_DELIMITERS = [0x3D, 0x3B, 0x3A, 0x2C, 0x22]"

definition parameter_name_is_representable :: "octets \<Rightarrow> bool" where
  "parameter_name_is_representable bytes \<longleftrightarrow>
     bytes \<noteq> [] \<and> \<not> list_ex (\<lambda>octet. octet \<in> set PARAMETER_NAME_DELIMITERS \<or> is_control_octet octet) bytes"

definition property_name_is_representable :: "octets \<Rightarrow> bool" where
  "property_name_is_representable bytes \<longleftrightarrow>
     bytes \<noteq> [] \<and> \<not> list_ex (\<lambda>octet. octet = 0x3B \<or> octet = 0x3A \<or> is_control_octet octet) bytes"

definition quote_parameter_into :: "octets \<Rightarrow> octets \<Rightarrow> octets" where
  "quote_parameter_into bytes out =
     (if \<not> parameter_needs_quoting bytes then out @ bytes
      else ((out @ [0x22]) @ bytes) @ [0x22])"

definition quote_parameter :: "octets \<Rightarrow> octets" where
  "quote_parameter bytes =
     (if \<not> parameter_needs_quoting bytes then bytes else quote_parameter_into bytes [])"

section \<open>The contract holds\<close>

lemma text_escape_meaning_eq:
  "text_escape_meaning s =
     (if s = 0x5C \<or> s = 0x3B \<or> s = 0x2C then Some s
      else if s = 0x6E \<or> s = 0x4E then Some 0x0A else None)"
  by (auto simp: text_escape_meaning_def TEXT_ESCAPES_def)

lemma text_escape_spelling_eq:
  "text_escape_spelling b =
     (if b = 0x5C \<or> b = 0x3B \<or> b = 0x2C then Some b
      else if b = 0x0A then Some 0x6E else None)"
  by (auto simp: text_escape_spelling_def TEXT_ESCAPES_def TEXT_MUST_ESCAPE_def)

lemma text_spelled: "text_escape_spelling b = Some s \<Longrightarrow> text_escape_meaning s = Some b"
  by (auto simp: text_escape_spelling_eq text_escape_meaning_eq split: if_splits)

lemma take_escape_None:
  "take_escape (b # rest) = None \<longleftrightarrow>
     \<not> (b = 0x5C \<and> (\<exists>s t. rest = s # t \<and> text_escape_meaning s \<noteq> None))"
  by (auto split: list.splits)

interpretation text_codec: octet_escape
  "0x5C" text_escape_meaning text_escape_spelling unescape_text_into escape_text_into
proof unfold_locales
  fix b :: octet and rest out
  assume "\<not> (b = 0x5C \<and> (\<exists>s t. rest = s # t \<and> text_escape_meaning s \<noteq> None))"
  then have "take_escape (b # rest) = None" by (rule take_escape_None [THEN iffD2])
  then show "unescape_text_into (b # rest) out = unescape_text_into rest (out @ [b])"
    by (simp del: take_escape.simps)
qed (auto simp: text_spelled text_escape_spelling_eq)

lemma unescape_text_eq: "unescape_text bs = unescape_text_into bs []"
  using text_codec.decode_no_pair [of bs]
  by (auto simp: unescape_text_def text_needs_unescaping_def)

lemma escape_text_eq: "escape_text bs = escape_text_into bs []"
  using text_codec.encode_none_needed [of bs]
  by (auto simp: escape_text_def Let_def filter_empty_conv)

lemma escape_text_needed: "text_needs_escaping bs \<longleftrightarrow> escape_text bs \<noteq> bs"
proof -
  have "length (escape_text bs) = length bs + length (filter (\<lambda>b. text_escape_spelling b \<noteq> None) bs)"
    using text_codec.length_encode [of bs] by (simp add: escape_text_eq)
  moreover have "text_needs_escaping bs
      \<longleftrightarrow> filter (\<lambda>b. text_escape_spelling b \<noteq> None) bs \<noteq> []"
    by (auto simp: text_needs_escaping_def list_ex_iff filter_empty_conv)
  ultimately show ?thesis
    using text_codec.encode_none_needed [of bs]
    by (fastforce simp: escape_text_eq filter_empty_conv)
qed

lemma unquote_quote:
  assumes "0x22 \<notin> set bs"
  shows "unquote_parameter (quote_parameter bs)
    = \<lparr>unq_value = bs, unq_quoting = (if parameter_needs_quoting bs then Quoted else Bare)\<rparr>"
  using assms
  by (cases bs) (auto simp: unquote_parameter_def quote_parameter_def quote_parameter_into_def)

section \<open>Properties\<close>

text \<open>
  C33. Text this crate writes reads back as it was, for every octet string: escaping then
  unescaping gives the same octets, the written form carries no line feed and grows by one octet
  for each octet that has an escape, and the two questions a caller asks first, whether escaping
  or unescaping would change anything, answer exactly that.
\<close>

theorem text_escape_round_trip:
  "unescape_text (escape_text bs) = bs
    \<and> 0x0A \<notin> set (escape_text bs)
    \<and> length (escape_text bs)
        = length bs + length (filter (\<lambda>b. b \<in> set TEXT_MUST_ESCAPE) bs)
    \<and> (text_needs_escaping bs \<longleftrightarrow> escape_text bs \<noteq> bs)
    \<and> (text_needs_unescaping bs \<longleftrightarrow> unescape_text bs \<noteq> bs)"
proof -
  have f: "filter (\<lambda>b. text_escape_spelling b \<noteq> None) bs = filter (\<lambda>b. b \<in> set TEXT_MUST_ESCAPE) bs"
    by (rule filter_cong) (auto simp: text_escape_spelling_eq TEXT_MUST_ESCAPE_def)
  have "length (escape_text_into bs []) = length bs + length (filter (\<lambda>b. b \<in> set TEXT_MUST_ESCAPE) bs)"
    unfolding text_codec.length_encode f by (rule refl)
  moreover have "0x0A \<notin> set (escape_text_into bs [])"
    using text_codec.encoded_octets [of "0x0A" bs]
    by (auto simp: text_escape_spelling_eq split: if_splits)
  ultimately show ?thesis
    using text_codec.decode_encode [of bs] text_codec.decode_changes_iff [of bs]
      escape_text_needed [of bs]
    by (simp add: escape_text_eq unescape_text_eq text_needs_unescaping_def)
qed

end
