(* ===== verification/Caret.thy ===== *)
theory Caret
  imports Text_Escape
begin

text \<open>
  \<open>core/grammar/caret.rs\<close>: the RFC 6868 encoding of parameter values, as a second instance of the
  escape contract, and the way a value the crate authors travels: encoded, quoted, unquoted and
  decoded.
\<close>

section \<open>The operations\<close>

definition CARET_ESCAPES :: "(octet \<times> octet) list" where
  "CARET_ESCAPES = [(0x6E, 0x0A), (0x5E, 0x5E), (0x27, 0x22)]"

definition caret_escape_meaning :: "octet \<Rightarrow> octet option" where
  "caret_escape_meaning spelling =
     map_option snd (find (\<lambda>(written, _). written = spelling) CARET_ESCAPES)"

definition caret_escape_spelling :: "octet \<Rightarrow> octet option" where
  "caret_escape_spelling octet =
     map_option fst (find (\<lambda>(_, stands_for). stands_for = octet) CARET_ESCAPES)"

fun take_caret :: "octets \<Rightarrow> (octet \<times> octets) option" where
  "take_caret [] = None"
| "take_caret (head # tail) =
     (if head \<noteq> 0x5E then None
      else case tail of
             [] \<Rightarrow> None
           | spelling # after \<Rightarrow>
               map_option (\<lambda>meaning. (meaning, after)) (caret_escape_meaning spelling))"

lemma take_caret_shorter: "take_caret rest = Some (c, after) \<Longrightarrow> length after < length rest"
  by (cases rest) (auto split: if_splits list.splits)

definition caret_needs_decoding :: "octets \<Rightarrow> bool" where
  "caret_needs_decoding bytes \<longleftrightarrow>
     list_ex (\<lambda>(a, b). a = 0x5E \<and> caret_escape_meaning b \<noteq> None) (zip bytes (tl bytes))"

function (sequential) undefined_caret_escapes :: "octets \<Rightarrow> bool" where
  "undefined_caret_escapes [] = False"
| "undefined_caret_escapes (head # tail) =
     (case take_caret (head # tail) of
        Some (_, after) \<Rightarrow> undefined_caret_escapes after
      | None \<Rightarrow> if head = 0x5E \<and> tail \<noteq> [] then True else undefined_caret_escapes tail)"
  by pat_completeness auto
termination by (relation "measure length") (auto simp del: take_caret.simps dest: take_caret_shorter)

function (sequential) decode_caret_into :: "octets \<Rightarrow> octets \<Rightarrow> octets" where
  "decode_caret_into [] out = out"
| "decode_caret_into (head # tail) out =
     (case take_caret (head # tail) of
        Some (stands_for, after) \<Rightarrow> decode_caret_into after (out @ [stands_for])
      | None \<Rightarrow> decode_caret_into tail (out @ [head]))"
  by pat_completeness auto
termination
  by (relation "measure (length \<circ> fst)") (auto simp del: take_caret.simps dest: take_caret_shorter)

definition decode_caret :: "octets \<Rightarrow> octets" where
  "decode_caret bytes =
     (if \<not> caret_needs_decoding bytes then bytes else decode_caret_into bytes [])"

definition caret_needs_encoding :: "octets \<Rightarrow> bool" where
  "caret_needs_encoding bytes \<longleftrightarrow> list_ex (\<lambda>octet. caret_escape_spelling octet \<noteq> None) bytes"

fun encode_caret_into :: "octets \<Rightarrow> octets \<Rightarrow> octets" where
  "encode_caret_into [] out = out"
| "encode_caret_into (octet # rest) out =
     (case caret_escape_spelling octet of
        Some spelling \<Rightarrow> encode_caret_into rest ((out @ [0x5E]) @ [spelling])
      | None \<Rightarrow> encode_caret_into rest (out @ [octet]))"

definition encode_caret :: "octets \<Rightarrow> octets" where
  "encode_caret bytes =
     (let encoded_count = length (filter (\<lambda>octet. caret_escape_spelling octet \<noteq> None) bytes) in
      if encoded_count = 0 then bytes else encode_caret_into bytes [])"

section \<open>The contract holds\<close>

lemma caret_escape_meaning_eq:
  "caret_escape_meaning s =
     (if s = 0x6E then Some 0x0A else if s = 0x5E then Some 0x5E
      else if s = 0x27 then Some 0x22 else None)"
  by (auto simp: caret_escape_meaning_def CARET_ESCAPES_def)

lemma caret_escape_spelling_eq:
  "caret_escape_spelling b =
     (if b = 0x0A then Some 0x6E else if b = 0x5E then Some 0x5E
      else if b = 0x22 then Some 0x27 else None)"
  by (auto simp: caret_escape_spelling_def CARET_ESCAPES_def)

lemma caret_spelled: "caret_escape_spelling b = Some s \<Longrightarrow> caret_escape_meaning s = Some b"
  by (auto simp: caret_escape_spelling_eq caret_escape_meaning_eq split: if_splits)

lemma take_caret_None:
  "take_caret (b # rest) = None \<longleftrightarrow>
     \<not> (b = 0x5E \<and> (\<exists>s t. rest = s # t \<and> caret_escape_meaning s \<noteq> None))"
  by (auto split: list.splits)

interpretation caret_codec: octet_escape
  "0x5E" caret_escape_meaning caret_escape_spelling decode_caret_into encode_caret_into
proof unfold_locales
  fix b :: octet and rest out
  assume "\<not> (b = 0x5E \<and> (\<exists>s t. rest = s # t \<and> caret_escape_meaning s \<noteq> None))"
  then have "take_caret (b # rest) = None" by (rule take_caret_None [THEN iffD2])
  then show "decode_caret_into (b # rest) out = decode_caret_into rest (out @ [b])"
    by (simp del: take_caret.simps)
qed (auto simp: caret_spelled caret_escape_spelling_eq)

lemma decode_caret_eq: "decode_caret bs = decode_caret_into bs []"
  using caret_codec.decode_no_pair [of bs]
  by (auto simp: decode_caret_def caret_needs_decoding_def)

lemma encode_caret_eq: "encode_caret bs = encode_caret_into bs []"
  using caret_codec.encode_none_needed [of bs]
  by (auto simp: encode_caret_def Let_def filter_empty_conv)

lemma encode_caret_clean: "0x22 \<notin> set (encode_caret bs)" "0x0A \<notin> set (encode_caret bs)"
  using caret_codec.encoded_octets [of "0x22" bs] caret_codec.encoded_octets [of "0x0A" bs]
  by (auto simp: encode_caret_eq caret_escape_spelling_eq split: if_splits)

section \<open>Undefined escapes\<close>

text \<open>The number of carets the octets end in.\<close>

definition trailing_carets :: "octets \<Rightarrow> nat" where
  "trailing_carets bs = length (takeWhile (\<lambda>b. b = 0x5E) (rev bs))"

definition has_undefined_pair :: "octets \<Rightarrow> bool" where
  "has_undefined_pair bs \<longleftrightarrow>
     (\<exists>before s after. bs = before @ 0x5E # s # after
        \<and> even (trailing_carets before) \<and> caret_escape_meaning s = None)"

lemma trailing_carets_Nil [simp]: "trailing_carets [] = 0"
  by (simp add: trailing_carets_def)

lemma trailing_carets_Cons:
  "trailing_carets (b # bs) =
     (if \<forall>c \<in> set bs. c = 0x5E then length bs + (if b = 0x5E then 1 else 0)
      else trailing_carets bs)"
proof (cases "\<forall>c \<in> set bs. c = 0x5E")
  case True
  then have "takeWhile (\<lambda>b. b = 0x5E) (rev bs @ ys) = rev bs @ takeWhile (\<lambda>b. b = 0x5E) ys" for ys
    by (intro takeWhile_append2) simp
  then show ?thesis using True by (simp add: trailing_carets_def)
next
  case False
  then show ?thesis by (auto simp: trailing_carets_def takeWhile_append1)
qed

lemma trailing_carets_all: "\<forall>c \<in> set bs. c = 0x5E \<Longrightarrow> trailing_carets bs = length bs"
proof -
  assume "\<forall>c \<in> set bs. c = 0x5E"
  then have "takeWhile (\<lambda>b. b = 0x5E) (rev bs) = rev bs"
    by (subst takeWhile_eq_all_conv) simp
  then show ?thesis by (simp only: trailing_carets_def length_rev)
qed

lemma trailing_carets_plain: "b \<noteq> 0x5E \<Longrightarrow> trailing_carets (b # bs) = trailing_carets bs"
  by (auto simp: trailing_carets_Cons trailing_carets_all)

lemma trailing_carets_pair:
  "caret_escape_meaning s \<noteq> None \<Longrightarrow>
     even (trailing_carets (0x5E # s # bs)) \<longleftrightarrow> even (trailing_carets bs)"
  by (auto simp: trailing_carets_Cons trailing_carets_all)

lemma has_undefined_pair_Nil: "\<not> has_undefined_pair []"
  by (simp add: has_undefined_pair_def)

lemma has_undefined_pair_plain:
  assumes "b \<noteq> 0x5E"
  shows "has_undefined_pair (b # rest) \<longleftrightarrow> has_undefined_pair rest"
proof
  assume "has_undefined_pair (b # rest)"
  then obtain p s a where *: "b # rest = p @ 0x5E # s # a" "even (trailing_carets p)"
    "caret_escape_meaning s = None" unfolding has_undefined_pair_def by blast
  then obtain p' where "p = b # p'" using assms by (cases p) auto
  then show "has_undefined_pair rest"
    using * assms by (auto simp: has_undefined_pair_def trailing_carets_plain)
next
  assume "has_undefined_pair rest"
  then obtain p s a where *: "rest = p @ 0x5E # s # a" "even (trailing_carets p)"
    "caret_escape_meaning s = None" unfolding has_undefined_pair_def by blast
  then have "b # rest = (b # p) @ 0x5E # s # a" "even (trailing_carets (b # p))"
    using assms by (simp_all add: trailing_carets_plain)
  then show "has_undefined_pair (b # rest)" using * unfolding has_undefined_pair_def by blast
qed

lemma has_undefined_pair_defined:
  assumes m: "caret_escape_meaning s \<noteq> None"
  shows "has_undefined_pair (0x5E # s # rest) \<longleftrightarrow> has_undefined_pair rest"
proof
  assume "has_undefined_pair (0x5E # s # rest)"
  then obtain p x a where *: "0x5E # s # rest = p @ 0x5E # x # a" "even (trailing_carets p)"
    "caret_escape_meaning x = None" unfolding has_undefined_pair_def by blast
  have "p \<noteq> []" using * m by (cases p) auto
  then obtain p1 where p1: "p = 0x5E # p1" using * by (cases p) auto
  have "p1 \<noteq> []" using * p1 by (auto simp: trailing_carets_Cons)
  then obtain p2 where p2: "p = 0x5E # s # p2" using * p1 by (cases p1) auto
  have "rest = p2 @ 0x5E # x # a" using * p2 by simp
  moreover have "even (trailing_carets p2)"
    using * p2 trailing_carets_pair [OF m] by simp
  ultimately show "has_undefined_pair rest" using * unfolding has_undefined_pair_def by blast
next
  assume "has_undefined_pair rest"
  then obtain p x a where *: "rest = p @ 0x5E # x # a" "even (trailing_carets p)"
    "caret_escape_meaning x = None" unfolding has_undefined_pair_def by blast
  then have "0x5E # s # rest = (0x5E # s # p) @ 0x5E # x # a"
    "even (trailing_carets (0x5E # s # p))"
    using trailing_carets_pair [OF m] by simp_all
  then show "has_undefined_pair (0x5E # s # rest)" using * unfolding has_undefined_pair_def by blast
qed

lemma undefined_caret_escapes_iff: "undefined_caret_escapes bs \<longleftrightarrow> has_undefined_pair bs"
proof (induction bs rule: undefined_caret_escapes.induct)
  case 1
  then show ?case by (simp add: has_undefined_pair_Nil)
next
  case (2 head tail)
  show ?case
  proof (cases "take_caret (head # tail)")
    case (Some r)
    then obtain c after where r: "take_caret (head # tail) = Some (c, after)" by (cases r) auto
    then obtain s where h: "head = 0x5E" "tail = s # after" "caret_escape_meaning s \<noteq> None"
      by (auto split: if_splits list.splits)
    show ?thesis
      using 2(2) [OF r refl] r has_undefined_pair_defined [OF h(3), of after] h
      by (simp del: take_caret.simps)
  next
    case None
    show ?thesis
    proof (cases "head = 0x5E \<and> tail \<noteq> []")
      case True
      then obtain s after where t: "tail = s # after" by (cases tail) auto
      then have "caret_escape_meaning s = None" using None True by auto
      then have "has_undefined_pair (head # tail)"
        unfolding has_undefined_pair_def using True t
        by (intro exI [of _ "[]"] exI [of _ s] exI [of _ after]) simp
      then show ?thesis using None True by (simp del: take_caret.simps)
    next
      case False
      have "has_undefined_pair (head # tail) \<longleftrightarrow> has_undefined_pair tail"
      proof (cases "head = 0x5E")
        case True
        then show ?thesis using False
          by (auto simp: has_undefined_pair_def Cons_eq_append_conv)
      qed (rule has_undefined_pair_plain)
      then show ?thesis using 2(1) [OF None False] None False by (auto simp del: take_caret.simps)
    qed
  qed
qed

section \<open>Properties\<close>

text \<open>
  C34. A parameter value the crate authors comes back whole, for every octet string: encoded,
  quoted where the grammar asks for it, unquoted and decoded it is the value it was, the quote is
  never left open, and what was written has no control octet that the value did not already have
  apart from its line feeds.
\<close>

theorem authored_parameter_round_trip:
  "decode_caret (unq_value (unquote_parameter (quote_parameter (encode_caret bs)))) = bs
    \<and> \<not> is_unterminated (unq_quoting (unquote_parameter (quote_parameter (encode_caret bs))))
    \<and> (parameter_is_representable (encode_caret bs)
        \<longleftrightarrow> \<not> list_ex is_control_octet (filter (\<lambda>b. b \<noteq> 0x0A) bs))"
proof -
  have c: "set (encode_caret bs) \<inter> {b. is_control_octet b}
      = set bs \<inter> {b. is_control_octet b \<and> b \<noteq> 0x0A}"
  proof (intro set_eqI iffI)
    fix b assume "b \<in> set (encode_caret bs) \<inter> {b. is_control_octet b}"
    then show "b \<in> set bs \<inter> {b. is_control_octet b \<and> b \<noteq> 0x0A}"
      using caret_codec.encoded_octets [of b bs]
      by (auto simp: encode_caret_eq caret_escape_spelling_eq is_control_octet_def split: if_splits)
  next
    fix b assume b: "b \<in> set bs \<inter> {b. is_control_octet b \<and> b \<noteq> 0x0A}"
    then have "caret_escape_spelling b = None"
      by (auto simp: caret_escape_spelling_eq is_control_octet_def)
    with b have "b \<in> set (encode_caret_into bs [])"
      by (auto intro: caret_codec.unspelled_kept)
    then show "b \<in> set (encode_caret bs) \<inter> {b. is_control_octet b}"
      using b by (simp add: encode_caret_eq)
  qed
  have "parameter_is_representable (encode_caret bs)
      \<longleftrightarrow> set (encode_caret bs) \<inter> {b. is_control_octet b} = {}"
    using encode_caret_clean [of bs]
    by (auto simp: parameter_is_representable_def list_ex_iff)
  then have "parameter_is_representable (encode_caret bs)
        \<longleftrightarrow> \<not> list_ex is_control_octet (filter (\<lambda>b. b \<noteq> 0x0A) bs)"
    unfolding c by (auto simp: list_ex_iff)
  then show ?thesis
    using unquote_quote [OF encode_caret_clean(1), of bs] caret_codec.decode_encode [of bs]
    by (simp add: decode_caret_eq encode_caret_eq is_unterminated_def)
qed

text \<open>
  A caret escape is reported as undefined exactly where one is: the walk answers yes if and
  only if some caret that no earlier caret pairs with is followed by an octet the table gives no
  meaning, and the two questions whether encoding or decoding would change anything answer exactly
  that.
\<close>

theorem caret_walks_exact:
  "(undefined_caret_escapes bs \<longleftrightarrow> has_undefined_pair bs)
    \<and> (caret_needs_decoding bs \<longleftrightarrow> decode_caret bs \<noteq> bs)
    \<and> (caret_needs_encoding bs \<longleftrightarrow> encode_caret bs \<noteq> bs)"
proof -
  have "caret_needs_encoding bs \<longleftrightarrow> filter (\<lambda>b. caret_escape_spelling b \<noteq> None) bs \<noteq> []"
    by (auto simp: caret_needs_encoding_def list_ex_iff filter_empty_conv)
  then have "caret_needs_encoding bs \<longleftrightarrow> encode_caret bs \<noteq> bs"
    using caret_codec.length_encode [of bs] caret_codec.encode_none_needed [of bs]
    by (fastforce simp: encode_caret_eq filter_empty_conv)
  then show ?thesis
    using undefined_caret_escapes_iff caret_codec.decode_changes_iff [of bs]
    by (simp add: caret_needs_decoding_def decode_caret_eq)
qed

end
