(* ===== verification/Parse.thy ===== *)
theory Parse
  imports Lexer Emit Caret
begin

text \<open>
  \<open>core/parse.rs\<close>: the tree builder.  Tokens are folded into a pending line, a finished line becomes
  a property or a component boundary, and everything that was wrong is offered to the caller's
  sink.  The sink is a parameter \<open>push'\<close> with its own state; sink and ledger travel together as the
  environment.  A \<open>Vec\<close> used as a stack is a list whose head is its last element.
\<close>

section \<open>Small questions\<close>

definition MAX_PHYSICAL_LINE_OCTETS :: nat where "MAX_PHYSICAL_LINE_OCTETS = 75"

definition as_units :: "nat \<Rightarrow> nat" where
  "as_units count = (if count \<le> u64_max then count else u64_max)"

definition holds_control_octet :: "octets \<Rightarrow> bool" where
  "holds_control_octet bytes \<longleftrightarrow> list_ex is_control_octet bytes"

fun terminator_code :: "line_ending \<Rightarrow> diagnostic_code option" where
  "terminator_code CrLf = None"
| "terminator_code Lf = Some (Reading BareLineFeed)"
| "terminator_code Cr = Some (Reading BareCarriageReturn)"

definition BEGIN_keyword :: octets where "BEGIN_keyword = [0x42, 0x45, 0x47, 0x49, 0x4E]"
definition END_keyword :: octets where "END_keyword = [0x45, 0x4E, 0x44]"

definition names_a_component_boundary :: "octets \<Rightarrow> bool" where
  "names_a_component_boundary name \<longleftrightarrow>
     eq_ignore_ascii_case name BEGIN_keyword \<or> eq_ignore_ascii_case name END_keyword"

datatype line_kind = KProperty "diagnostic_code option" | KBegin | KEnd

definition boundary_kind :: "octets \<Rightarrow> line_kind option" where
  "boundary_kind name =
     (if eq_ignore_ascii_case name BEGIN_keyword then Some KBegin
      else if eq_ignore_ascii_case name END_keyword then Some KEnd
      else None)"

section \<open>Where a line sat\<close>

record extent =
  ex_start :: nat
  ex_end :: nat

definition extent_location :: "extent \<Rightarrow> location" where
  "extent_location x =
     (case span_new (ex_start x) (ex_end x) of
        Some s \<Rightarrow> location_at s
      | None \<Rightarrow> location_at_offset (ex_start x))"

record fold_walk =
  fw_folds :: "fold_point list"
  fw_passed :: nat
  fw_carried :: nat
  fw_line_start :: nat

definition fold_walk_new :: "fold_point list \<Rightarrow> nat \<Rightarrow> fold_walk" where
  "fold_walk_new folds line_start =
     \<lparr>fw_folds = folds, fw_passed = 0, fw_carried = 0, fw_line_start = line_start\<rparr>"

fun pass_folds :: "nat \<Rightarrow> bool \<Rightarrow> fold_point list \<Rightarrow> nat \<Rightarrow> nat \<Rightarrow> nat \<times> nat" where
  "pass_folds cursor leading [] passed carried = (passed, carried)"
| "pass_folds cursor leading (point # rest) passed carried =
     (let at = fold_offset point in
      if cursor < at \<or> (\<not> leading \<and> at = cursor) then (passed, carried)
      else pass_folds cursor leading rest (passed + 1)
             (sat_add u64_max (sat_add u64_max carried (as_units (written_len (fold_newline point)))) 1))"

definition fold_walk_advance :: "fold_walk \<Rightarrow> nat \<Rightarrow> bool \<Rightarrow> nat \<times> fold_walk" where
  "fold_walk_advance w offset leading =
     (let cursor = as_units offset;
          (passed, carried) =
            pass_folds cursor leading (drop (fw_passed w) (fw_folds w)) (fw_passed w) (fw_carried w)
      in (sat_add u64_max (sat_add u64_max (fw_line_start w) cursor) carried,
          w\<lparr>fw_passed := passed, fw_carried := carried\<rparr>))"

definition fold_walk_opens :: "fold_walk \<Rightarrow> nat \<Rightarrow> nat \<times> fold_walk" where
  "fold_walk_opens w offset = fold_walk_advance w offset True"

definition fold_walk_closes :: "fold_walk \<Rightarrow> nat \<Rightarrow> nat \<times> fold_walk" where
  "fold_walk_closes w offset = fold_walk_advance w offset False"

definition fold_walk_extent :: "fold_walk \<Rightarrow> nat \<Rightarrow> nat \<Rightarrow> extent \<times> fold_walk" where
  "fold_walk_extent w from' len =
     (let (s, w1) = fold_walk_opens w from';
          (e, w2) = fold_walk_closes w1 (from' + len)
      in (\<lparr>ex_start = s, ex_end = e\<rparr>, w2))"

section \<open>Reporting\<close>

definition report_extent ::
  "'k sink_push \<Rightarrow> extent \<Rightarrow> diagnostic_code \<Rightarrow> severity \<Rightarrow> 'k env \<Rightarrow> 'k env" where
  "report_extent push' x code sev env = report push' (diagnostic_new code sev (extent_location x)) env"

definition report_overlong_line :: "'k sink_push \<Rightarrow> nat \<Rightarrow> nat \<Rightarrow> 'k env \<Rightarrow> 'k env" where
  "report_overlong_line push' start width env =
     (if width \<le> MAX_PHYSICAL_LINE_OCTETS then env
      else report_extent push' \<lparr>ex_start = start, ex_end = sat_add u64_max start (as_units width)\<rparr>
             (Reading LineTooLong) Violation env)"

definition report_piece ::
  "'k sink_push \<Rightarrow> fold_walk \<Rightarrow> nat \<Rightarrow> octets \<Rightarrow> 'k env \<Rightarrow> extent \<times> fold_walk \<times> 'k env" where
  "report_piece push' w from' bytes env =
     (let (x, w') = fold_walk_extent w from' (length bytes);
          env' = (if holds_control_octet bytes
                  then report_extent push' x (Reading ControlCharacterInText) Violation env
                  else env)
      in (x, w', env'))"

definition report_parameter_value ::
  "'k sink_push \<Rightarrow> fold_walk \<Rightarrow> nat \<Rightarrow> octets \<Rightarrow> 'k env \<Rightarrow> fold_walk \<times> 'k env" where
  "report_parameter_value push' w from' bytes env =
     (let (x, w1, env1) = report_piece push' w from' bytes env;
          unquoted = unquote_parameter bytes;
          env2 = (case quoting_diagnostic_code (unq_quoting unquoted) of
                    Some code \<Rightarrow>
                      report_extent push'
                        \<lparr>ex_start = ex_start x, ex_end = sat_add u64_max (ex_start x) 1\<rparr>
                        code Violation env1
                  | None \<Rightarrow> env1);
          env3 = (if undefined_caret_escapes (unq_value unquoted)
                  then report_extent push' x (Reading UndefinedCaretEscape) Note env2
                  else env2)
      in (w1, env3))"

definition report_parameter ::
  "'k sink_push \<Rightarrow> fold_walk \<Rightarrow> nat \<Rightarrow> parameter \<Rightarrow> 'k env \<Rightarrow> nat \<times> fold_walk \<times> 'k env" where
  "report_parameter push' w at entry env =
     (let name = pm_name entry;
          from' = at + 1;
          (x, w1, env1) = report_piece push' w from' name env;
          after = from' + length name
      in if \<not> pm_has_value entry
         then (after, w1, report_extent push' x (Reading ParameterWithoutValue) Violation env1)
         else let v = pm_value entry;
                  value_at = after + 1;
                  (w2, env2) = report_parameter_value push' w1 value_at v env1
              in (value_at + length v, w2, env2))"

section \<open>The builder's state\<close>

record pending_line =
  pl_name :: octets
  pl_parameters :: "parameter list"
  pl_value :: octets

definition pending_empty :: pending_line where
  "pending_empty = \<lparr>pl_name = [], pl_parameters = [], pl_value = []\<rparr>"

definition pending_is_empty :: "pending_line \<Rightarrow> bool" where
  "pending_is_empty l \<longleftrightarrow> pl_name l = [] \<and> pl_parameters l = [] \<and> pl_value l = []"

definition unfolded_len :: "pending_line \<Rightarrow> bool \<Rightarrow> nat" where
  "unfolded_len l has_separator =
     (let total = length (pl_name l);
          total = fold (\<lambda>entry total.
                     let total = total + 1 + length (pm_name entry) in
                     if pm_has_value entry then total + 1 + length (pm_value entry) else total)
                   (pl_parameters l) total;
          total = (if has_separator then total + 1 else total)
      in total + length (pl_value l))"

record opened_component =
  op_begin :: boundary
  op_items :: "item list"
  op_extent :: extent

record tree_builder =
  tb_root :: "item list"
  tb_open :: "opened_component list"
  tb_pending :: pending_line
  tb_line_start :: nat

definition tree_builder_default :: tree_builder where
  "tree_builder_default =
     \<lparr>tb_root = [], tb_open = [], tb_pending = pending_empty, tb_line_start = 0\<rparr>"

section \<open>Taking tokens\<close>

fun charge_folds :: "fold_point list \<Rightarrow> meter \<Rightarrow> parse_error charged" where
  "charge_folds [] m = (Inr (), m)"
| "charge_folds (point # rest) m =
     (let cost = sat_add u64_max (as_units (written_len (fold_newline point))) 1 in
      and_then (charge_bytes m cost) (\<lambda>_ m. charge_folds rest m))"

definition take_name :: "tree_builder \<Rightarrow> octets \<Rightarrow> meter \<Rightarrow> (parse_error + tree_builder) \<times> meter" where
  "take_name tb bytes m =
     and_then (charge_bytes m (as_units (length bytes))) (\<lambda>_ m.
       (Inr (tb\<lparr>tb_pending := (tb_pending tb)\<lparr>pl_name := bytes\<rparr>\<rparr>), m))"

definition take_parameter ::
  "tree_builder \<Rightarrow> octets \<Rightarrow> octets \<Rightarrow> bool \<Rightarrow> meter \<Rightarrow> (parse_error + tree_builder) \<times> meter" where
  "take_parameter tb name v has_value m =
     and_then (charge_bytes m (as_units (length name))) (\<lambda>_ m.
     and_then (charge_bytes m (as_units (length v))) (\<lambda>_ m.
       let stored = (if has_value then parameter_new name v else parameter_without_value name);
           l = tb_pending tb
       in (Inr (tb\<lparr>tb_pending := l\<lparr>pl_parameters := pl_parameters l @ [stored]\<rparr>\<rparr>), m)))"

definition take_value :: "tree_builder \<Rightarrow> octets \<Rightarrow> meter \<Rightarrow> (parse_error + tree_builder) \<times> meter" where
  "take_value tb bytes m =
     (let limit = max_value_bytes (m_limits m);
          l = tb_pending tb;
          grown = length (pl_value l) + length bytes
      in if limit < as_units grown then (Inl (ValueTooLarge limit), m)
         else and_then (charge_bytes m (as_units (length bytes))) (\<lambda>_ m.
                (Inr (tb\<lparr>tb_pending := l\<lparr>pl_value := pl_value l @ bytes\<rparr>\<rparr>), m)))"

section \<open>Finishing a line\<close>

definition measure_line :: "tree_builder \<Rightarrow> line_layout \<Rightarrow> extent" where
  "measure_line tb layout =
     (let unfolded = unfolded_len (tb_pending tb) (lay_has_separator layout);
          e = sat_add u64_max (tb_line_start tb) (as_units unfolded);
          e = fold (\<lambda>point e. sat_add u64_max (sat_add u64_max e
                      (as_units (written_len (fold_newline point)))) 1) (lay_folds layout) e;
          e = (case lay_ending layout of
                 Some ending \<Rightarrow> sat_add u64_max e (as_units (written_len ending))
               | None \<Rightarrow> e)
      in \<lparr>ex_start = tb_line_start tb, ex_end = e\<rparr>)"

fun report_fold_terminators ::
  "'k sink_push \<Rightarrow> nat \<Rightarrow> nat \<Rightarrow> fold_point list \<Rightarrow> 'k env \<Rightarrow> 'k env" where
  "report_fold_terminators push' line_start carried [] env = env"
| "report_fold_terminators push' line_start carried (point # rest) env =
     (let mark = sat_add u64_max (sat_add u64_max line_start (fold_offset point)) carried;
          env' = (case terminator_code (fold_newline point) of
                    Some code \<Rightarrow>
                      report push' (diagnostic_new code Violation (location_at_offset mark)) env
                  | None \<Rightarrow> env);
          carried' = sat_add u64_max (sat_add u64_max carried
                       (as_units (written_len (fold_newline point)))) 1
      in report_fold_terminators push' line_start carried' rest env')"

definition report_terminators ::
  "'k sink_push \<Rightarrow> tree_builder \<Rightarrow> line_layout \<Rightarrow> extent \<Rightarrow> 'k env \<Rightarrow> 'k env" where
  "report_terminators push' tb layout x env =
     (let env1 = report_fold_terminators push' (tb_line_start tb) 0 (lay_folds layout) env in
      case lay_ending layout of
        None \<Rightarrow>
          report push' (diagnostic_new (Reading MissingFinalLineBreak) Violation (extent_location x)) env1
      | Some ending \<Rightarrow>
          (case terminator_code ending of
             Some code \<Rightarrow>
               let mark = ex_end x - as_units (written_len ending)
               in report push' (diagnostic_new code Violation (location_at_offset mark)) env1
           | None \<Rightarrow> env1))"

text \<open>\<open>usize::clamp\<close>, on a range that does not run backwards.\<close>

definition clamp :: "nat \<Rightarrow> nat \<Rightarrow> nat \<Rightarrow> nat" where
  "clamp x lo hi = (if x < lo then lo else if hi < x then hi else x)"

fun report_fold_widths ::
  "'k sink_push \<Rightarrow> nat \<Rightarrow> nat \<Rightarrow> nat \<Rightarrow> nat \<Rightarrow> fold_point list \<Rightarrow> 'k env \<Rightarrow> 'k env" where
  "report_fold_widths push' unfolded start from' indent [] env =
     (let width = indent + (unfolded - from') in report_overlong_line push' start width env)"
| "report_fold_widths push' unfolded start from' indent (point # rest) env =
     (let at = clamp (fold_offset point) from' unfolded;
          width = indent + (at - from');
          env' = report_overlong_line push' start width env;
          start' = sat_add u64_max (sat_add u64_max start (as_units width))
                     (as_units (written_len (fold_newline point)))
      in report_fold_widths push' unfolded start' at 1 rest env')"

definition report_widths :: "'k sink_push \<Rightarrow> tree_builder \<Rightarrow> line_layout \<Rightarrow> 'k env \<Rightarrow> 'k env" where
  "report_widths push' tb layout env =
     (let unfolded = unfolded_len (tb_pending tb) (lay_has_separator layout)
      in report_fold_widths push' unfolded (tb_line_start tb) 0 0 (lay_folds layout) env)"

fun report_parameters ::
  "'k sink_push \<Rightarrow> fold_walk \<Rightarrow> nat \<Rightarrow> parameter list \<Rightarrow> 'k env \<Rightarrow> nat \<times> fold_walk \<times> 'k env" where
  "report_parameters push' w at [] env = (at, w, env)"
| "report_parameters push' w at (entry # rest) env =
     (case report_parameter push' w at entry env of
        (at', w', env') \<Rightarrow> report_parameters push' w' at' rest env')"

definition report_text :: "'k sink_push \<Rightarrow> tree_builder \<Rightarrow> line_layout \<Rightarrow> 'k env \<Rightarrow> 'k env" where
  "report_text push' tb layout env =
     (let w = fold_walk_new (lay_folds layout) (tb_line_start tb);
          name = pl_name (tb_pending tb);
          (_, w1, env1) = report_piece push' w 0 name env;
          (at, w2, env2) = report_parameters push' w1 (length name) (pl_parameters (tb_pending tb)) env1;
          at' = (if lay_has_separator layout then at + 1 else at);
          (_, _, env3) = report_piece push' w2 at' (pl_value (tb_pending tb)) env2
      in env3)"

definition classify :: "tree_builder \<Rightarrow> line_layout \<Rightarrow> line_kind" where
  "classify tb layout =
     (if pl_name (tb_pending tb) = [] then KProperty (Some (Reading EmptyPropertyName))
      else if \<not> lay_has_separator layout then KProperty (Some (Reading MissingValueSeparator))
      else case boundary_kind (pl_name (tb_pending tb)) of
             None \<Rightarrow> KProperty None
           | Some kind \<Rightarrow>
               if pl_parameters (tb_pending tb) = [] then kind
               else KProperty (Some (Reading ParametersOnComponentBoundary)))"

definition push_item :: "tree_builder \<Rightarrow> item \<Rightarrow> tree_builder" where
  "push_item tb i =
     (case tb_open tb of
        opened # below \<Rightarrow> tb\<lparr>tb_open := opened\<lparr>op_items := op_items opened @ [i]\<rparr> # below\<rparr>
      | [] \<Rightarrow> tb\<lparr>tb_root := tb_root tb @ [i]\<rparr>)"

definition store_property ::
  "tree_builder \<Rightarrow> line_layout \<Rightarrow> meter \<Rightarrow> (parse_error + tree_builder) \<times> meter" where
  "store_property tb layout m =
     and_then (charge_item m) (\<lambda>_ m.
       let l = tb_pending tb;
           tb' = tb\<lparr>tb_pending := pending_empty\<rparr>;
           p = property_new (pl_name l) (pl_parameters l) (pl_value l) layout
       in (Inr (push_item tb' (IProperty p)), m))"

definition open_component ::
  "tree_builder \<Rightarrow> line_layout \<Rightarrow> extent \<Rightarrow> meter \<Rightarrow> (parse_error + tree_builder) \<times> meter" where
  "open_component tb layout x m =
     and_then (charge_item m) (\<lambda>_ m.
     and_then (enter m) (\<lambda>_ m.
       let l = tb_pending tb;
           b = \<lparr>b_keyword = pl_name l, b_name = pl_value l, b_layout = layout\<rparr>
       in (Inr (tb\<lparr>tb_pending := pending_empty,
                   tb_open := \<lparr>op_begin = b, op_items = [], op_extent = x\<rparr> # tb_open tb\<rparr>), m)))"

definition close_open :: "tree_builder \<Rightarrow> line_layout \<Rightarrow> meter \<Rightarrow> tree_builder \<times> meter" where
  "close_open tb layout m =
     (case tb_open tb of
        [] \<Rightarrow> (tb, m)
      | opened # below \<Rightarrow>
          let m' = leave m;
              l = tb_pending tb;
              e = \<lparr>b_keyword = pl_name l, b_name = pl_value l, b_layout = layout\<rparr>;
              c = Component (op_begin opened) (op_items opened) (Some e)
          in (push_item (tb\<lparr>tb_open := below, tb_pending := pending_empty\<rparr>) (IComponent c), m'))"

definition close_component ::
  "tree_builder \<Rightarrow> line_layout \<Rightarrow> meter
     \<Rightarrow> (parse_error + diagnostic_code option \<times> tree_builder) \<times> meter" where
  "close_component tb layout m =
     (let closes = (case tb_open tb of
                      [] \<Rightarrow> None
                    | opened # _ \<Rightarrow> Some (eq_name (b_name (op_begin opened)) (pl_value (tb_pending tb))))
      in case closes of
           None \<Rightarrow> and_then (store_property tb layout m) (\<lambda>tb m.
                     (Inr (Some (Reading UnmatchedEnd), tb), m))
         | Some False \<Rightarrow> and_then (store_property tb layout m) (\<lambda>tb m.
                     (Inr (Some (Reading MismatchedEndName), tb), m))
         | Some True \<Rightarrow> (case close_open tb layout m of (tb', m') \<Rightarrow> (Inr (None, tb'), m')))"

definition apply_kind ::
  "tree_builder \<Rightarrow> line_kind \<Rightarrow> line_layout \<Rightarrow> extent \<Rightarrow> meter
     \<Rightarrow> (parse_error + diagnostic_code option \<times> tree_builder) \<times> meter" where
  "apply_kind tb kind layout x m =
     (case kind of
        KProperty code \<Rightarrow> and_then (store_property tb layout m) (\<lambda>tb m. (Inr (code, tb), m))
      | KBegin \<Rightarrow> and_then (open_component tb layout x m) (\<lambda>tb m. (Inr (None, tb), m))
      | KEnd \<Rightarrow> close_component tb layout m)"

definition finish_line ::
  "'k sink_push \<Rightarrow> tree_builder \<Rightarrow> line_layout \<Rightarrow> 'k env \<Rightarrow> (parse_error + tree_builder) \<times> 'k env" where
  "finish_line push' tb layout env =
     (let x = measure_line tb layout;
          env1 = report_terminators push' tb layout x env;
          env2 = report_widths push' tb layout env1;
          (k, m) = report_text push' tb layout env2;
          kind = classify tb layout
      in case apply_kind tb kind layout x m of
           (Inl e, m') \<Rightarrow> (Inl e, (k, m'))
         | (Inr (code, tb'), m') \<Rightarrow>
             let env3 = (case code of
                           Some c \<Rightarrow> report push' (diagnostic_new c Violation (extent_location x)) (k, m')
                         | None \<Rightarrow> (k, m'))
             in (Inr (tb'\<lparr>tb_line_start := ex_end x\<rparr>), env3))"

section \<open>Reading a document\<close>

definition take_token ::
  "'k sink_push \<Rightarrow> tree_builder \<Rightarrow> token \<Rightarrow> 'k env \<Rightarrow> (parse_error + tree_builder) \<times> 'k env" where
  "take_token push' tb t env =
     (case t of
        TName bytes \<Rightarrow> with_sink (fst env) (take_name tb bytes (snd env))
      | TParameter name v has_value \<Rightarrow>
          with_sink (fst env) (take_parameter tb name v has_value (snd env))
      | TValue bytes _ \<Rightarrow> with_sink (fst env) (take_value tb bytes (snd env))
      | TEndOfLine folds ending has_separator \<Rightarrow>
          and_then (with_sink (fst env) (charge_folds folds (snd env))) (\<lambda>_ env.
            let layout = layout_preserved folds ending has_separator
            in finish_line push' tb layout env))"

partial_function (option) read_loop ::
  "'s token_pull \<Rightarrow> 'k sink_push \<Rightarrow> 's \<Rightarrow> tree_builder \<Rightarrow> 'k env
     \<Rightarrow> ((parse_error + tree_builder) \<times> 's \<times> 'k env) option" where
  "read_loop pull push' s tb env =
     (case pull s of
        (None, s') \<Rightarrow> Some (Inr tb, s', env)
      | (Some (Inl e), s') \<Rightarrow> Some (Inl e, s', env)
      | (Some (Inr t), s') \<Rightarrow>
          (case take_token push' tb t env of
             (Inl e, env') \<Rightarrow> Some (Inl e, s', env')
           | (Inr tb', env') \<Rightarrow> read_loop pull push' s' tb' env'))"

function close_unclosed :: "'k sink_push \<Rightarrow> tree_builder \<Rightarrow> 'k env \<Rightarrow> tree_builder \<times> 'k env" where
  "close_unclosed push' tb env =
     (case tb_open tb of
        [] \<Rightarrow> (tb, env)
      | opened # below \<Rightarrow>
          let env1 = (fst env, leave (snd env));
              env2 = report push' (diagnostic_new (Reading UnclosedComponent) Violation
                       (extent_location (op_extent opened))) env1;
              c = Component (op_begin opened) (op_items opened) None
          in close_unclosed push' (push_item (tb\<lparr>tb_open := below\<rparr>) (IComponent c)) env2)"
  by pat_completeness auto
termination
  by (relation "measure (\<lambda>(p, tb, env). length (tb_open tb))")
     (auto simp: push_item_def split: list.splits)

declare close_unclosed.simps [simp del]

definition into_items ::
  "'k sink_push \<Rightarrow> tree_builder \<Rightarrow> 'k env \<Rightarrow> (parse_error + item list) \<times> 'k env" where
  "into_items push' tb env =
     and_then
       (if \<not> pending_is_empty (tb_pending tb)
        then let separated = (pl_value (tb_pending tb) \<noteq> []);
                 layout = layout_preserved [] None separated
             in finish_line push' tb layout env
        else (Inr tb, env))
       (\<lambda>tb env. case close_unclosed push' tb env of (tb', env') \<Rightarrow> (Inr (tb_root tb'), env'))"

definition tree_read ::
  "'s token_pull \<Rightarrow> 'k sink_push \<Rightarrow> 's \<Rightarrow> 'k env
     \<Rightarrow> ((parse_error + item list) \<times> 's \<times> 'k env) option" where
  "tree_read pull push' s env =
     (case read_loop pull push' s tree_builder_default env of
        None \<Rightarrow> None
      | Some (Inl e, s', env') \<Rightarrow> Some (Inl e, s', env')
      | Some (Inr tb, s', env') \<Rightarrow>
          (case into_items push' tb env' of (r, env'') \<Rightarrow> Some (r, s', env'')))"

definition from_tokens ::
  "'s token_pull \<Rightarrow> 'k sink_push \<Rightarrow> 's \<Rightarrow> 'k env
     \<Rightarrow> ((parse_error + document) \<times> 's \<times> 'k env) option" where
  "from_tokens pull push' s env =
     (case tree_read pull push' s env of
        None \<Rightarrow> None
      | Some (Inl e, s', env') \<Rightarrow> Some (Inl e, s', env')
      | Some (Inr is, s', env') \<Rightarrow> Some (Inr \<lparr>doc_items = is\<rparr>, s', env'))"

definition parse_document ::
  "'k sink_push \<Rightarrow> octets \<Rightarrow> limits \<Rightarrow> 'k \<Rightarrow> ((parse_error + document) \<times> reader \<times> 'k env) option" where
  "parse_document push' input limits k =
     (let m = meter_new limits;
          reader = reader_new input (grammar limits)
      in from_tokens next_token push' reader (k, m))"

end
