(* ===== verification/Round_Trip.thy ===== *)
theory Round_Trip
  imports Parse
begin

text \<open>
  What reading a document gives: the tree builder over any source of lines, the document it
  returns, and what the writer puts back.  The lines a builder has finished, outermost component
  first, are compared with the octets its tokens stand for.
\<close>

section \<open>The lines a builder holds\<close>

definition open_lines :: "opened_component list \<Rightarrow> line list" where
  "open_lines os = concat (map (\<lambda>o'. LBoundary (op_begin o') # items_lines (op_items o')) (rev os))"

definition builder_lines :: "tree_builder \<Rightarrow> line list" where
  "builder_lines tb = items_lines (tb_root tb) @ open_lines (tb_open tb)"

lemma open_lines_simps [simp]:
  "open_lines [] = []"
  "open_lines (o' # os) = open_lines os @ LBoundary (op_begin o') # items_lines (op_items o')"
  by (simp_all add: open_lines_def)

lemma push_item_frame [simp]:
  "tb_pending (push_item tb i) = tb_pending tb" "tb_line_start (push_item tb i) = tb_line_start tb"
  "length (tb_open (push_item tb i)) = length (tb_open tb)"
  by (simp_all add: push_item_def split: list.splits)

lemma builder_lines_push_item [simp]:
  "builder_lines (push_item tb i) = builder_lines tb @ item_lines i"
  by (cases "tb_open tb") (simp_all add: builder_lines_def push_item_def)

lemma builder_lines_frame [simp]:
  "builder_lines (tb\<lparr>tb_pending := l\<rparr>) = builder_lines tb"
  "builder_lines (tb\<lparr>tb_line_start := n\<rparr>) = builder_lines tb"
  by (simp_all add: builder_lines_def)

text \<open>The line the pending octets make under a layout.\<close>

definition pending_text :: "pending_line \<Rightarrow> octets" where
  "pending_text l = pl_name l @ parameters_text (pl_parameters l)"

definition finished_line :: "pending_line \<Rightarrow> line_layout \<Rightarrow> line \<Rightarrow> bool" where
  "finished_line l layout x \<longleftrightarrow> line_layout_of x = layout
     \<and> line_text x = pending_text l @ (if lay_has_separator layout then [0x3A] else []) @ pl_value l"

lemma store_property_lines:
  assumes "store_property tb layout m = (Inr tb', m')"
  shows "tb_pending tb' = pending_empty
    \<and> (\<exists>x. finished_line (tb_pending tb) layout x \<and> builder_lines tb' = builder_lines tb @ [x])"
  using assms
  by (auto simp: store_property_def Let_def finished_line_def pending_text_def property_new_def
      elim!: and_then_InrE)

lemma open_component_lines:
  assumes "open_component tb layout x m = (Inr tb', m')" and "pl_parameters (tb_pending tb) = []"
  shows "tb_pending tb' = pending_empty
    \<and> (\<exists>x. finished_line (tb_pending tb) layout x \<and> builder_lines tb' = builder_lines tb @ [x])"
  using assms
  by (auto simp: open_component_def Let_def finished_line_def pending_text_def parameters_text_def
      builder_lines_def elim!: and_then_InrE)

lemma close_component_lines:
  assumes "close_component tb layout m = (Inr (code, tb'), m')" and "pl_parameters (tb_pending tb) = []"
  shows "tb_pending tb' = pending_empty
    \<and> (\<exists>x. finished_line (tb_pending tb) layout x \<and> builder_lines tb' = builder_lines tb @ [x])"
proof (cases "tb_open tb")
  case Nil
  then show ?thesis
    using assms by (auto simp: close_component_def dest!: store_property_lines elim!: and_then_InrE)
next
  case (Cons opened below)
  let ?e = "\<lparr>b_keyword = pl_name (tb_pending tb), b_name = pl_value (tb_pending tb), b_layout = layout\<rparr>"
  show ?thesis
  proof (cases "eq_name (b_name (op_begin opened)) (pl_value (tb_pending tb))")
    case False
    then show ?thesis
      using assms Cons by (auto simp: close_component_def dest!: store_property_lines elim!: and_then_InrE)
  next
    case True
    then have "tb' = fst (close_open tb layout m)"
      using assms Cons by (auto simp: close_component_def split: prod.splits)
    then have "tb_pending tb' = pending_empty" "builder_lines tb' = builder_lines tb @ [LBoundary ?e]"
      using Cons by (simp_all add: close_open_def Let_def)
        (simp add: builder_lines_def items_lines_def)
    then show ?thesis
      using assms(2)
      by (auto simp: finished_line_def pending_text_def parameters_text_def intro!: exI [of _ "LBoundary ?e"])
  qed
qed

lemma finish_line_lines:
  assumes "finish_line push' tb layout env = (Inr tb', env')"
  shows "tb_pending tb' = pending_empty
    \<and> (\<exists>x. finished_line (tb_pending tb) layout x \<and> builder_lines tb' = builder_lines tb @ [x])"
proof -
  obtain x m code tb1 m' where a: "apply_kind tb (classify tb layout) layout x m = (Inr (code, tb1), m')"
    and tb': "tb' = tb1\<lparr>tb_line_start := ex_end x\<rparr>"
    using assms by (auto simp: finish_line_def Let_def split: prod.splits sum.splits)
  have "pl_parameters (tb_pending tb) = []" if "classify tb layout \<in> {KBegin, KEnd}"
    using that by (auto simp: classify_def split: if_splits option.splits)
  then have "tb_pending tb1 = pending_empty
    \<and> (\<exists>x. finished_line (tb_pending tb) layout x \<and> builder_lines tb1 = builder_lines tb @ [x])"
    using a store_property_lines open_component_lines close_component_lines
    by (cases "classify tb layout") (fastforce simp: apply_kind_def elim!: and_then_InrE)+
  then show ?thesis by (simp add: tb')
qed

section \<open>The tokens a builder has taken\<close>

text \<open>
  What ties a builder to the tokens it has taken: its finished lines are what is rendered, its
  pending line is the header and value so far.
\<close>

definition built :: "token list \<Rightarrow> tree_builder \<Rightarrow> bool" where
  "built toks tb \<longleftrightarrow>
     list_all line_preserved (builder_lines tb)
   \<and> (case foldl render_step ([], [], []) toks of (written, h, v) \<Rightarrow>
        concat (map line_octets (builder_lines tb)) = written
      \<and> (case tidy toks of
           Some (Within k) \<Rightarrow> pending_text (tb_pending tb) = h \<and> pl_value (tb_pending tb) = v
             \<and> k = length h + length v
         | _ \<Rightarrow> tb_pending tb = pending_empty))
   \<and> (\<forall>l \<in> set (butlast (builder_lines tb)). lay_ending (line_layout_of l) \<noteq> None)
   \<and> (tidy toks \<noteq> Some Closed \<longrightarrow>
        (\<forall>l \<in> set (builder_lines tb). lay_ending (line_layout_of l) \<noteq> None))"

lemma pending_text_empty [simp]: "pending_text pending_empty = []"
  by (simp add: pending_text_def pending_empty_def parameters_text_def)

lemma parameters_text_snoc [simp]: "parameters_text (ps @ [p]) = parameters_text ps @ parameter_text p"
  by (simp add: parameters_text_def)

lemma built_default: "built [] tree_builder_default"
  by (simp add: built_def tree_builder_default_def builder_lines_def)

lemma built_end_of_line:
  assumes b: "built toks tb" and t: "tidy (toks @ [TEndOfLine folds e sep]) \<noteq> None"
    and f: "finish_line push' tb (layout_preserved folds e sep) env = (Inr tb', env')"
  shows "built (toks @ [TEndOfLine folds e sep]) tb'"
proof -
  let ?l = "layout_preserved folds e sep"
  obtain w h v where r: "foldl render_step ([], [], []) toks = (w, h, v)" by (metis prod_cases3)
  obtain k where k: "tidy toks = Some (Within k)"
    and folds: "\<forall>f \<in> set folds. fold_offset f \<le> k + (if sep then 1 else 0)"
    using t by (auto simp: tidy_step_iff)
  obtain x where x: "finished_line (tb_pending tb) ?l x" "builder_lines tb' = builder_lines tb @ [x]"
    and p: "tb_pending tb' = pending_empty"
    using finish_line_lines [OF f] by blast
  have lay: "line_layout_of x = ?l" and tx: "line_text x = h @ (if sep then [0x3A] else []) @ v"
    using x(1) b r k by (auto simp: finished_line_def built_def layout_preserved_def)
  have "line_preserved x"
    using folds b r k lay tx by (auto simp: line_preserved_def layout_preserved_def built_def)
  moreover have "line_octets x = weave 0 (h @ (if sep then [0x3A] else []) @ v) folds @ ending_bytes e"
    using lay tx by (simp add: line_octets_def layout_preserved_def)
  ultimately show ?thesis
    using b r k x p lay folds by (auto simp: built_def layout_preserved_def butlast_append)
qed

lemma with_sink_Inr [simp]:
  "with_sink k r = (Inr y, env') \<longleftrightarrow> (\<exists>m'. r = (Inr y, m') \<and> env' = (k, m'))"
  by (cases r) (auto simp: with_sink_def)

lemma built_take_token:
  assumes b: "built toks tb" and tn: "tidy (toks @ [t]) \<noteq> None"
    and k: "take_token push' tb t env = (Inr tb', env')"
  shows "built (toks @ [t]) tb'"
proof (cases t)
  case (TName n)
  then have "tidy toks = Some Between" using tn by (auto simp: tidy_step_iff)
  moreover have "tb' = tb\<lparr>tb_pending := (tb_pending tb)\<lparr>pl_name := n\<rparr>\<rparr>"
    using k TName by (auto simp: take_token_def take_name_def elim!: and_then_InrE)
  ultimately show ?thesis
    using b TName
    by (auto simp: built_def pending_text_def pending_empty_def parameters_text_def split: prod.splits)
next
  case (TParameter n x hv)
  then obtain j where "tidy toks = Some (Within j)" using tn by (auto simp: tidy_step_iff)
  moreover have "tb' = tb\<lparr>tb_pending := (tb_pending tb)\<lparr>pl_parameters := pl_parameters (tb_pending tb)
      @ [if hv then parameter_new n x else parameter_without_value n]\<rparr>\<rparr>"
    using k TParameter by (auto simp: take_token_def take_parameter_def Let_def elim!: and_then_InrE)
  ultimately show ?thesis
    using b tn TParameter
    by (auto simp: built_def pending_text_def parameter_text_def parameter_new_def
        parameter_without_value_def split: prod.splits if_splits)
next
  case (TValue bs more')
  then obtain j where "tidy toks = Some (Within j)" using tn by (auto simp: tidy_step_iff)
  moreover have "tb' = tb\<lparr>tb_pending := (tb_pending tb)\<lparr>pl_value := pl_value (tb_pending tb) @ bs\<rparr>\<rparr>"
    using k TValue by (auto simp: take_token_def take_value_def Let_def elim!: and_then_InrE split: if_splits)
  ultimately show ?thesis
    using b TValue by (auto simp: built_def pending_text_def split: prod.splits)
next
  case (TEndOfLine folds e sep)
  then obtain env1 where "finish_line push' tb (layout_preserved folds e sep) env1 = (Inr tb', env')"
    using k by (auto simp: take_token_def Let_def elim!: and_then_InrE)
  from built_end_of_line [OF b tn [unfolded TEndOfLine] this] show ?thesis by (simp add: TEndOfLine)
qed

lemma close_unclosed_lines:
  "close_unclosed push' tb env = (tb', env') \<Longrightarrow>
     builder_lines tb' = builder_lines tb \<and> tb_open tb' = []"
proof (induction push' tb env rule: close_unclosed.induct)
  case (1 push' tb env)
  show ?case
  proof (cases "tb_open tb")
    case Nil
    then show ?thesis using 1(2) by (simp add: close_unclosed.simps [of push' tb env])
  next
    case (Cons opened below)
    let ?c = "Component (op_begin opened) (op_items opened) None"
    have "builder_lines (push_item (tb\<lparr>tb_open := below\<rparr>) (IComponent ?c)) = builder_lines tb"
      using Cons by simp (simp add: builder_lines_def items_lines_def)
    then show ?thesis
      using 1(1) [OF Cons refl refl refl] 1(2) Cons
      by (simp add: close_unclosed.simps [of push' tb env] Let_def)
  qed
qed

lemma built_into_items:
  assumes b: "built toks tb" and t: "tidy toks \<in> {Some Between, Some Closed}"
    and r: "into_items push' tb env = (Inr items, env')"
  shows "to_bytes \<lparr>doc_items = items\<rparr> = render_tokens toks"
proof -
  have "tb_pending tb = pending_empty" using b t by (auto simp: built_def split: prod.splits)
  then have "pending_is_empty (tb_pending tb)" by (simp add: pending_is_empty_def pending_empty_def)
  then obtain tb' where "close_unclosed push' tb env = (tb', env')" and is_root: "items = tb_root tb'"
    using r by (auto simp: into_items_def split: prod.splits)
  from close_unclosed_lines [OF this(1)]
  have ls: "items_lines items = builder_lines tb" by (auto simp: is_root builder_lines_def [of tb'])
  have "to_bytes \<lparr>doc_items = items\<rparr> = lines_octets False (items_lines items)"
    using b to_bytes_preserved [of "\<lparr>doc_items = items\<rparr>"] by (simp add: ls built_def)
  also have "\<dots> = concat (map line_octets (items_lines items))"
    using b by (intro lines_octets_concat) (simp add: ls built_def)
  also have "\<dots> = render_tokens toks"
    using b by (auto simp: ls built_def render_tokens_def split: prod.splits)
  finally show ?thesis .
qed

section \<open>Reading from a source\<close>

context token_source
begin

lemma read_loop_returns: "\<exists>r. read_loop pull push' s tb env = Some r"
proof (induction s arbitrary: tb env rule: wf_induct_rule [OF well_founded])
  case (1 s)
  obtain a s' where p: "pull s = (a, s')" by fastforce
  show ?case
  proof (cases a)
    case None
    then show ?thesis using p by (simp add: read_loop.simps [of pull push' s])
  next
    case (Some x)
    then show ?thesis
      using p 1 [OF token_descends]
      by (cases x) (auto simp: read_loop.simps [of pull push' s] split: prod.splits sum.splits)
  qed
qed

lemma from_tokens_returns: "\<exists>r. from_tokens pull push' s env = Some r"
  using read_loop_returns [of push' s tree_builder_default env]
  by (auto simp: from_tokens_def tree_read_def split: prod.splits sum.splits option.splits)

text \<open>
  What holds of source, tokens and builder at the start holds when the source is drained; and a
  failed read stops on a token or on an error of the source, at a moment where it held.
\<close>

lemma read_loop_invariant:
  assumes "read_loop pull push' s tb env = Some (r, s'', env'')" and "Q s acc tb env"
    and "\<And>s t s' acc tb env tb' env'. Q s acc tb env \<Longrightarrow> pull s = (Some (Inr t), s') \<Longrightarrow>
      take_token push' tb t env = (Inr tb', env') \<Longrightarrow> Q s' (acc @ [t]) tb' env'"
  shows "\<exists>s acc tb env. Q s acc tb env \<and>
    (case r of
       Inr tb' \<Rightarrow> fst (pull s) = None \<and> tb' = tb \<and> env'' = env
     | Inl e \<Rightarrow> fst (pull s) = Some (Inl e)
         \<or> (\<exists>t s'. pull s = (Some (Inr t), s') \<and> take_token push' tb t env = (Inl e, env'')))"
  using assms(1,2)
proof (induction s arbitrary: acc tb env rule: wf_induct_rule [OF well_founded])
  case (1 s)
  note Q = 1(3) and loop = 1(2)
  obtain a s' where p: "pull s = (a, s')" by fastforce
  consider "a = None" | e where "a = Some (Inl e)" | t where "a = Some (Inr t)"
    by (metis obj_sumE option.exhaust)
  then show ?case
  proof cases
    case 1
    then have "r = Inr tb" "env'' = env" using loop p by (auto simp: read_loop.simps [of pull push' s])
    then show ?thesis using Q p 1 by (intro exI [of _ s] exI [of _ acc] exI [of _ tb] exI [of _ env]) simp
  next
    case (2 e)
    then have "r = Inl e" using loop p by (auto simp: read_loop.simps [of pull push' s])
    then show ?thesis using Q p 2 by (intro exI [of _ s] exI [of _ acc] exI [of _ tb] exI [of _ env]) simp
  next
    case (3 t)
    obtain y env1 where k: "take_token push' tb t env = (y, env1)" by (cases "take_token push' tb t env")
    show ?thesis
    proof (cases y)
      case (Inl e)
      then have "r = Inl e" "env'' = env1"
        using loop p 3 k by (auto simp: read_loop.simps [of pull push' s])
      then show ?thesis using Q p 3 k Inl by (intro exI [of _ s] exI [of _ acc] exI [of _ tb] exI [of _ env]) simp
    next
      case (Inr tb1)
      then have "read_loop pull push' s' tb1 env1 = Some (r, s'', env'')"
        using loop p 3 k by (simp add: read_loop.simps [of pull push' s])
      then show ?thesis
        using 1(1) [OF token_descends] p 3 assms(3) [OF Q] k Inr by blast
    qed
  qed
qed

end

context line_source
begin

lemma from_tokens_round_trip:
  assumes "from_tokens pull push' s env = Some (Inr doc, s', env')" and "reads s []"
  shows "to_bytes doc = content"
proof -
  obtain tb env1 where l: "read_loop pull push' s tree_builder_default env = Some (Inr tb, s', env1)"
    and i: "into_items push' tb env1 = (Inr (doc_items doc), env')"
    using assms(1)
    by (auto simp: from_tokens_def tree_read_def split: option.splits prod.splits sum.splits)
  let ?Q = "\<lambda>s acc tb env. reads s acc \<and> built acc tb"
  have "?Q s' (acc @ [t]) tb' env'"
    if "?Q s acc tb env" "pull s = (Some (Inr t), s')" "take_token push' tb t env = (Inr tb', env')"
    for s t s' acc tb env tb' env'
    using that reads_next reads_tidy built_take_token by blast
  with read_loop_invariant [OF l, of ?Q "[]"] assms(2) built_default
  obtain q acc where "reads q acc" "built acc tb" "fst (pull q) = None" by fastforce
  then show ?thesis using built_into_items [of acc tb push' env1 "doc_items doc" env'] i reads_end by (cases doc) auto
qed

end

end
