(* ===== verification/Parse_Limits.thy ===== *)
theory Parse_Limits
  imports Round_Trip
begin

text \<open>
  What stops a read: the ledger a tree builder charges, compared with the octets its tokens stand
  for.  Every refusal of the builder is one of four bounds, and only for an input that reaches it.
  The diagnostics reported on the way change nothing but the ledger's count of dropped ones.
\<close>

section \<open>What a charge leaves\<close>

definition refused_at :: "limits \<Rightarrow> nat \<Rightarrow> parse_error \<Rightarrow> bool" where
  "refused_at lim n e \<longleftrightarrow>
     (e = InputTooLarge (max_input_bytes lim) \<and> max_input_bytes lim < n)
   \<or> (e = ValueTooLarge (max_value_bytes lim) \<and> max_value_bytes lim < n)
   \<or> (e = TooManyItems (max_items lim) \<and> max_items lim \<le> n)
   \<or> (e = TooDeep (max_component_depth lim) \<and> max_component_depth lim \<le> n)"

lemma refused_at_mono: "refused_at lim n e \<Longrightarrow> n \<le> k \<Longrightarrow> refused_at lim k e"
  by (auto simp: refused_at_def)

lemma as_units_le: "as_units n \<le> n"
  by (simp add: as_units_def)

definition spent_only :: "meter \<Rightarrow> meter \<Rightarrow> bool" where
  "spent_only m m' \<longleftrightarrow> m'\<lparr>m_spent := m_spent m\<rparr> = m"

lemma spent_only_frame:
  "spent_only m m' \<Longrightarrow> m_exhausted m' = m_exhausted m \<and> m_budget m' = m_budget m
     \<and> m_limits m' = m_limits m \<and> m_items m' = m_items m \<and> m_depth m' = m_depth m"
  by (cases m; cases m') (simp add: spent_only_def)

lemma spent_only_trans: "spent_only m m' \<Longrightarrow> spent_only m' m'' \<Longrightarrow> spent_only m m''"
  by (cases m; cases m'; cases m'') (simp add: spent_only_def)

definition octets_charged :: "meter \<Rightarrow> nat \<Rightarrow> (parse_error + 'a) \<times> meter \<Rightarrow> bool" where
  "octets_charged m n r \<longleftrightarrow>
     (case r of
        (Inl e, _) \<Rightarrow> e = InputTooLarge (m_budget m) \<and> m_budget m < m_spent m + n
      | (Inr _, m') \<Rightarrow> spent_only m m' \<and> m_spent m' \<le> m_spent m + n)"

lemma octets_charged_mono: "octets_charged m n r \<Longrightarrow> n \<le> k \<Longrightarrow> octets_charged m k r"
  by (auto simp: octets_charged_def split: prod.splits sum.splits)

lemma charge_bytes_charged: "\<not> m_exhausted m \<Longrightarrow> octets_charged m n (charge_bytes m n)"
  by (auto simp: octets_charged_def charge_bytes_def charge_def spent_only_def Let_def sat_add_def)

lemma octets_charged_then:
  assumes "\<not> m_exhausted m" and "octets_charged m a r"
    and "\<And>x m'. r = (Inr x, m') \<Longrightarrow> \<not> m_exhausted m' \<Longrightarrow> octets_charged m' b (f x m')"
  shows "octets_charged m (a + b) (and_then r f)"
proof (cases r)
  case (Pair y m')
  show ?thesis
  proof (cases y)
    case (Inl e)
    then show ?thesis using Pair assms(2) by (simp add: octets_charged_def)
  next
    case (Inr x)
    then have m': "spent_only m m'" "m_spent m' \<le> m_spent m + a"
      using Pair assms(2) by (simp_all add: octets_charged_def)
    note fr = spent_only_frame [OF m'(1)]
    have "octets_charged m' b (f x m')" using assms(1,3) Pair Inr fr by simp
    then show ?thesis
      using Pair Inr m' fr spent_only_trans [OF m'(1)]
      by (cases "f x m'"; cases "fst (f x m')") (auto simp: octets_charged_def)
  qed
qed

lemma octets_charged_return: "octets_charged m n (Inr x, m)"
  by (simp add: octets_charged_def spent_only_def)

definition folds_len :: "fold_point list \<Rightarrow> nat" where
  "folds_len fs = length (concat (map fold_bytes fs))"

lemma folds_len_simps [simp]:
  "folds_len [] = 0"
  "folds_len (f # fs) = written_len (fold_newline f) + 1 + folds_len fs"
  by (simp_all add: folds_len_def fold_bytes_def written_len_def)

lemma length_weave_exact: "length (weave p cs fs) = length cs + folds_len fs"
  by (induction p cs fs rule: weave.induct) (auto simp: folds_len_def fold_bytes_def)

lemma charge_folds_charged:
  "\<not> m_exhausted m \<Longrightarrow> octets_charged m (folds_len fs) (charge_folds fs m)"
proof (induction fs m rule: charge_folds.induct)
  case (2 f fs m)
  let ?c = "sat_add u64_max (as_units (written_len (fold_newline f))) 1"
  have "?c \<le> written_len (fold_newline f) + 1"
    using as_units_le [of "written_len (fold_newline f)"] by (simp add: sat_add_def)
  then have "octets_charged m (written_len (fold_newline f) + 1) (charge_bytes m ?c)"
    using charge_bytes_charged [OF 2(2)] by (rule octets_charged_mono [rotated])
  from octets_charged_then [OF 2(2) this, of "folds_len fs" "\<lambda>_ m. charge_folds fs m"] show ?case
    using 2(1) [OF refl] by (simp add: Let_def)
qed (simp add: octets_charged_return)

section \<open>What reporting leaves\<close>

text \<open>A ledger up to its count of dropped diagnostics: all that a report may change.\<close>

definition quiet :: "meter \<Rightarrow> meter" where
  "quiet m = m\<lparr>m_dropped := 0\<rparr>"

lemma quiet_frame:
  "m_exhausted (quiet m) = m_exhausted m" "m_budget (quiet m) = m_budget m"
  "m_limits (quiet m) = m_limits m" "m_items (quiet m) = m_items m" "m_depth (quiet m) = m_depth m"
  "m_spent (quiet m) = m_spent m"
  by (simp_all add: quiet_def)

lemma quiet_report [simp]: "quiet (snd (report push' d env)) = quiet (snd env)"
  by (simp add: report_def report_diagnostic_def note_dropped_diagnostic_def quiet_def
      split: prod.splits sink_outcome.splits)

lemma quiet_report_extent [simp]: "quiet (snd (report_extent push' x c sev env)) = quiet (snd env)"
  by (simp add: report_extent_def)

lemma quiet_overlong [simp]: "quiet (snd (report_overlong_line push' s w env)) = quiet (snd env)"
  by (simp add: report_overlong_line_def)

lemma quiet_piece [simp]: "quiet (snd (snd (snd (report_piece push' w n bs env)))) = quiet (snd env)"
  by (simp add: report_piece_def Let_def split: prod.splits)

lemma quiet_parameter_value [simp]:
  "quiet (snd (snd (report_parameter_value push' w n bs env))) = quiet (snd env)"
proof -
  obtain x w1 env1 where p: "report_piece push' w n bs env = (x, w1, env1)" by (metis prod_cases3)
  have "quiet (snd env1) = quiet (snd env)" using quiet_piece [of push' w n bs env] p by simp
  then show ?thesis by (simp add: report_parameter_value_def p Let_def split: option.splits)
qed

lemma quiet_parameter [simp]:
  "quiet (snd (snd (snd (report_parameter push' w n p env)))) = quiet (snd env)"
proof -
  obtain x w1 env1 where p: "report_piece push' w (Suc n) (pm_name p) env = (x, w1, env1)"
    by (metis prod_cases3)
  have "quiet (snd env1) = quiet (snd env)" using quiet_piece [of push' w "Suc n" "pm_name p" env] p by simp
  then show ?thesis by (simp add: report_parameter_def p Let_def split_beta)
qed

lemma quiet_parameters [simp]:
  "quiet (snd (snd (snd (report_parameters push' w n ps env)))) = quiet (snd env)"
proof (induction push' w n ps env rule: report_parameters.induct)
  case (2 push' w at entry rest env)
  obtain a w1 env1 where p: "report_parameter push' w at entry env = (a, w1, env1)" by (metis prod_cases3)
  then show ?case
    using 2 [OF p [symmetric] refl] quiet_parameter [of push' w at entry env] by simp
qed simp

lemma quiet_text [simp]: "quiet (snd (report_text push' tb layout env)) = quiet (snd env)"
proof -
  obtain x w1 env1 where p1: "report_piece push' (fold_walk_new (lay_folds layout) (tb_line_start tb)) 0
      (pl_name (tb_pending tb)) env = (x, w1, env1)" by (metis prod_cases3)
  obtain at w2 env2 where p2: "report_parameters push' w1 (length (pl_name (tb_pending tb)))
      (pl_parameters (tb_pending tb)) env1 = (at, w2, env2)" by (metis prod_cases3)
  have "quiet (snd env1) = quiet (snd env)"
    using quiet_piece [of push' "fold_walk_new (lay_folds layout) (tb_line_start tb)" 0
        "pl_name (tb_pending tb)" env] p1 by simp
  moreover have "quiet (snd env2) = quiet (snd env1)"
    using quiet_parameters [of push' w1 "length (pl_name (tb_pending tb))" "pl_parameters (tb_pending tb)" env1]
      p2 by simp
  ultimately show ?thesis by (simp add: report_text_def Let_def p1 p2 split_beta)
qed

lemma quiet_fold_terminators [simp]:
  "quiet (snd (report_fold_terminators push' s c fs env)) = quiet (snd env)"
  by (induction push' s c fs env rule: report_fold_terminators.induct)
     (simp_all add: Let_def split: option.splits)

lemma quiet_terminators [simp]: "quiet (snd (report_terminators push' tb layout x env)) = quiet (snd env)"
  by (simp add: report_terminators_def Let_def split: option.splits)

lemma quiet_fold_widths [simp]:
  "quiet (snd (report_fold_widths push' u s f i fs env)) = quiet (snd env)"
  by (induction push' u s f i fs env rule: report_fold_widths.induct) (simp_all add: Let_def)

lemma quiet_widths [simp]: "quiet (snd (report_widths push' tb layout env)) = quiet (snd env)"
  by (simp add: report_widths_def Let_def)

text \<open>Finishing a line is applying its kind to the ledger, up to the dropped diagnostics.\<close>

lemma finish_line_applies:
  obtains m where "quiet m = quiet (snd env)"
    "fst (finish_line push' tb layout env)
       = (case fst (apply_kind tb (classify tb layout) layout (measure_line tb layout) m) of
            Inl e \<Rightarrow> Inl e
          | Inr (_, tb') \<Rightarrow> Inr (tb'\<lparr>tb_line_start := ex_end (measure_line tb layout)\<rparr>))"
    "quiet (snd (snd (finish_line push' tb layout env)))
       = quiet (snd (apply_kind tb (classify tb layout) layout (measure_line tb layout) m))"
proof -
  let ?x = "measure_line tb layout"
  obtain k m where t: "report_text push' tb layout (report_widths push' tb layout
      (report_terminators push' tb layout ?x env)) = (k, m)" by fastforce
  have "quiet m = quiet (snd env)"
    using quiet_text [of push' tb layout "report_widths push' tb layout
      (report_terminators push' tb layout ?x env)"] t by simp
  moreover obtain r m' where "apply_kind tb (classify tb layout) layout ?x m = (r, m')" by fastforce
  ultimately show ?thesis
    using that [of m] t
    by (cases r) (auto simp: finish_line_def Let_def split: prod.splits option.splits)
qed

section \<open>The builder's account\<close>

definition accounted :: "limits \<Rightarrow> token list \<Rightarrow> tree_builder \<Rightarrow> meter \<Rightarrow> bool" where
  "accounted lim toks tb m \<longleftrightarrow>
     m_limits m = lim \<and> m_budget m = max_input_bytes lim \<and> \<not> m_exhausted m
   \<and> m_spent m \<le> rendered_len toks
   \<and> m_items m \<le> length (builder_lines tb) \<and> m_depth m \<le> length (builder_lines tb)"

lemma accounted_quiet: "quiet m = quiet m' \<Longrightarrow> accounted lim toks tb m \<longleftrightarrow> accounted lim toks tb m'"
  using quiet_frame [of m] quiet_frame [of m'] by (simp add: accounted_def)

lemma accounted_new: "accounted lim [] tree_builder_default (meter_new lim)"
  by (simp add: accounted_def meter_new_def meter_with_budget_def)

text \<open>A line that has its terminator takes at least an octet.\<close>

lemma lines_take_octets:
  "\<forall>l \<in> set ls. lay_ending (line_layout_of l) \<noteq> None \<Longrightarrow>
     length ls \<le> length (concat (map line_octets ls))"
proof (induction ls)
  case (Cons l ls)
  then obtain e where "lay_ending (line_layout_of l) = Some e" by auto
  then have "1 \<le> length (line_octets l)" by (cases e) (simp_all add: line_octets_def)
  then show ?case using Cons by simp
qed simp

lemma built_lines_room:
  assumes "built toks tb" and "tidy toks \<noteq> Some Closed"
  shows "length (builder_lines tb) \<le> rendered_len toks"
  using assms lines_take_octets [of "builder_lines tb"]
  by (auto simp: built_def rendered_len_def split: prod.splits)

text \<open>What applying a kind does to the ledger: one more line, at most one item and one level.\<close>

definition line_charged :: "meter \<Rightarrow> (parse_error + 'a) \<times> meter \<Rightarrow> bool" where
  "line_charged m r \<longleftrightarrow>
     (case r of
        (Inl e, _) \<Rightarrow>
          e = TooManyItems (max_items (m_limits m)) \<and> max_items (m_limits m) \<le> m_items m
        \<or> e = TooDeep (max_component_depth (m_limits m)) \<and> max_component_depth (m_limits m) \<le> m_depth m
      | (Inr _, m') \<Rightarrow> m_limits m' = m_limits m \<and> m_budget m' = m_budget m
          \<and> m_exhausted m' = m_exhausted m \<and> m_spent m' = m_spent m
          \<and> m_items m' \<le> Suc (m_items m) \<and> m_depth m' \<le> Suc (m_depth m))"

lemma store_property_charged: "line_charged m (store_property tb layout m)"
  by (simp add: line_charged_def store_property_def charge_item_def Let_def sat_add_def)

lemma open_component_charged: "line_charged m (open_component tb layout x m)"
  by (simp add: line_charged_def open_component_def charge_item_def enter_def Let_def sat_add_def)

lemma line_charged_then:
  "line_charged m r \<Longrightarrow> line_charged m (and_then r (\<lambda>y m'. (Inr (f y), m')))"
  by (cases r; cases "fst r") (auto simp: line_charged_def)

lemma close_component_charged: "line_charged m (close_component tb layout m)"
proof (cases "tb_open tb")
  case Nil
  then show ?thesis
    using line_charged_then [OF store_property_charged] by (simp add: close_component_def)
next
  case (Cons opened below)
  then show ?thesis
    using line_charged_then [OF store_property_charged]
    by (cases "eq_name (b_name (op_begin opened)) (pl_value (tb_pending tb))")
       (simp_all add: close_component_def close_open_def leave_def line_charged_def Let_def)
qed

lemma apply_kind_charged: "line_charged m (apply_kind tb kind layout x m)"
  by (cases kind)
     (simp_all add: apply_kind_def close_component_charged line_charged_then store_property_charged
       open_component_charged)

lemma accounted_end_of_line:
  assumes b: "built toks tb" and a: "accounted lim toks tb (snd env)"
    and t: "tidy (toks @ [TEndOfLine folds e sep]) \<noteq> None"
    and k: "take_token push' tb (TEndOfLine folds e sep) env = (r, env')"
  shows "case r of
      Inr tb' \<Rightarrow> accounted lim (toks @ [TEndOfLine folds e sep]) tb' (snd env')
    | Inl err \<Rightarrow> refused_at lim (rendered_len (toks @ [TEndOfLine folds e sep])) err"
proof -
  let ?toks = "toks @ [TEndOfLine folds e sep]" and ?l = "layout_preserved folds e sep"
  obtain w h v where f: "foldl render_step ([], [], []) toks = (w, h, v)" by (metis prod_cases3)
  obtain j where j: "tidy toks = Some (Within j)" and jl: "j = length h + length v"
    using t b f by (auto simp: built_def tidy_step_iff)
  have room: "rendered_len toks + folds_len folds \<le> rendered_len ?toks"
    using f j jl t by (auto simp: rendered_len_def length_weave_exact split: if_splits)
  have lines: "length (builder_lines tb) \<le> rendered_len toks" using built_lines_room [OF b] j by simp
  obtain y m1 where c: "charge_folds folds (snd env) = (y, m1)" by fastforce
  have oc: "octets_charged (snd env) (folds_len folds) (y, m1)"
    using charge_folds_charged [of "snd env" folds] a c by (simp add: accounted_def)
  show ?thesis
  proof (cases y)
    case (Inl err)
    then have "r = Inl err" using k c by (simp add: take_token_def with_sink_def)
    then show ?thesis
      using oc Inl a room by (auto simp: octets_charged_def accounted_def refused_at_def)
  next
    case (Inr u)
    then have m1: "spent_only (snd env) m1" "m_spent m1 \<le> rendered_len ?toks"
      using oc a room by (auto simp: octets_charged_def accounted_def)
    note fr = spent_only_frame [OF m1(1)]
    have fin: "finish_line push' tb ?l (fst env, m1) = (r, env')"
      using k c Inr by (simp add: take_token_def with_sink_def Let_def)
    obtain m where m: "quiet m = quiet m1"
      "r = (case fst (apply_kind tb (classify tb ?l) ?l (measure_line tb ?l) m) of
            Inl e \<Rightarrow> Inl e
          | Inr (_, tb') \<Rightarrow> Inr (tb'\<lparr>tb_line_start := ex_end (measure_line tb ?l)\<rparr>))"
      "quiet (snd env') = quiet (snd (apply_kind tb (classify tb ?l) ?l (measure_line tb ?l) m))"
      using finish_line_applies [of "(fst env, m1)" push' tb ?l] fin by auto
    have mf: "m_limits m = lim" "m_budget m = max_input_bytes lim" "\<not> m_exhausted m"
      "m_spent m = m_spent m1" "m_items m \<le> length (builder_lines tb)" "m_depth m \<le> length (builder_lines tb)"
      using quiet_frame [of m] quiet_frame [of m1] m(1) fr a by (simp_all add: accounted_def)
    obtain z m' where ap: "apply_kind tb (classify tb ?l) ?l (measure_line tb ?l) m = (z, m')" by fastforce
    have lc: "line_charged m (z, m')"
      using apply_kind_charged [of m tb "classify tb ?l" ?l "measure_line tb ?l"] ap by simp
    show ?thesis
    proof (cases z)
      case (Inl err)
      then show ?thesis
        using m(2) ap lc mf lines room by (auto simp: line_charged_def refused_at_def)
    next
      case (Inr p)
      obtain code tb1 where p: "p = (code, tb1)" by (cases p)
      let ?tb = "tb1\<lparr>tb_line_start := ex_end (measure_line tb ?l)\<rparr>"
      have r: "r = Inr ?tb" using m(2) ap Inr p by simp
      have "length (builder_lines ?tb) = Suc (length (builder_lines tb))"
        using finish_line_lines [OF fin [unfolded r]] by auto
      then have "accounted lim ?toks ?tb m'"
        using lc Inr mf m1(2) by (auto simp: line_charged_def accounted_def)
      then show ?thesis using r m(3) ap accounted_quiet [of "snd env'" m'] by simp
    qed
  qed
qed

lemma accounted_take_token:
  assumes b: "built toks tb" and a: "accounted lim toks tb (snd env)"
    and t: "tidy (toks @ [t]) \<noteq> None" and k: "take_token push' tb t env = (r, env')"
  shows "case r of
      Inr tb' \<Rightarrow> accounted lim (toks @ [t]) tb' (snd env')
    | Inl e \<Rightarrow> refused_at lim (rendered_len (toks @ [t])) e"
proof -
  obtain w h v where f: "foldl render_step ([], [], []) toks = (w, h, v)" by (metis prod_cases3)
  have charged: ?thesis
    if oc: "octets_charged (snd env) n (q :: (parse_error + tree_builder) \<times> meter)"
      and q: "(r, env') = with_sink (fst env) q"
      and len: "rendered_len toks + n \<le> rendered_len (toks @ [t])"
      and same: "\<And>tb' m'. q = (Inr tb', m') \<Longrightarrow> builder_lines tb' = builder_lines tb" for n q
  proof (cases q)
    case (Pair y m')
    then show ?thesis
      using oc q len same a spent_only_frame [of "snd env" m']
      by (cases y) (auto simp: with_sink_def octets_charged_def accounted_def refused_at_def)
  qed
  have ne: "\<not> m_exhausted (snd env)" using a by (simp add: accounted_def)
  have charge: "octets_charged m (length bs) (charge_bytes m (as_units (length bs)))"
    if "\<not> m_exhausted m" for m and bs :: octets
    using charge_bytes_charged [OF that] as_units_le by (rule octets_charged_mono)
  show ?thesis
  proof (cases t)
    case (TName n)
    then have "tidy toks = Some Between" using t by (auto simp: tidy_step_iff)
    moreover have "octets_charged (snd env) (length n + 0) (take_name tb n (snd env))"
      unfolding take_name_def
      by (rule octets_charged_then [OF ne charge [OF ne]]) (rule octets_charged_return)
    ultimately show ?thesis
      using charged [of "length n + 0" "take_name tb n (snd env)"] k TName f
      by (force simp: take_token_def rendered_len_def take_name_def elim!: and_then_InrE)
  next
    case (TParameter n x hv)
    then obtain j where j: "tidy toks = Some (Within j)" "hv \<or> x = []" using t by (auto simp: tidy_step_iff)
    have "octets_charged (snd env) (length n + (length x + 0)) (take_parameter tb n x hv (snd env))"
      unfolding take_parameter_def Let_def
      by (intro octets_charged_then charge octets_charged_return ne)
    then show ?thesis
      using charged [of "length n + (length x + 0)" "take_parameter tb n x hv (snd env)"] k TParameter f j
      by (force simp: take_token_def rendered_len_def take_parameter_def Let_def elim!: and_then_InrE)
  next
    case (TValue bs more')
    then obtain j where j: "tidy toks = Some (Within j)" using t by (auto simp: tidy_step_iff)
    have jl: "j = length h + length v" "pl_value (tb_pending tb) = v"
      using b f j by (auto simp: built_def)
    show ?thesis
    proof (cases "max_value_bytes lim < as_units (length v + length bs)")
      case True
      then have "r = Inl (ValueTooLarge (max_value_bytes lim))"
        using k TValue a jl by (auto simp: take_token_def take_value_def Let_def with_sink_def accounted_def)
      then show ?thesis
        using True as_units_le [of "length v + length bs"] TValue f j jl
        by (auto simp: refused_at_def rendered_len_def)
    next
      case False
      then have tv: "take_value tb bs (snd env) = and_then (charge_bytes (snd env) (as_units (length bs)))
          (\<lambda>_ m. (Inr (tb\<lparr>tb_pending := (tb_pending tb)\<lparr>pl_value := v @ bs\<rparr>\<rparr>), m))"
        using a jl by (simp add: take_value_def Let_def accounted_def)
      have "octets_charged (snd env) (length bs + 0) (take_value tb bs (snd env))"
        unfolding tv by (intro octets_charged_then charge octets_charged_return ne)
      then show ?thesis
        using charged [of "length bs + 0" "take_value tb bs (snd env)"] k TValue f j
        by (force simp: take_token_def rendered_len_def tv elim!: and_then_InrE)
    qed
  next
    case (TEndOfLine folds e sep)
    show ?thesis using accounted_end_of_line [OF b a] t k unfolding TEndOfLine by blast
  qed
qed

context line_source
begin

lemma from_tokens_refused:
  assumes "from_tokens pull push' s env = Some (Inl e, s', env')" and "reads s []"
    and "accounted lim [] tree_builder_default (snd env)"
  shows "(\<exists>q acc. reads q acc \<and> fst (pull q) = Some (Inl e)) \<or> refused_at lim (length content) e"
proof -
  let ?Q = "\<lambda>s acc tb env. reads s acc \<and> built acc tb \<and> accounted lim acc tb (snd env)"
  have step: "?Q s' (acc @ [t]) tb' env'"
    if "?Q s acc tb env" "pull s = (Some (Inr t), s')" "take_token push' tb t env = (Inr tb', env')"
    for s t s' acc tb env tb' env'
  proof -
    have r: "reads s' (acc @ [t])" using that reads_next by blast
    then show ?thesis
      using that reads_tidy [OF r] built_take_token [of acc tb t push' env tb' env']
        accounted_take_token [of acc tb lim env t push' "Inr tb'" env'] by simp
  qed
  obtain r s1 env1 where l: "read_loop pull push' s tree_builder_default env = Some (r, s1, env1)"
    and c: "case r of Inl e' \<Rightarrow> e' = e | Inr tb \<Rightarrow> fst (into_items push' tb env1) = Inl e"
    using assms(1)
    by (auto simp: from_tokens_def tree_read_def split: option.splits prod.splits sum.splits)
  from read_loop_invariant [OF l, of ?Q "[]"] step assms(2,3) built_default
  obtain q acc tb env2 where q: "?Q q acc tb env2"
    and o': "case r of
        Inr tb' \<Rightarrow> fst (pull q) = None \<and> tb' = tb \<and> env1 = env2
      | Inl e' \<Rightarrow> fst (pull q) = Some (Inl e')
         \<or> (\<exists>t q'. pull q = (Some (Inr t), q') \<and> take_token push' tb t env2 = (Inl e', env1))"
    by blast
  show ?thesis
  proof (cases r)
    case (Inl e')
    show ?thesis
    proof (cases "fst (pull q) = Some (Inl e)")
      case False
      then obtain t q' where t: "pull q = (Some (Inr t), q')" "take_token push' tb t env2 = (Inl e, env1)"
        using o' c Inl by auto
      have n: "reads q' (acc @ [t])" using q t reads_next by blast
      have "refused_at lim (rendered_len (acc @ [t])) e"
        using accounted_take_token [of acc tb lim env2 t push' "Inl e" env1] q t reads_tidy [OF n] by simp
      then show ?thesis using reads_room [OF n] refused_at_mono by blast
    qed (use q in blast)
  next
    case (Inr tb')
    then have "tidy acc \<in> {Some Between, Some Closed}" "tb' = tb" using q o' reads_end by auto
    then have "pending_is_empty (tb_pending tb')"
      using q by (auto simp: built_def pending_is_empty_def pending_empty_def split: prod.splits)
    then have False using c Inr by (simp add: into_items_def split: prod.splits)
    then show ?thesis ..
  qed
qed

end

section \<open>The sink changes nothing\<close>

text \<open>
  Two runs on ledgers that differ in their dropped diagnostics only: they answer the same and leave
  such ledgers again.
\<close>

definition alike :: "'a \<times> meter \<Rightarrow> 'a \<times> meter \<Rightarrow> bool" where
  "alike r q \<longleftrightarrow> fst r = fst q \<and> quiet (snd r) = quiet (snd q)"

lemma alike_charge: "quiet m = quiet m' \<Longrightarrow> alike (charge_bytes m n) (charge_bytes m' n)"
  by (cases m; cases m') (simp add: alike_def quiet_def charge_bytes_def charge_def Let_def)

lemma alike_item: "quiet m = quiet m' \<Longrightarrow> alike (charge_item m) (charge_item m')"
  by (cases m; cases m') (simp add: alike_def quiet_def charge_item_def Let_def)

lemma alike_enter: "quiet m = quiet m' \<Longrightarrow> alike (enter m) (enter m')"
  by (cases m; cases m') (simp add: alike_def quiet_def enter_def Let_def)

lemma quiet_leave: "quiet m = quiet m' \<Longrightarrow> quiet (leave m) = quiet (leave m')"
  by (cases m; cases m') (simp add: quiet_def leave_def)

lemma alike_then:
  "alike r q \<Longrightarrow> (\<And>x m m'. quiet m = quiet m' \<Longrightarrow> alike (f x m) (g x m')) \<Longrightarrow>
     alike (and_then r f) (and_then q g)"
  by (cases r; cases q; cases "fst r") (auto simp: alike_def)

lemma alike_return: "quiet m = quiet m' \<Longrightarrow> alike (x, m) (x, m')"
  by (simp add: alike_def)

lemma alike_store: "quiet m = quiet m' \<Longrightarrow> alike (store_property tb l m) (store_property tb l m')"
  unfolding store_property_def Let_def by (intro alike_then alike_item alike_return)

lemma alike_apply_kind:
  assumes "quiet m = quiet m'"
  shows "alike (apply_kind tb kind l x m) (apply_kind tb kind l x m')"
proof (cases kind)
  case (KProperty code)
  then show ?thesis using assms by (auto simp: apply_kind_def intro!: alike_then alike_store alike_return)
next
  case KBegin
  have "alike (open_component tb l x m) (open_component tb l x m')"
    unfolding open_component_def Let_def by (intro alike_then alike_item alike_enter alike_return assms)
  then show ?thesis using KBegin by (auto simp: apply_kind_def intro!: alike_then alike_return)
next
  case KEnd
  have "alike (close_component tb l m) (close_component tb l m')"
    using assms quiet_leave [OF assms]
    by (auto simp: close_component_def close_open_def Let_def intro!: alike_then alike_store alike_return
        split: list.splits bool.splits)
  then show ?thesis using KEnd by (simp add: apply_kind_def)
qed

text \<open>The same over an environment: the sinks may differ, in kind and in what they hold.\<close>

definition same_outcome :: "'a \<times> 'k env \<Rightarrow> 'a \<times> 'l env \<Rightarrow> bool" where
  "same_outcome r q \<longleftrightarrow> fst r = fst q \<and> quiet (snd (snd r)) = quiet (snd (snd q))"

lemma same_outcome_with_sink: "alike r q \<Longrightarrow> same_outcome (with_sink k r) (with_sink l q)"
  by (simp add: alike_def same_outcome_def with_sink_def split_beta)

lemma same_outcome_finish:
  assumes "quiet (snd env) = quiet (snd env')"
  shows "same_outcome (finish_line p tb l env) (finish_line q tb l env')"
proof -
  obtain m where m: "quiet m = quiet (snd env)"
    "fst (finish_line p tb l env)
       = (case fst (apply_kind tb (classify tb l) l (measure_line tb l) m) of
            Inl e \<Rightarrow> Inl e | Inr (_, tb') \<Rightarrow> Inr (tb'\<lparr>tb_line_start := ex_end (measure_line tb l)\<rparr>))"
    "quiet (snd (snd (finish_line p tb l env)))
       = quiet (snd (apply_kind tb (classify tb l) l (measure_line tb l) m))"
    by (rule finish_line_applies)
  obtain m' where m': "quiet m' = quiet (snd env')"
    "fst (finish_line q tb l env')
       = (case fst (apply_kind tb (classify tb l) l (measure_line tb l) m') of
            Inl e \<Rightarrow> Inl e | Inr (_, tb') \<Rightarrow> Inr (tb'\<lparr>tb_line_start := ex_end (measure_line tb l)\<rparr>))"
    "quiet (snd (snd (finish_line q tb l env')))
       = quiet (snd (apply_kind tb (classify tb l) l (measure_line tb l) m'))"
    by (rule finish_line_applies)
  show ?thesis
    using alike_apply_kind [of m m' tb "classify tb l" l "measure_line tb l"] assms m m'
    by (simp add: same_outcome_def alike_def)
qed

lemma alike_charge_folds:
  "quiet m = quiet m' \<Longrightarrow> alike (charge_folds fs m) (charge_folds fs m')"
proof (induction fs arbitrary: m m')
  case (Cons f fs)
  show ?case unfolding charge_folds.simps Let_def
    by (intro alike_then alike_charge Cons)
qed (simp add: alike_return)

lemma same_outcome_take_token:
  assumes "quiet (snd env) = quiet (snd env')"
  shows "same_outcome (take_token p tb t env) (take_token q tb t env')"
proof -
  have l: "m_limits (snd env) = m_limits (snd env')"
    using quiet_frame(3) [of "snd env"] quiet_frame(3) [of "snd env'"] assms by simp
  show ?thesis
  proof (cases t)
    case (TEndOfLine folds e sep)
    obtain y m where c: "charge_folds folds (snd env) = (y, m)" by fastforce
    then obtain m' where c': "charge_folds folds (snd env') = (y, m')" and qm: "quiet m = quiet m'"
      using alike_charge_folds [OF assms, of folds]
      by (cases "charge_folds folds (snd env')") (auto simp: alike_def)
    show ?thesis
      using same_outcome_finish [of "(fst env, m)" "(fst env', m')" p tb "layout_preserved folds e sep" q]
        c c' qm
      by (cases y) (auto simp: take_token_def TEndOfLine with_sink_def same_outcome_def Let_def)
  qed (auto simp: take_token_def take_name_def take_parameter_def take_value_def Let_def l
        intro!: same_outcome_with_sink alike_then alike_charge alike_return assms)
qed

lemma same_outcome_close_unclosed:
  "quiet (snd env) = quiet (snd env') \<Longrightarrow>
     same_outcome (close_unclosed p tb env) (close_unclosed q tb env')"
proof (induction p tb env arbitrary: env' rule: close_unclosed.induct)
  case (1 p tb env)
  show ?case
  proof (cases "tb_open tb")
    case Nil
    then show ?thesis using 1(2) by (simp add: close_unclosed.simps [of _ tb] same_outcome_def)
  next
    case (Cons opened below)
    then show ?thesis
      using 1(1) [OF Cons refl refl refl] quiet_leave [OF 1(2)]
      by (simp add: close_unclosed.simps [of _ tb] Let_def)
  qed
qed

lemma same_outcome_into_items:
  assumes "quiet (snd env) = quiet (snd env')"
  shows "same_outcome (into_items p tb env) (into_items q tb env')"
proof -
  have then_same: "same_outcome (and_then r f) (and_then s g)"
    if "same_outcome r s" "\<And>x env env'. quiet (snd env) = quiet (snd env') \<Longrightarrow> same_outcome (f x env) (g x env')"
    for r s f g
    using that by (cases r; cases s; cases "fst r") (auto simp: same_outcome_def)
  have "same_outcome (case close_unclosed p x env of (tb', env') \<Rightarrow> (Inr (tb_root tb'), env'))
      (case close_unclosed q x env' of (tb', env') \<Rightarrow> (Inr (tb_root tb'), env'))"
    if "quiet (snd env) = quiet (snd env')" for x env env'
    using same_outcome_close_unclosed [OF that, of p x q] by (simp add: same_outcome_def split_beta)
  moreover have "same_outcome (Inr tb :: parse_error + tree_builder, env) (Inr tb, env')"
    using assms by (simp add: same_outcome_def)
  ultimately show ?thesis
    unfolding into_items_def Let_def using same_outcome_finish [OF assms] by (intro then_same) simp_all
qed

context token_source
begin

lemma read_loop_same:
  assumes "read_loop pull p s tb env = Some (r, s1, env1)" and "quiet (snd env) = quiet (snd env')"
  shows "\<exists>env1'. read_loop pull q s tb env' = Some (r, s1, env1') \<and> quiet (snd env1) = quiet (snd env1')"
  using assms
proof (induction s arbitrary: tb env env' rule: wf_induct_rule [OF well_founded])
  case (1 s)
  obtain a s' where pu: "pull s = (a, s')" by fastforce
  consider "a = None" | e where "a = Some (Inl e)" | t where "a = Some (Inr t)"
    by (metis obj_sumE option.exhaust)
  then show ?case
  proof cases
    case (3 t)
    obtain y env2 where k: "take_token p tb t env = (y, env2)" by (cases "take_token p tb t env")
    obtain y' env2' where k': "take_token q tb t env' = (y', env2')" by (cases "take_token q tb t env'")
    have same: "y' = y" "quiet (snd env2) = quiet (snd env2')"
      using same_outcome_take_token [OF 1(3), of p tb t q] k k' by (simp_all add: same_outcome_def)
    show ?thesis
    proof (cases y)
      case (Inl e)
      then show ?thesis
        using 1(2) pu 3 k k' same by (cases env2') (auto simp: read_loop.simps [of pull _ s])
    next
      case (Inr tb1)
      then have "read_loop pull p s' tb1 env2 = Some (r, s1, env1)"
        using 1(2) pu 3 k by (simp add: read_loop.simps [of pull p s])
      from 1(1) [OF token_descends this same(2)] show ?thesis
        using pu 3 k' same(1) Inr by (simp add: read_loop.simps [of pull q s])
    qed
  qed (use 1(2,3) pu in \<open>auto simp: read_loop.simps [of pull _ s]\<close>)
qed

lemma from_tokens_same:
  assumes "from_tokens pull p s env = Some (r, s1, env1)" and "quiet (snd env) = quiet (snd env')"
  shows "\<exists>env1'. from_tokens pull q s env' = Some (r, s1, env1')"
proof -
  obtain x s2 env2 where l: "read_loop pull p s tree_builder_default env = Some (x, s2, env2)"
    using assms(1) by (auto simp: from_tokens_def tree_read_def split: option.splits)
  obtain env2' where l': "read_loop pull q s tree_builder_default env' = Some (x, s2, env2')"
    and qt: "quiet (snd env2) = quiet (snd env2')"
    using read_loop_same [OF l assms(2), of q] by blast
  show ?thesis
  proof (cases x)
    case (Inl e)
    then show ?thesis using assms(1) l l' by (auto simp: from_tokens_def tree_read_def)
  next
    case (Inr tb)
    have "fst (into_items p tb env2) = fst (into_items q tb env2')"
      using same_outcome_into_items [OF qt, of p tb q] by (simp add: same_outcome_def)
    then show ?thesis
      using assms(1) l l' Inr
      by (cases "into_items p tb env2"; cases "into_items q tb env2'"; cases "fst (into_items p tb env2)")
         (auto simp: from_tokens_def tree_read_def)
  qed
qed

end

section \<open>Properties\<close>

text \<open>What the reader of the grammar gives a builder, over an input it can address.\<close>

lemma from_reader_round_trip:
  assumes "length input \<le> u32_max"
    and "from_tokens next_token push' (reader_new input lim) (k, m) = Some (Inr doc, r, env)"
  shows "to_bytes doc = input"
  using lossless_reader.from_tokens_round_trip [OF assms(2) reading_new_limits [OF assms(1)]] .

lemma from_reader_refused:
  assumes "length input \<le> u32_max"
    and "from_tokens next_token push' (reader_new input (grammar limits)) (k, meter_new limits)
      = Some (Inl e, r, env)"
  shows "refused_at limits (length input) e \<or> bound_error (grammar limits) (length input) e"
  using lossless_reader.from_tokens_refused [OF assms(2) reading_new_limits [OF assms(1)], of limits]
    accounted_new reading_bound by (auto simp: prod_eq_iff) (metis prod.collapse)

lemma document_within_limits:
  assumes "\<forall>bound \<in> {u32_max, max_input_bytes limits, max_value_bytes limits,
      max_items limits, max_component_depth limits, gl_header_bytes (grammar limits),
      gl_parameters (grammar limits), gl_folds_per_line (grammar limits)}. length input < bound"
  obtains doc r env where "parse_document push' input limits k = Some (Inr doc, r, env)"
proof -
  obtain q where "parse_document push' input limits k = Some q"
    using line_reader.from_tokens_returns [of push' "reader_new input (grammar limits)" "(k, meter_new limits)"]
    unfolding parse_document_def Let_def by blast
  then obtain x r env where p: "parse_document push' input limits k = Some (x, r, env)"
    by (cases q) auto
  have n: "length input \<le> u32_max" using assms by (simp add: less_imp_le)
  show ?thesis
  proof (cases x)
    case (Inl e)
    have "from_tokens next_token push' (reader_new input (grammar limits)) (k, meter_new limits)
        = Some (Inl e, r, env)"
      using p Inl by (simp add: parse_document_def Let_def)
    from from_reader_refused [OF n this] show ?thesis
      using assms by (auto simp: refused_at_def bound_error_def)
  next
    case (Inr doc)
    then show ?thesis using p that by simp
  qed
qed

text \<open>
  C1. Reading and writing back is the identity: a document read from at most \<open>u32::MAX\<close> octets,
  whatever they are, with whatever sink and limits, is written as exactly those octets, with every
  fold, terminator and missing terminator where it was.
\<close>

theorem document_round_trip:
  assumes "length input \<le> u32_max"
    and "parse_document push' input limits k = Some (Inr doc, r, env)"
  shows "to_bytes doc = input"
  using from_reader_round_trip [OF assms(1)] assms(2) by (simp add: parse_document_def Let_def)

theorem document_round_trip_witness:
  "\<exists>doc r env. parse_document vec_push (ascii ''BEGIN:A'' @ [0x0A] ) LIMITS_DEFAULT [] = Some (Inr doc, r, env)
     \<and> to_bytes doc = ascii ''BEGIN:A'' @ [0x0A]"
proof -
  let ?i = "ascii ''BEGIN:A'' @ [0x0A]"
  obtain doc r env where p: "parse_document vec_push ?i LIMITS_DEFAULT [] = Some (Inr doc, r, env)"
    by (rule document_within_limits [of LIMITS_DEFAULT ?i vec_push "[]"])
       (simp_all add: LIMITS_DEFAULT_def GRAMMAR_DEFAULT_def u32_max_def)
  have "length ?i \<le> u32_max" by (simp add: u32_max_def)
  from document_round_trip [OF this p] p show ?thesis by blast
qed

text \<open>
  C15. Nothing in a document is an error: a read refuses an input only at a bound of its limits,
  names that bound, and only for an input that reaches it.
\<close>

theorem parse_refuses_at_bounds_only:
  assumes "length input \<le> u32_max"
    and "parse_document push' input limits k = Some (Inl e, r, env)"
  shows "refused_at limits (length input) e \<or> bound_error (grammar limits) (length input) e"
  using from_reader_refused [OF assms(1)] assms(2) by (simp add: parse_document_def Let_def)

theorem parse_refuses_at_bounds_only_witness:
  "fst (the (parse_document ignore_push (ascii ''A'') (LIMITS_DEFAULT\<lparr>max_input_bytes := 0\<rparr>) ()))
     = Inl (InputTooLarge 0)
   \<and> refused_at (LIMITS_DEFAULT\<lparr>max_input_bytes := 0\<rparr>) 1 (InputTooLarge 0)"
proof -
  let ?l = "LIMITS_DEFAULT\<lparr>max_input_bytes := 0\<rparr>"
  obtain r env where p: "parse_document ignore_push (ascii ''A'') ?l () = Some (Inl (InputTooLarge 0), r, env)"
    by (simp add: lexer_eval parse_document_def from_tokens_def tree_read_def read_loop.simps
        take_token_def take_name_def with_sink_def charge_bytes_def charge_def meter_new_def
        meter_with_budget_def as_units_def u64_max_def LIMITS_DEFAULT_def GRAMMAR_DEFAULT_def)
  have "length (ascii ''A'') \<le> u32_max" by (simp add: u32_max_def)
  from parse_refuses_at_bounds_only [OF this p] p show ?thesis
    by (auto simp: bound_error_def)
qed

text \<open>
  C2. Every octet string is a document: a read of an input shorter than each of the limits comes
  to an end with a document, whatever the octets, and that document is written as they were.
\<close>

theorem parse_always_answers:
  assumes "\<forall>bound \<in> {u32_max, max_input_bytes limits, max_value_bytes limits,
      max_items limits, max_component_depth limits, gl_header_bytes (grammar limits),
      gl_parameters (grammar limits), gl_folds_per_line (grammar limits)}. length input < bound"
  shows "\<exists>doc r env. parse_document push' input limits k = Some (Inr doc, r, env) \<and> to_bytes doc = input"
proof -
  obtain doc r env where p: "parse_document push' input limits k = Some (Inr doc, r, env)"
    using document_within_limits [OF assms] .
  moreover have "length input \<le> u32_max" using assms by (simp add: less_imp_le)
  ultimately show ?thesis
    using from_reader_round_trip [of input push' "grammar limits"]
    by (auto simp: parse_document_def Let_def)
qed

theorem parse_always_answers_witness:
  "\<exists>doc r env. parse_document ignore_push (ascii ''END:X'' @ [0x0D]) LIMITS_DEFAULT () = Some (Inr doc, r, env)
     \<and> to_bytes doc = ascii ''END:X'' @ [0x0D]"
  by (rule parse_always_answers) (simp add: LIMITS_DEFAULT_def GRAMMAR_DEFAULT_def u32_max_def)

text \<open>
  C17. What a caller does with the diagnostics does not change what is read: any two sinks give the
  same document or the same refusal, from the same place in the input.
\<close>

theorem sink_never_changes_the_document:
  "map_option (\<lambda>(x, r, env). (x, r)) (parse_document push1 input limits k1)
     = map_option (\<lambda>(x, r, env). (x, r)) (parse_document push2 input limits k2)"
proof -
  obtain x r env where *: "from_tokens next_token push1 (reader_new input (grammar limits)) (k1, meter_new limits)
      = Some (x, r, env)"
    using line_reader.from_tokens_returns [of push1 "reader_new input (grammar limits)" "(k1, meter_new limits)"]
    by auto
  from line_reader.from_tokens_same [OF this, of "(k2, meter_new limits)" push2]
  show ?thesis using * by (auto simp: parse_document_def Let_def)
qed

end
