(* ===== verification/Emit_Sinks.thy ===== *)
theory Emit_Sinks
  imports Emit "HOL-Library.Sublist"
begin

text \<open>
  The writer against any sink, and the canonical refold.  A sink is what \<open>core/output.rs\<close> asks of a
  \<open>Writer\<close>: it takes all octets of a call or fails on the way.  Whatever the sink, what it holds is
  a part of what the growable buffer holds; a line that is folded afresh stays within 75 octets.
\<close>

section \<open>Any sink\<close>

text \<open>
  A computation \<open>F\<close> on a sink follows \<open>G\<close> on the buffer: where \<open>F\<close> succeeds they have written the
  same, where it fails the sink holds a prefix, and the buffer never fails and only grows.
\<close>

definition follows ::
  "('w \<Rightarrow> octets) \<Rightarrow> ('w \<Rightarrow> ('e + 'a) \<times> 'w) \<Rightarrow> (octets \<Rightarrow> (unit + 'a) \<times> octets) \<Rightarrow> bool" where
  "follows held F G \<longleftrightarrow>
     (\<forall>acc. \<exists>y out. G acc = (Inr y, acc @ out))
   \<and> (\<forall>w. case F w of
        (Inr x, w') \<Rightarrow> G (held w) = (Inr x, held w')
      | (Inl e, w') \<Rightarrow> prefix (held w') (snd (G (held w))))"

lemma followsI:
  assumes "\<And>acc. \<exists>y out. G acc = (Inr y, acc @ out)"
    and "\<And>w x w'. F w = (Inr x, w') \<Longrightarrow> G (held w) = (Inr x, held w')"
    and "\<And>w e w'. F w = (Inl e, w') \<Longrightarrow> prefix (held w') (snd (G (held w)))"
  shows "follows held F G"
  using assms by (auto simp: follows_def split: prod.splits sum.splits)

lemma follows_return: "follows held (\<lambda>w. (Inr x, w)) (\<lambda>a. (Inr x, a))"
  by (auto intro: followsI)

lemma follows_then:
  assumes F: "follows held F G"
    and f: "\<And>acc y acc'. G acc = (Inr y, acc') \<Longrightarrow> follows held (f y) (g y)"
  shows "follows held (\<lambda>w. and_then (F w) f) (\<lambda>a. and_then (G a) g)"
proof (rule followsI)
  have G: "\<exists>y out. G acc = (Inr y, acc @ out) \<and> follows held (f y) (g y)" for acc
  proof -
    obtain y out where "G acc = (Inr y, acc @ out)" using F unfolding follows_def by blast
    with f [OF this] show ?thesis by blast
  qed
  have grows: "\<exists>z out'. g y acc = (Inr z, acc @ out')" if "follows held (f y) (g y)" for y acc
    using that by (auto simp: follows_def)
  show "\<exists>y out. and_then (G acc) g = (Inr y, acc @ out)" for acc
  proof -
    obtain y out where "G acc = (Inr y, acc @ out)" "follows held (f y) (g y)" using G by blast
    with grows [OF this(2), of "acc @ out"] show ?thesis by auto
  qed
  fix w
  show "and_then (G (held w)) g = (Inr x, held w')" if i: "and_then (F w) f = (Inr x, w')" for x w'
  proof -
    obtain y w1 where 1: "F w = (Inr y, w1)" "f y w1 = (Inr x, w')"
      using i by (auto elim: and_then_InrE)
    then have "G (held w) = (Inr y, held w1)"
      using F by (auto simp: follows_def split: prod.splits dest!: spec [of _ w])
    moreover from f [OF this] have "g y (held w1) = (Inr x, held w')"
      using 1(2) by (auto simp: follows_def split: prod.splits dest!: spec [of _ w1])
    ultimately show ?thesis by simp
  qed
  show "prefix (held w') (snd (and_then (G (held w)) g))" if e: "and_then (F w) f = (Inl e, w')" for e w'
  proof (cases "F w")
    case (Pair r w1)
    show ?thesis
    proof (cases r)
      case (Inl d)
      obtain y out where y: "G (held w) = (Inr y, held w @ out)" "follows held (f y) (g y)" using G by blast
      moreover obtain z out' where "g y (held w @ out) = (Inr z, (held w @ out) @ out')"
        using grows [OF y(2)] by blast
      moreover have "prefix (held w1) (snd (G (held w)))"
        using F Pair Inl by (auto simp: follows_def split: prod.splits dest!: spec [of _ w])
      ultimately show ?thesis using e Pair Inl prefix_prefix [of "held w'" "held w @ out" out'] by simp
    next
      case (Inr x)
      then have "G (held w) = (Inr x, held w1)"
        using F Pair by (auto simp: follows_def split: prod.splits dest!: spec [of _ w])
      moreover have "f x w1 = (Inl e, w')" using e Pair Inr by simp
      ultimately show ?thesis
        using f [of "held w" x "held w1"]
        by (auto simp: follows_def split: prod.splits dest!: spec [of _ w1])
    qed
  qed
qed

lemma follows_seq: "follows held F G \<Longrightarrow> (\<And>y. follows held (f y) (g y)) \<Longrightarrow>
    follows held (\<lambda>w. and_then (F w) f) (\<lambda>a. and_then (G a) g)"
  by (rule follows_then)

lemma follows_cong:
  "(\<And>w. F w = F' w) \<Longrightarrow> (\<And>a. G a = G' a) \<Longrightarrow> follows held F' G' \<Longrightarrow> follows held F G"
proof -
  assume "\<And>w. F w = F' w" "\<And>a. G a = G' a"
  then have "F = F'" "G = G'" by (auto intro: ext)
  then show "follows held F' G' \<Longrightarrow> follows held F G" by simp
qed

lemma follows_if: "follows held F G \<Longrightarrow> follows held F' G' \<Longrightarrow>
    follows held (\<lambda>w. if b then F w else F' w) (\<lambda>a. if b then G a else G' a)"
  by (cases b) simp_all

lemma push_refolded_loop_then:
  "push_refolded_loop p lw rest w =
     (if rest = [] then (Inr lw, w)
      else if length rest \<le> REFOLD_WIDTH - lw_column lw then emit_octets p lw rest w
      else and_then (emit_octets p lw (take (refold_cut rest (lw_column lw)) rest) w) (\<lambda>lw1 w1.
           and_then (break_line p lw1 CANONICAL 0x20 w1) (\<lambda>lw2 w2.
             push_refolded_loop p lw2 (drop (refold_cut rest (lw_column lw)) rest) w2)))"
  by (subst push_refolded_loop.simps) (auto simp: Let_def and_then_def split: prod.splits sum.splits)

lemma write_items_loop_then:
  "write_items_loop q opened cursor owed w =
     (case cursor of
        [] \<Rightarrow>
          (case opened of
             [] \<Rightarrow> (Inr (), w)
           | finished # below \<Rightarrow>
               and_then (case oc_end finished of
                        Some closing \<Rightarrow> write_line q (LBoundary closing) owed w
                      | None \<Rightarrow> (Inr owed, w))
                 (write_items_loop q below (oc_rest finished)))
      | entry # rest \<Rightarrow>
          (case entry of
             IProperty p \<Rightarrow> and_then (write_line q (LProperty p) owed w) (write_items_loop q opened rest)
           | IComponent c \<Rightarrow> and_then (write_line q (LBoundary (c_begin c)) owed w)
               (write_items_loop q (\<lparr>oc_rest = rest, oc_end = c_end c\<rparr> # opened) (c_items c))))"
  unfolding and_then_def by (subst write_items_loop.simps) (rule refl)

locale octet_sink =
  fixes put :: "'w \<Rightarrow> octets \<Rightarrow> ('e + unit) \<times> 'w"
    and held :: "'w \<Rightarrow> octets"
  assumes put_takes: "put w bs = (Inr u, w') \<Longrightarrow> held w' = held w @ bs"
    and put_fails: "put w bs = (Inl e, w') \<Longrightarrow> prefix (held w') (held w @ bs)"
begin

lemma follows_put: "follows held (\<lambda>w. put w bs) (\<lambda>a. vec_put a bs)"
  using put_takes put_fails by (intro followsI) (auto simp: vec_put_def)

lemma follows_emit: "follows held (emit_octets put lw bs) (emit_octets vec_put lw bs)"
  by (rule follows_cong [OF emit_octets_def emit_octets_def])
     (intro follows_if follows_return follows_seq [OF follows_put])

lemma follows_break: "follows held (break_line put lw nl ws) (break_line vec_put lw nl ws)"
  unfolding break_line_def by (intro follows_seq follows_put follows_return)

lemma follows_recorded_from:
  "follows held (push_recorded_from put lw bs fs) (push_recorded_from vec_put lw bs fs)"
proof (induction fs arbitrary: lw bs)
  case Nil
  show ?case
    by (rule follows_cong [OF push_recorded_from.simps(1) push_recorded_from.simps(1)]) (rule follows_emit)
next
  case (Cons f fs)
  show ?case
    by (rule follows_cong [OF push_recorded_from.simps(2) push_recorded_from.simps(2)], unfold Let_def)
       (intro follows_if follows_emit follows_seq follows_break Cons)
qed

lemma follows_refolded_loop:
  "follows held (push_refolded_loop put lw rest) (push_refolded_loop vec_put lw rest)"
proof (induction "2 * length rest + (if lw_column lw = 0 then 0 else 1)" arbitrary: lw rest
    rule: less_induct)
  case less
  let ?cut = "refold_cut rest (lw_column lw)"
  have IH: "follows held (push_refolded_loop put lw2 (drop ?cut rest)) (push_refolded_loop vec_put lw2 (drop ?cut rest))"
    if "rest \<noteq> []" "lw_column lw2 = 0" for lw2 :: line_writer
    using refold_cut_progress [of rest "lw_column lw"] that
    by (intro less) (cases "?cut = 0"; cases rest; simp)
  show ?case
  proof (cases "rest = []")
    case True
    then show ?thesis
      by (intro follows_cong [OF push_refolded_loop_then push_refolded_loop_then]) (simp add: follows_return)
  next
    case False
    have "follows held
       (\<lambda>w. and_then (emit_octets put lw (take ?cut rest) w) (\<lambda>lw1 w1.
           and_then (break_line put lw1 CANONICAL 0x20 w1) (\<lambda>lw2 w2.
             push_refolded_loop put lw2 (drop ?cut rest) w2)))
       (\<lambda>w. and_then (emit_octets vec_put lw (take ?cut rest) w) (\<lambda>lw1 w1.
           and_then (break_line vec_put lw1 CANONICAL 0x20 w1) (\<lambda>lw2 w2.
             push_refolded_loop vec_put lw2 (drop ?cut rest) w2)))"
      using False by (intro follows_seq follows_then [OF follows_break] follows_emit IH) auto
    then show ?thesis
      by (intro follows_cong [OF push_refolded_loop_then push_refolded_loop_then] follows_if
          follows_return follows_emit)
  qed
qed

lemma follows_push: "follows held (push put lw bs) (push vec_put lw bs)"
proof -
  have "follows held (push_refolded put lw bs) (push_refolded vec_put lw bs)"
    by (rule follows_cong [OF push_refolded_def push_refolded_def])
       (intro follows_if follows_seq follows_break follows_refolded_loop)
  moreover have "follows held (push_recorded put lw bs) (push_recorded vec_put lw bs)"
    by (rule follows_cong [OF push_recorded_def push_recorded_def]) (rule follows_recorded_from)
  ultimately show ?thesis
    by (intro follows_cong [OF push_def push_def] follows_if)
qed

lemma follows_finish: "follows held (finish put lw) (finish vec_put lw)"
  by (cases "lw_ending lw") (simp_all add: finish_def [abs_def] follows_return follows_put)

lemma follows_parameters:
  "follows held (push_parameters put lw ps) (push_parameters vec_put lw ps)"
proof (induction ps arbitrary: lw)
  case Nil
  show ?case
    by (rule follows_cong [OF push_parameters.simps(1) push_parameters.simps(1)]) (rule follows_return)
next
  case (Cons p ps)
  show ?case
    by (rule follows_cong [OF push_parameters.simps(2) push_parameters.simps(2)])
       (intro follows_seq follows_push follows_if follows_return Cons)
qed

lemma follows_line: "follows held (write_line put l owed) (write_line vec_put l owed)"
proof -
  have "follows held (write_property put p) (write_property vec_put p)" for p
    by (rule follows_cong [OF write_property_def write_property_def], unfold Let_def)
       (intro follows_seq follows_push follows_parameters follows_if follows_return follows_finish)
  moreover have "follows held (write_boundary put b) (write_boundary vec_put b)" for b
    by (rule follows_cong [OF write_boundary_def write_boundary_def], unfold Let_def)
       (intro follows_seq follows_push follows_if follows_return follows_finish)
  ultimately have "follows held
      (\<lambda>w. case l of LProperty p \<Rightarrow> write_property put p w | LBoundary b \<Rightarrow> write_boundary put b w)
      (\<lambda>w. case l of LProperty p \<Rightarrow> write_property vec_put p w | LBoundary b \<Rightarrow> write_boundary vec_put b w)"
    by (cases l) simp_all
  then show ?thesis
    by (intro follows_cong [OF write_line_def write_line_def], unfold Let_def)
       (intro follows_seq follows_if follows_put follows_return)
qed

lemma follows_items:
  "follows held (write_items_loop put opened cursor owed) (write_items_loop vec_put opened cursor owed)"
proof (induction "write_weight opened cursor" arbitrary: opened cursor owed rule: less_induct)
  case less
  note cong = follows_cong [OF write_items_loop_then write_items_loop_then]
  show ?case
  proof (cases cursor)
    case Nil
    show ?thesis
    proof (cases opened)
      case Nil
      then show ?thesis using \<open>cursor = []\<close> by (intro cong) (simp add: follows_return)
    next
      case (Cons f below)
      have "follows held
          (\<lambda>w. case oc_end f of Some b \<Rightarrow> write_line put (LBoundary b) owed w | None \<Rightarrow> (Inr owed, w))
          (\<lambda>w. case oc_end f of Some b \<Rightarrow> write_line vec_put (LBoundary b) owed w | None \<Rightarrow> (Inr owed, w))"
        by (cases "oc_end f") (simp_all add: follows_return follows_line)
      moreover have "follows held (write_items_loop put below (oc_rest f) owed1)
          (write_items_loop vec_put below (oc_rest f) owed1)" for owed1
        using Nil Cons by (intro less) (simp add: write_weight_def)
      ultimately show ?thesis using Nil Cons by (intro cong) (simp add: follows_seq)
    qed
  next
    case (Cons i rest)
    show ?thesis
    proof (cases i)
      case (IProperty p)
      have "follows held (write_items_loop put opened rest owed1) (write_items_loop vec_put opened rest owed1)" for owed1
        using Cons IProperty by (intro less) (simp add: write_weight_def)
      then show ?thesis using Cons IProperty by (intro cong) (simp add: follows_seq follows_line)
    next
      case (IComponent c)
      let ?o = "\<lparr>oc_rest = rest, oc_end = c_end c\<rparr> # opened"
      have "follows held (write_items_loop put ?o (c_items c) owed1) (write_items_loop vec_put ?o (c_items c) owed1)" for owed1
        using Cons IComponent by (intro less) (simp add: write_weight_def component_weight_items)
      then show ?thesis using Cons IComponent by (intro cong) (simp add: follows_seq follows_line)
    qed
  qed
qed

lemma follows_serialize: "follows held (serialize put doc) (serialize vec_put doc)"
  by (intro follows_cong [OF serialize_def serialize_def] follows_cong [OF write_items_def write_items_def]
      follows_items)

end

interpretation vec_writer: octet_sink vec_put "\<lambda>w. w"
  by unfold_locales (auto simp: vec_put_def)

section \<open>A line folded afresh\<close>

text \<open>
  Where a refolded line may break: no two breaks, no start and no end are more than 74 octets
  apart, so with its leading space a physical line has at most 75.
\<close>

definition canonical_fold :: "nat \<Rightarrow> fold_point" where
  "canonical_fold p = \<lparr>fold_offset = p, fold_tab = False, fold_newline = CANONICAL\<rparr>"

definition short_step :: "nat \<Rightarrow> nat \<Rightarrow> bool" where
  "short_step a b \<longleftrightarrow> a \<le> b \<and> b - a \<le> REFOLD_WIDTH"

definition short_lines :: "nat list \<Rightarrow> nat \<Rightarrow> bool" where
  "short_lines breaks n \<longleftrightarrow> successively short_step (0 # breaks @ [n])"

text \<open>Text that opens with white space is written after a break.\<close>

definition leads :: "octets \<Rightarrow> nat list \<Rightarrow> bool" where
  "leads tx breaks \<longleftrightarrow>
     tx = [] \<or> \<not> (hd tx = 0x20 \<or> hd tx = 0x09) \<or> (breaks \<noteq> [] \<and> hd breaks = 0)"

lemma leads_part: "leads (tx @ bs) breaks \<Longrightarrow> leads tx breaks"
  by (auto simp: leads_def hd_append)

lemma leads_more: "leads tx breaks \<Longrightarrow> tx \<noteq> [] \<Longrightarrow> leads (tx @ bs) breaks"
  by (auto simp: leads_def)

lemma leads_break: "leads tx breaks \<Longrightarrow> leads tx (breaks @ [n])"
  by (auto simp: leads_def)

text \<open>The state of a refolding writer: the text taken, where it broke, and the open column.\<close>

definition refolding :: "octets \<Rightarrow> octets \<Rightarrow> nat list \<Rightarrow> octets \<Rightarrow> line_writer \<Rightarrow> bool" where
  "refolding acc0 tx breaks acc lw \<longleftrightarrow>
     lw_refold lw \<and> lw_position lw = length tx \<and> leads tx breaks
   \<and> acc = acc0 @ weave 0 tx (map canonical_fold breaks)
   \<and> (\<forall>b \<in> set breaks. b \<le> length tx)
   \<and> successively short_step (0 # breaks)
   \<and> last (0 # breaks) + lw_column lw = length tx \<and> lw_column lw \<le> REFOLD_WIDTH"

lemma refolding_short: "refolding acc0 tx breaks acc lw \<Longrightarrow> short_lines breaks (length tx)"
  by (auto simp: refolding_def short_lines_def successively_append_iff short_step_def
      simp flip: append_Cons)

lemma refolding_emit:
  assumes "refolding acc0 tx breaks acc lw" and "leads (tx @ bs) breaks"
    and "length bs \<le> REFOLD_WIDTH - lw_column lw"
  shows "refolding acc0 (tx @ bs) breaks (acc @ bs)
    (lw\<lparr>lw_position := lw_position lw + length bs, lw_column := lw_column lw + length bs\<rparr>)"
  using assms weave_append [of "map canonical_fold breaks" 0 tx bs]
  by (auto simp: refolding_def canonical_fold_def)

lemma refolding_break:
  assumes "refolding acc0 tx breaks acc lw"
  shows "refolding acc0 tx (breaks @ [length tx]) (acc @ ending_as_bytes CANONICAL @ [0x20]) (lw\<lparr>lw_column := 0\<rparr>)"
  using assms weave_snoc_fold [of "canonical_fold (length tx)" 0 tx "map canonical_fold breaks"]
  by (auto simp: refolding_def canonical_fold_def fold_bytes_def fold_whitespace_def short_step_def
      successively_append_iff leads_break simp flip: append_Cons)

lemma refolding_loop:
  assumes "refolding acc0 tx breaks acc lw" "leads (tx @ rest) breaks"
  shows "\<exists>breaks' acc' lw'. push_refolded_loop (vec_put :: ('e, octets) put) lw rest acc = (Inr lw', acc')
    \<and> refolding acc0 (tx @ rest) breaks' acc' lw' \<and> lw_ending lw' = lw_ending lw"
  using assms
proof (induction "2 * length rest + (if lw_column lw = 0 then 0 else 1)" arbitrary: lw rest tx breaks acc
    rule: less_induct)
  case less
  let ?cut = "refold_cut rest (lw_column lw)"
  show ?case
  proof (cases "rest = [] \<or> length rest \<le> REFOLD_WIDTH - lw_column lw")
    case True
    then show ?thesis
      using less(2) refolding_emit [OF less(2,3)]
      by (cases "rest = []") (auto simp: push_refolded_loop_then)
  next
    case False
    let ?lw1 = "lw\<lparr>lw_position := lw_position lw + length (take ?cut rest),
        lw_column := lw_column lw + length (take ?cut rest)\<rparr>"
    let ?lw2 = "?lw1\<lparr>lw_column := 0\<rparr>" and ?acc = "(acc @ take ?cut rest) @ ending_as_bytes CANONICAL @ [0x20]"
    let ?tx = "tx @ take ?cut rest"
    have "length (take ?cut rest) \<le> REFOLD_WIDTH - lw_column lw"
      using refold_cut_le [of rest "lw_column lw"] by simp
    moreover have l: "leads (?tx @ drop ?cut rest) breaks" using less(3) by simp
    ultimately have "refolding acc0 ?tx breaks (acc @ take ?cut rest) ?lw1"
      by (intro refolding_emit [OF less(2) leads_part])
    from refolding_break [OF this]
    have r: "refolding acc0 ?tx (breaks @ [length ?tx]) ?acc ?lw2" by simp
    have m: "2 * length (drop ?cut rest) + (if lw_column ?lw2 = 0 then 0 else 1)
        < 2 * length rest + (if lw_column lw = 0 then 0 else 1)"
      using refold_cut_progress [of rest "lw_column lw"] False by (cases "?cut = 0"; cases rest) auto
    obtain breaks' acc' lw' where
      "push_refolded_loop (vec_put :: ('e, octets) put) ?lw2 (drop ?cut rest) ?acc = (Inr lw', acc')"
      "refolding acc0 (?tx @ drop ?cut rest) breaks' acc' lw'" "lw_ending lw' = lw_ending lw"
      using less(1) [OF m r leads_break [OF l]] by auto
    then show ?thesis
      using False by (auto simp: push_refolded_loop_then [of vec_put lw])
  qed
qed

lemma refolding_push:
  assumes "refolding acc0 tx breaks acc lw"
  obtains breaks' acc' lw' where "push (vec_put :: ('e, octets) put) lw bs acc = (Inr lw', acc')"
    "refolding acc0 (tx @ bs) breaks' acc' lw'" "lw_ending lw' = lw_ending lw"
proof -
  have r: "lw_refold lw" "lw_position lw = length tx" "leads tx breaks" "\<forall>b \<in> set breaks. b \<le> length tx"
    using assms by (auto simp: refolding_def)
  show ?thesis
  proof (cases "lw_position lw = 0 \<and> bs \<noteq> [] \<and> (hd bs = 0x20 \<or> hd bs = 0x09)")
    case True
    then have "leads (tx @ bs) (breaks @ [length tx])"
      using r by (cases breaks) (auto simp: leads_def)
    from refolding_loop [OF refolding_break [OF assms] this] that
    show ?thesis using True r(1) by (auto simp: push_def push_refolded_def)
  next
    case False
    then have "leads (tx @ bs) breaks"
      using r leads_more [OF r(3)] by (cases "tx = []") (auto simp: leads_def)
    from refolding_loop [OF assms this] that
    show ?thesis using False r(1) by (auto simp: push_def push_refolded_def)
  qed
qed

lemma refolding_parameters:
  assumes "refolding acc0 tx breaks acc lw"
  shows "\<exists>breaks' acc' lw'. push_parameters (vec_put :: ('e, octets) put) lw ps acc = (Inr lw', acc')
    \<and> refolding acc0 (tx @ parameters_text ps) breaks' acc' lw' \<and> lw_ending lw' = lw_ending lw"
  using assms
proof (induction ps arbitrary: tx breaks acc lw)
  case Nil
  then show ?case by (auto simp: parameters_text_def)
next
  case (Cons p ps)
  obtain b1 a1 l1 where 1: "push (vec_put :: ('e, octets) put) lw [0x3B] acc = (Inr l1, a1)"
    "refolding acc0 (tx @ [0x3B]) b1 a1 l1" "lw_ending l1 = lw_ending lw"
    by (rule refolding_push [OF Cons(2)])
  obtain b2 a2 l2 where 2: "push (vec_put :: ('e, octets) put) l1 (pm_name p) a1 = (Inr l2, a2)"
    "refolding acc0 ((tx @ [0x3B]) @ pm_name p) b2 a2 l2" "lw_ending l2 = lw_ending l1"
    by (rule refolding_push [OF 1(2)])
  obtain b4 a4 l4 where 4: "(if pm_has_value p
        then and_then (push (vec_put :: ('e, octets) put) l2 [0x3D] a2) (\<lambda>line w. push vec_put line (pm_value p) w)
        else (Inr l2, a2)) = (Inr l4, a4)"
    "refolding acc0 (tx @ parameter_text p) b4 a4 l4" "lw_ending l4 = lw_ending l2"
  proof (cases "pm_has_value p")
    case True
    obtain b3 a3 l3 where 3: "push (vec_put :: ('e, octets) put) l2 [0x3D] a2 = (Inr l3, a3)"
      "refolding acc0 (((tx @ [0x3B]) @ pm_name p) @ [0x3D]) b3 a3 l3" "lw_ending l3 = lw_ending l2"
      by (rule refolding_push [OF 2(2)])
    obtain b4 a4 l4 where "push (vec_put :: ('e, octets) put) l3 (pm_value p) a3 = (Inr l4, a4)"
      "refolding acc0 ((((tx @ [0x3B]) @ pm_name p) @ [0x3D]) @ pm_value p) b4 a4 l4"
      "lw_ending l4 = lw_ending l3"
      by (rule refolding_push [OF 3(2)])
    then show ?thesis using that [of l4 a4 b4] True 3 by (simp add: parameter_text_def)
  next
    case False
    then show ?thesis using that [of l2 a2 b2] 2 by (simp add: parameter_text_def)
  qed
  from Cons.IH [OF 4(2)] show ?case using 1 2 4 by (auto simp: parameters_text_def)
qed

lemma refolding_separator:
  assumes "refolding acc0 tx breaks acc lw"
  obtains breaks' acc' lw' where
    "(if sep then push (vec_put :: ('e, octets) put) lw [0x3A] acc else (Inr lw, acc)) = (Inr lw', acc')"
    "refolding acc0 (tx @ (if sep then [0x3A] else [])) breaks' acc' lw'" "lw_ending lw' = lw_ending lw"
proof (cases sep)
  case True
  obtain breaks' acc' lw' where "push (vec_put :: ('e, octets) put) lw [0x3A] acc = (Inr lw', acc')"
    "refolding acc0 (tx @ [0x3A]) breaks' acc' lw'" "lw_ending lw' = lw_ending lw"
    by (rule refolding_push [OF assms])
  then show ?thesis using that [of lw' acc' breaks'] True by simp
next
  case False
  then show ?thesis using assms that [of lw acc breaks] by simp
qed

lemma refolding_new: "lay_refold l \<Longrightarrow> refolding acc [] [] acc (line_writer_new l)"
  by (simp add: refolding_def line_writer_new_def leads_def)

lemma write_property_leads:
  assumes "lay_refold (pr_layout p)"
  shows "\<exists>breaks. short_lines breaks (length (line_text (LProperty p))) \<and> leads (line_text (LProperty p)) breaks
    \<and> write_property (vec_put :: ('e, octets) put) p acc
      = (Inr (), acc @ weave 0 (line_text (LProperty p)) (map canonical_fold breaks)
          @ ending_bytes (lay_ending (pr_layout p)))"
proof -
  let ?l = "pr_layout p"
  obtain b1 a1 l1 where 1: "push (vec_put :: ('e, octets) put) (line_writer_new ?l) (pr_name p) acc = (Inr l1, a1)"
    "refolding acc ([] @ pr_name p) b1 a1 l1" "lw_ending l1 = lw_ending (line_writer_new ?l)"
    by (rule refolding_push [OF refolding_new [OF assms]])
  obtain b2 a2 l2 where 2: "push_parameters (vec_put :: ('e, octets) put) l1 (pr_parameters p) a1 = (Inr l2, a2)"
    "refolding acc (([] @ pr_name p) @ parameters_text (pr_parameters p)) b2 a2 l2" "lw_ending l2 = lw_ending l1"
    using refolding_parameters [OF 1(2)] by blast
  obtain b3 a3 l3 where 3: "(if lay_has_separator ?l then push (vec_put :: ('e, octets) put) l2 [0x3A] a2 else (Inr l2, a2)) = (Inr l3, a3)"
    "refolding acc ((([] @ pr_name p) @ parameters_text (pr_parameters p)) @ (if lay_has_separator ?l then [0x3A] else [])) b3 a3 l3"
    "lw_ending l3 = lw_ending l2"
    by (rule refolding_separator [OF 2(2)])
  obtain b4 a4 l4 where 4: "push (vec_put :: ('e, octets) put) l3 (pr_value_text p) a3 = (Inr l4, a4)"
    "refolding acc (((([] @ pr_name p) @ parameters_text (pr_parameters p)) @ (if lay_has_separator ?l then [0x3A] else [])) @ pr_value_text p) b4 a4 l4"
    "lw_ending l4 = lw_ending l3"
    by (rule refolding_push [OF 3(2)])
  have r: "refolding acc (line_text (LProperty p)) b4 a4 l4" using 4(2) by simp
  have "lw_ending l4 = lay_ending ?l" using 1 2 3 4 by (simp add: line_writer_new_def)
  then show ?thesis
    using refolding_short [OF r] r 1(1) 2(1) 3(1) 4(1)
    by (intro exI [of _ b4]) (simp add: write_property_def Let_def finish_vec refolding_def)
qed

lemma write_property_refolded:
  assumes "lay_refold (pr_layout p)"
  shows "\<exists>breaks. short_lines breaks (length (line_text (LProperty p)))
    \<and> write_property (vec_put :: ('e, octets) put) p acc
      = (Inr (), acc @ weave 0 (line_text (LProperty p)) (map canonical_fold breaks)
          @ ending_bytes (lay_ending (pr_layout p)))"
  using write_property_leads [OF assms] by blast

lemma write_boundary_refolded:
  assumes "lay_refold (b_layout b)"
  shows "\<exists>breaks. short_lines breaks (length (line_text (LBoundary b)))
    \<and> write_boundary (vec_put :: ('e, octets) put) b acc
      = (Inr (), acc @ weave 0 (line_text (LBoundary b)) (map canonical_fold breaks)
          @ ending_bytes (lay_ending (b_layout b)))"
proof -
  let ?l = "b_layout b"
  obtain b1 a1 l1 where 1: "push (vec_put :: ('e, octets) put) (line_writer_new ?l) (b_keyword b) acc = (Inr l1, a1)"
    "refolding acc ([] @ b_keyword b) b1 a1 l1" "lw_ending l1 = lw_ending (line_writer_new ?l)"
    by (rule refolding_push [OF refolding_new [OF assms]])
  obtain b3 a3 l3 where 3: "(if lay_has_separator ?l then push (vec_put :: ('e, octets) put) l1 [0x3A] a1 else (Inr l1, a1)) = (Inr l3, a3)"
    "refolding acc (([] @ b_keyword b) @ (if lay_has_separator ?l then [0x3A] else [])) b3 a3 l3"
    "lw_ending l3 = lw_ending l1"
    by (rule refolding_separator [OF 1(2)])
  obtain b4 a4 l4 where 4: "push (vec_put :: ('e, octets) put) l3 (b_name b) a3 = (Inr l4, a4)"
    "refolding acc ((([] @ b_keyword b) @ (if lay_has_separator ?l then [0x3A] else [])) @ b_name b) b4 a4 l4"
    "lw_ending l4 = lw_ending l3"
    by (rule refolding_push [OF 3(2)])
  have r: "refolding acc (line_text (LBoundary b)) b4 a4 l4" using 4(2) by simp
  have "lw_ending l4 = lay_ending ?l" using 1 3 4 by (simp add: line_writer_new_def)
  then show ?thesis
    using refolding_short [OF r] r 1(1) 3(1) 4(1)
    by (intro exI [of _ b4]) (simp add: write_boundary_def Let_def finish_vec refolding_def)
qed

section \<open>Properties\<close>



text \<open>
  C4. Every sink receives the document: a sink that takes all octets of a call, or fails having
  taken a part of them, holds after a successful write exactly what the buffer would hold, and
  after a failed one a prefix of it.
\<close>

theorem every_sink_receives_the_document:
  assumes "octet_sink put held"
  shows "case serialize put doc w of
      (Inr _, w') \<Rightarrow> serialize (vec_put :: (unit, octets) put) doc (held w) = (Inr (), held w')
    | (Inl _, w') \<Rightarrow> prefix (held w') (snd (serialize (vec_put :: (unit, octets) put) doc (held w)))"
  using octet_sink.follows_serialize [OF assms, of doc]
  by (auto simp: follows_def split: prod.splits sum.splits)

text \<open>A buffer of fixed size, as a sink that does fail.\<close>

definition bounded_put :: "nat \<Rightarrow> (unit, octets) put" where
  "bounded_put n w bs =
     (if length (w @ bs) \<le> n then (Inr (), w @ bs) else (Inl (), take n (w @ bs)))"

theorem every_sink_receives_the_document_witness:
  "serialize (bounded_put 3) \<lparr>doc_items = [IProperty (property_new [0x58] [] [0x61] (layout_canonical CrLf))]\<rparr> []
     = (Inl (), [0x58, 0x3A, 0x61])
   \<and> prefix [0x58, 0x3A, 0x61]
       (to_bytes \<lparr>doc_items = [IProperty (property_new [0x58] [] [0x61] (layout_canonical CrLf))]\<rparr>)"
proof -
  let ?doc = "\<lparr>doc_items = [IProperty (property_new [0x58] [] [0x61] (layout_canonical CrLf))]\<rparr>"
  have sink: "octet_sink (bounded_put 3) (\<lambda>w. w)"
    by unfold_locales (auto simp: bounded_put_def take_is_prefix simp del: take_append split: if_splits)
  have s: "serialize (bounded_put 3) ?doc [] = (Inl (), [0x58, 0x3A, 0x61])"
    by (simp add: serialize_def write_items_def write_items_loop.simps write_line_def write_property_def
        property_new_def layout_canonical_def line_writer_new_def push_def push_refolded_def
        push_refolded_loop.simps REFOLD_WIDTH_def emit_octets_def bounded_put_def finish_def Let_def)
  show ?thesis
    using every_sink_receives_the_document [OF sink, of ?doc "[]"] s by (simp add: to_bytes_def)
qed

end
