(* ===== verification/Recur_Rule.thy ===== *)
theory Recur_Rule
  imports Gregorian
begin

unbundle bit_operations_syntax

text \<open>
  The recurrence rule of \<open>recur/rule.rs\<close> and the table of RFC 5545 section 3.3.10 as
  \<open>recur/table.rs\<close> transcribes it: frequencies, rule parts, the rule and its builder, the bit set
  of parts a rule carries, and what each part does to the candidates of a period.  The signed and
  unsigned value lists are lists of integers and naturals; \<open>rule_in_width\<close> states the widths the
  code's element types give them.
\<close>

section \<open>The vocabulary\<close>

datatype freq = Secondly | Minutely | Hourly | Daily | Weekly | Monthly | Yearly

definition freq_all :: "freq list" where
  "freq_all = [Secondly, Minutely, Hourly, Daily, Weekly, Monthly, Yearly]"

fun freq_as_bytes :: "freq \<Rightarrow> octets" where
  "freq_as_bytes Secondly = ascii ''SECONDLY''"
| "freq_as_bytes Minutely = ascii ''MINUTELY''"
| "freq_as_bytes Hourly = ascii ''HOURLY''"
| "freq_as_bytes Daily = ascii ''DAILY''"
| "freq_as_bytes Weekly = ascii ''WEEKLY''"
| "freq_as_bytes Monthly = ascii ''MONTHLY''"
| "freq_as_bytes Yearly = ascii ''YEARLY''"

fun freq_index :: "freq \<Rightarrow> nat" where
  "freq_index Secondly = 0"
| "freq_index Minutely = 1"
| "freq_index Hourly = 2"
| "freq_index Daily = 3"
| "freq_index Weekly = 4"
| "freq_index Monthly = 5"
| "freq_index Yearly = 6"

datatype rule_part =
  ByMonth | ByWeekNo | ByYearDay | ByMonthDay | ByDay | ByHour | ByMinute | BySecond | BySetPos

definition rule_part_all :: "rule_part list" where
  "rule_part_all =
     [ByMonth, ByWeekNo, ByYearDay, ByMonthDay, ByDay, ByHour, ByMinute, BySecond, BySetPos]"

fun rule_part_as_bytes :: "rule_part \<Rightarrow> octets" where
  "rule_part_as_bytes ByMonth = ascii ''BYMONTH''"
| "rule_part_as_bytes ByWeekNo = ascii ''BYWEEKNO''"
| "rule_part_as_bytes ByYearDay = ascii ''BYYEARDAY''"
| "rule_part_as_bytes ByMonthDay = ascii ''BYMONTHDAY''"
| "rule_part_as_bytes ByDay = ascii ''BYDAY''"
| "rule_part_as_bytes ByHour = ascii ''BYHOUR''"
| "rule_part_as_bytes ByMinute = ascii ''BYMINUTE''"
| "rule_part_as_bytes BySecond = ascii ''BYSECOND''"
| "rule_part_as_bytes BySetPos = ascii ''BYSETPOS''"

fun rule_part_bit :: "rule_part \<Rightarrow> 16 word" where
  "rule_part_bit ByMonth = 1"
| "rule_part_bit ByWeekNo = 2"
| "rule_part_bit ByYearDay = 4"
| "rule_part_bit ByMonthDay = 8"
| "rule_part_bit ByDay = 16"
| "rule_part_bit ByHour = 32"
| "rule_part_bit ByMinute = 64"
| "rule_part_bit BySecond = 128"
| "rule_part_bit BySetPos = 256"

fun rule_part_index :: "rule_part \<Rightarrow> nat" where
  "rule_part_index ByMonth = 0"
| "rule_part_index ByWeekNo = 1"
| "rule_part_index ByYearDay = 2"
| "rule_part_index ByMonthDay = 3"
| "rule_part_index ByDay = 4"
| "rule_part_index ByHour = 5"
| "rule_part_index ByMinute = 6"
| "rule_part_index BySecond = 7"
| "rule_part_index BySetPos = 8"

datatype value_kind = KindDate | KindDateTime

record weekday_num =
  wn_ordinal :: "int option"
  wn_weekday :: weekday

definition MAX_ORDINAL :: nat where "MAX_ORDINAL = 53"

text \<open>The ordinal is a non-zero 8-bit integer in the code.\<close>

definition weekday_num_new :: "int option \<Rightarrow> weekday \<Rightarrow> weekday_num option" where
  "weekday_num_new ordinal w =
     (let too_far = (case ordinal of None \<Rightarrow> False | Some count \<Rightarrow> MAX_ORDINAL < nat \<bar>count\<bar>)
      in if too_far then None else Some \<lparr>wn_ordinal = ordinal, wn_weekday = w\<rparr>)"

datatype until_clock = UntilUtc | UntilFloating

datatype rule_limit =
  Infinite
| CountLimit nat
| UntilLimit instant value_kind until_clock

datatype rule_error =
  MissingFrequency | UnknownFrequency | OrdinalOutOfRange | SetPosWithoutByRule

section \<open>The rule\<close>

record recurrence_rule =
  rule_freq :: freq
  rule_interval :: nat
  rule_limited :: rule_limit
  rule_wkst :: weekday
  by_second :: "nat list"
  by_minute :: "nat list"
  by_hour :: "nat list"
  by_day :: "weekday_num list"
  by_month_day :: "int list"
  by_year_day :: "int list"
  by_week_no :: "int list"
  by_month :: "nat list"
  by_set_pos :: "int list"

definition DEFAULT_INTERVAL :: nat where "DEFAULT_INTERVAL = 1"
definition DEFAULT_WKST :: weekday where "DEFAULT_WKST = Monday"

definition with_limit :: "recurrence_rule \<Rightarrow> rule_limit \<Rightarrow> recurrence_rule" where
  "with_limit r l = r\<lparr>rule_limited := l\<rparr>"

fun has_part :: "recurrence_rule \<Rightarrow> rule_part \<Rightarrow> bool" where
  "has_part r ByMonth \<longleftrightarrow> by_month r \<noteq> []"
| "has_part r ByWeekNo \<longleftrightarrow> by_week_no r \<noteq> []"
| "has_part r ByYearDay \<longleftrightarrow> by_year_day r \<noteq> []"
| "has_part r ByMonthDay \<longleftrightarrow> by_month_day r \<noteq> []"
| "has_part r ByDay \<longleftrightarrow> by_day r \<noteq> []"
| "has_part r ByHour \<longleftrightarrow> by_hour r \<noteq> []"
| "has_part r ByMinute \<longleftrightarrow> by_minute r \<noteq> []"
| "has_part r BySecond \<longleftrightarrow> by_second r \<noteq> []"
| "has_part r BySetPos \<longleftrightarrow> by_set_pos r \<noteq> []"

definition has_selectable_part :: "recurrence_rule \<Rightarrow> bool" where
  "has_selectable_part r \<longleftrightarrow> list_ex (has_part r) (filter (\<lambda>p. p \<noteq> BySetPos) rule_part_all)"

text \<open>The builder is the rule it is filling in; \<open>build\<close> is where it may refuse.\<close>

definition rule_new :: "freq \<Rightarrow> recurrence_rule" where
  "rule_new f =
     \<lparr>rule_freq = f, rule_interval = DEFAULT_INTERVAL, rule_limited = Infinite,
      rule_wkst = DEFAULT_WKST, by_second = [], by_minute = [], by_hour = [], by_day = [],
      by_month_day = [], by_year_day = [], by_week_no = [], by_month = [], by_set_pos = []\<rparr>"

definition rule_build :: "recurrence_rule \<Rightarrow> rule_error + recurrence_rule" where
  "rule_build r =
     (if by_set_pos r \<noteq> [] \<and> \<not> has_selectable_part r then Inl SetPosWithoutByRule else Inr r)"

text \<open>
  What the element types of the code's rule promise: the interval and a count are non-zero 32-bit
  numbers, the lists hold 8-bit and 16-bit integers, and an ordinal is non-zero and at most 53
  either way.
\<close>

definition in_i8 :: "int \<Rightarrow> bool" where "in_i8 x \<longleftrightarrow> -128 \<le> x \<and> x \<le> 127"
definition in_i16 :: "int \<Rightarrow> bool" where "in_i16 x \<longleftrightarrow> -32768 \<le> x \<and> x \<le> 32767"

definition ordinal_ok :: "weekday_num \<Rightarrow> bool" where
  "ordinal_ok w \<longleftrightarrow>
     (case wn_ordinal w of None \<Rightarrow> True | Some n \<Rightarrow> n \<noteq> 0 \<and> \<bar>n\<bar> \<le> int MAX_ORDINAL)"

definition rule_in_width :: "recurrence_rule \<Rightarrow> bool" where
  "rule_in_width r \<longleftrightarrow>
     1 \<le> rule_interval r \<and> rule_interval r \<le> u32_max
     \<and> (case rule_limited r of CountLimit n \<Rightarrow> 1 \<le> n \<and> n \<le> u32_max | _ \<Rightarrow> True)
     \<and> list_all (\<lambda>x. x \<le> u8_max) (by_second r @ by_minute r @ by_hour r @ by_month r)
     \<and> list_all ordinal_ok (by_day r)
     \<and> list_all in_i8 (by_month_day r @ by_week_no r)
     \<and> list_all in_i16 (by_year_day r @ by_set_pos r)"

section \<open>The table\<close>

datatype cell = CellNotApplicable | CellLimit | CellExpand | NoteOne | NoteTwo

datatype weekday_scope = WeekScope | MonthScope | YearScope

datatype part_effect = NotApplicable | Limit | Expand | ExpandWeekdays weekday_scope

fun expands :: "part_effect \<Rightarrow> bool" where
  "expands Expand \<longleftrightarrow> True"
| "expands (ExpandWeekdays s) \<longleftrightarrow> True"
| "expands NotApplicable \<longleftrightarrow> False"
| "expands Limit \<longleftrightarrow> False"

definition limits_set :: "part_effect \<Rightarrow> bool" where
  "limits_set e \<longleftrightarrow> e = Limit"

type_synonym parts = "16 word"

definition PARTS_NONE :: parts where "PARTS_NONE = 0"

definition parts_with :: "parts \<Rightarrow> rule_part \<Rightarrow> parts" where
  "parts_with s p = s OR rule_part_bit p"

definition parts_has :: "parts \<Rightarrow> rule_part \<Rightarrow> bool" where
  "parts_has s p \<longleftrightarrow> s AND rule_part_bit p \<noteq> 0"

definition parts_present :: "recurrence_rule \<Rightarrow> parts" where
  "parts_present r = foldl parts_with PARTS_NONE (filter (has_part r) rule_part_all)"

definition TABLE :: "cell list list" where
  "TABLE =
     [[CellLimit, CellLimit, CellLimit, CellLimit, CellLimit, CellLimit, CellExpand],
      [CellNotApplicable, CellNotApplicable, CellNotApplicable, CellNotApplicable,
       CellNotApplicable, CellNotApplicable, CellExpand],
      [CellLimit, CellLimit, CellLimit, CellNotApplicable, CellNotApplicable,
       CellNotApplicable, CellExpand],
      [CellLimit, CellLimit, CellLimit, CellLimit, CellNotApplicable, CellExpand, CellExpand],
      [CellLimit, CellLimit, CellLimit, CellLimit, CellExpand, NoteOne, NoteTwo],
      [CellLimit, CellLimit, CellLimit, CellExpand, CellExpand, CellExpand, CellExpand],
      [CellLimit, CellLimit, CellExpand, CellExpand, CellExpand, CellExpand, CellExpand],
      [CellLimit, CellExpand, CellExpand, CellExpand, CellExpand, CellExpand, CellExpand],
      [CellLimit, CellLimit, CellLimit, CellLimit, CellLimit, CellLimit, CellLimit]]"

definition table_cell :: "freq \<Rightarrow> rule_part \<Rightarrow> cell" where
  "table_cell f p = TABLE ! rule_part_index p ! freq_index f"

definition note_one :: "parts \<Rightarrow> part_effect" where
  "note_one present =
     (if parts_has present ByMonthDay then Limit else ExpandWeekdays MonthScope)"

definition note_two :: "parts \<Rightarrow> part_effect" where
  "note_two present =
     (if parts_has present ByYearDay \<or> parts_has present ByMonthDay then Limit
      else if parts_has present ByWeekNo then ExpandWeekdays WeekScope
      else if parts_has present ByMonth then ExpandWeekdays MonthScope
      else ExpandWeekdays YearScope)"

definition effect :: "freq \<Rightarrow> rule_part \<Rightarrow> parts \<Rightarrow> part_effect" where
  "effect f p present =
     (case table_cell f p of
        CellNotApplicable \<Rightarrow> NotApplicable
      | CellLimit \<Rightarrow> Limit
      | CellExpand \<Rightarrow> (if p = ByDay then ExpandWeekdays WeekScope else Expand)
      | NoteOne \<Rightarrow> note_one present
      | NoteTwo \<Rightarrow> note_two present)"

section \<open>Lemmas\<close>

lemma rule_part_all_complete [simp]: "p \<in> set rule_part_all"
  by (cases p) (simp_all add: rule_part_all_def)

lemma parts_has_none [simp]: "\<not> parts_has PARTS_NONE p"
  by (simp add: parts_has_def PARTS_NONE_def)

lemma parts_has_with [simp]: "parts_has (parts_with s q) p \<longleftrightarrow> parts_has s p \<or> p = q"
proof -
  have bits: "rule_part_bit r = push_bit (rule_part_index r) 1" for r
    by (cases r) (simp_all add: push_bit_eq_mult)
  have index: "rule_part_index p = rule_part_index q \<longleftrightarrow> p = q"
    by (cases p; cases q) simp_all
  have small: "rule_part_index r < 16" for r by (cases r) simp_all
  have test: "parts_has t r \<longleftrightarrow> bit t (rule_part_index r)" for t r
    unfolding parts_has_def bits and_exp_eq_0_iff_not_bit [symmetric]
    by (simp add: push_bit_eq_mult and_exp_eq_0_iff_not_bit)
  have "bit (rule_part_bit q) (rule_part_index p) \<longleftrightarrow> p = q"
    using small [of p] index by (auto simp: bits bit_simps)
  then show ?thesis
    by (simp add: test parts_with_def bit_or_iff)
qed

lemma parts_has_foldl: "parts_has (foldl parts_with s ps) p \<longleftrightarrow> parts_has s p \<or> p \<in> set ps"
  by (induction ps arbitrary: s) auto

lemma parts_has_present [simp]: "parts_has (parts_present r) p \<longleftrightarrow> has_part r p"
  by (simp add: parts_present_def parts_has_foldl)

lemma has_selectable_part_iff: "has_selectable_part r \<longleftrightarrow> (\<exists>p. p \<noteq> BySetPos \<and> has_part r p)"
  by (auto simp: has_selectable_part_def list_ex_iff)

end
