(* ===== verification/Recur_Period.thy ===== *)
theory Recur_Period
  imports Recur_Rule Civil_Time
begin

text \<open>
  The period walk of \<open>recur/period.rs\<close>: where the period holding \<open>DTSTART\<close> begins, the three
  arithmetics the seven frequencies step in, and the walk that yields one anchor per call and
  latches when it runs out.  The lemmas put every anchor on one line: a frequency counts either
  seconds or months, and the walk's anchors are an arithmetic progression there.
\<close>

section \<open>Cadences\<close>

definition DAYS_PER_WEEK :: int where "DAYS_PER_WEEK = 7"
definition LAST_SECOND_OF_MINUTE :: nat where "LAST_SECOND_OF_MINUTE = 59"

datatype cadence = CSeconds int | CDays int | CMonths int

fun cadence_of :: "freq \<Rightarrow> cadence" where
  "cadence_of Secondly = CSeconds 1"
| "cadence_of Minutely = CSeconds SECONDS_PER_MINUTE"
| "cadence_of Hourly = CSeconds SECONDS_PER_HOUR"
| "cadence_of Daily = CDays 1"
| "cadence_of Weekly = CDays DAYS_PER_WEEK"
| "cadence_of Monthly = CMonths 1"
| "cadence_of Yearly = CMonths MONTHS_PER_YEAR"

record period =
  period_anchor :: civil_datetime

definition midnight :: "civil_date \<Rightarrow> civil_datetime" where
  "midnight d = \<lparr>date_part = d, time_part = MIDNIGHT\<rparr>"

definition at_time :: "civil_date \<Rightarrow> nat \<Rightarrow> nat \<Rightarrow> nat \<Rightarrow> civil_datetime option" where
  "at_time d h m s = do {
     t \<leftarrow> time_from_hms h m s;
     Some \<lparr>date_part = d, time_part = t\<rparr>
   }"

definition week_origin :: "civil_date \<Rightarrow> weekday \<Rightarrow> civil_date option" where
  "week_origin d wkst = do {
     w \<leftarrow> weekday_of d;
     back \<leftarrow> sub64 (int (weekday_index w)) (int (weekday_index wkst));
     let elapsed = back mod DAYS_PER_WEEK;
     shift \<leftarrow> sub64 0 elapsed;
     checked_add_days d shift
   }"

definition period_start :: "civil_datetime \<Rightarrow> freq \<Rightarrow> weekday \<Rightarrow> civil_datetime option" where
  "period_start dtstart f wkst =
     (let d = date_part dtstart; t = time_part dtstart in
      case f of
        Secondly \<Rightarrow> at_time d (hour t) (minute t) (min (second t) LAST_SECOND_OF_MINUTE)
      | Minutely \<Rightarrow> at_time d (hour t) (minute t) 0
      | Hourly \<Rightarrow> at_time d (hour t) 0 0
      | Daily \<Rightarrow> Some (midnight d)
      | Weekly \<Rightarrow> map_option midnight (week_origin d wkst)
      | Monthly \<Rightarrow> map_option midnight (date_from_ymd (year d) (month d) 1)
      | Yearly \<Rightarrow> map_option midnight (date_from_ymd (year d) 1 1))"

definition shifted_by_months :: "civil_datetime \<Rightarrow> int \<Rightarrow> civil_datetime option" where
  "shifted_by_months from' months =
     (case add_months (date_part from') months of
        Exact d \<Rightarrow> Some \<lparr>date_part = d, time_part = time_part from'\<rparr>
      | _ \<Rightarrow> None)"

fun advance_by :: "civil_datetime \<Rightarrow> cadence \<Rightarrow> int \<Rightarrow> civil_datetime option" where
  "advance_by from' (CSeconds unit) count = do {
     s \<leftarrow> mul64 unit count;
     checked_add_duration from' \<lparr>span_days = 0, span_seconds = s\<rparr>
   }"
| "advance_by from' (CDays unit) count = do {
     d \<leftarrow> mul64 unit count;
     checked_add_duration from' \<lparr>span_days = d, span_seconds = 0\<rparr>
   }"
| "advance_by from' (CMonths unit) count = do {
     months \<leftarrow> mul64 unit count;
     months32 \<leftarrow> checked_i32 months;
     shifted_by_months from' months32
   }"

section \<open>The walk\<close>

record period_walk =
  walk_origin :: "civil_datetime option"
  walk_cadence :: cadence
  walk_interval :: nat
  walk_index :: nat
  walk_finished :: bool

definition resume_at :: "civil_datetime \<Rightarrow> recurrence_rule \<Rightarrow> nat \<Rightarrow> period_walk" where
  "resume_at dtstart r index =
     \<lparr>walk_origin = period_start dtstart (rule_freq r) (rule_wkst r),
      walk_cadence = cadence_of (rule_freq r), walk_interval = rule_interval r,
      walk_index = index, walk_finished = False\<rparr>"

definition walk_new :: "civil_datetime \<Rightarrow> recurrence_rule \<Rightarrow> period_walk" where
  "walk_new dtstart r = resume_at dtstart r 0"

definition period_at :: "period_walk \<Rightarrow> nat \<Rightarrow> period option" where
  "period_at w index = do {
     i \<leftarrow> checked_i64 (int index);
     steps \<leftarrow> mul64 i (int (walk_interval w));
     origin \<leftarrow> walk_origin w;
     anchor \<leftarrow> advance_by origin (walk_cadence w) steps;
     Some \<lparr>period_anchor = anchor\<rparr>
   }"

definition walk_next_period :: "period_walk \<Rightarrow> period option \<times> period_walk" where
  "walk_next_period w =
     (if walk_finished w then (None, w)
      else case period_at w (walk_index w) of
        None \<Rightarrow> (None, w\<lparr>walk_finished := True\<rparr>)
      | Some p \<Rightarrow>
          (Some p,
           if walk_index w < u64_max then w\<lparr>walk_index := walk_index w + 1\<rparr>
           else w\<lparr>walk_finished := True\<rparr>))"

section \<open>Positions\<close>

text \<open>
  The line a cadence counts on and how far one unit of it goes: seconds of the local timeline, or
  months since January of year 0.
\<close>

fun cadence_position :: "cadence \<Rightarrow> civil_datetime \<Rightarrow> int" where
  "cadence_position (CMonths u) a = month_total (date_part a) 0"
| "cadence_position (CSeconds u) a = local_seconds a"
| "cadence_position (CDays u) a = local_seconds a"

fun cadence_unit :: "cadence \<Rightarrow> int" where
  "cadence_unit (CMonths u) = u"
| "cadence_unit (CSeconds u) = u"
| "cadence_unit (CDays u) = u * 86400"

text \<open>What every anchor of a cadence is: an ordinary clock reading, and midnight on a first for months.\<close>

definition anchored :: "cadence \<Rightarrow> civil_datetime \<Rightarrow> bool" where
  "anchored c a \<longleftrightarrow> valid_datetime a \<and> second (time_part a) \<le> 59
     \<and> (case c of CMonths u \<Rightarrow> day (date_part a) = 1 \<and> time_part a = MIDNIGHT | _ \<Rightarrow> True)"

lemma local_seconds_unique:
  assumes "valid_datetime a" "valid_datetime b" "second (time_part a) \<le> 59"
    "second (time_part b) \<le> 59" "local_seconds a = local_seconds b"
  shows "a = b"
proof -
  have v: "valid_date (date_part a)" "valid_time (time_part a)"
    "valid_date (date_part b)" "valid_time (time_part b)"
    using assms(1,2) by (auto simp: valid_datetime_def)
  note s = seconds_of_day_value(2,3) [OF v(2)] seconds_of_day_value(2,3) [OF v(4)]
  have day: "day_number (date_part a) = day_number (date_part b)"
    using assms(5) s unfolding local_seconds_def by linarith
  moreover have "seconds_of_day (time_part a) = seconds_of_day (time_part b)"
    using assms(5) day unfolding local_seconds_def by linarith
  ultimately have "date_part a = date_part b" "fold_leap (time_part a) = fold_leap (time_part b)"
    using day_number_unique v clock_of_seconds by metis+
  then show ?thesis
    using assms(3,4) by (simp add: fold_leap_def)
qed

lemma advance_seconds_iff:
  assumes "valid_datetime o'" "in_i64 n"
  shows "advance_by o' (CSeconds u) n = Some a \<longleftrightarrow>
    valid_datetime a \<and> second (time_part a) \<le> 59 \<and> local_seconds a = local_seconds o' + u * n"
proof (cases "in_i64 (u * n)")
  case True
  have v: "valid_time (time_part o')" using assms(1) by (simp add: valid_datetime_def)
  show ?thesis
  proof (cases "in_i64 (seconds_of_day (time_part o') + u * n)")
    case in_range: True
    then show ?thesis
      using True checked_add_duration_iff [OF assms(1), of "\<lparr>span_days = 0, span_seconds = u * n\<rparr>" a]
      by (simp add: mul64_def checked_i64_def valid_duration_def in_i64_def)
  next
    case False
    then have "checked_add_duration o' \<lparr>span_days = 0, span_seconds = u * n\<rparr> = None"
      by (simp add: checked_add_duration_def add64_def checked_i64_def)
    moreover have "local_seconds a \<noteq> local_seconds o' + u * n" if "valid_datetime a"
      using False local_seconds_bound [OF that] local_seconds_bound [OF assms(1)]
        seconds_of_day_value(2,3) [OF v] by (auto simp: in_i64_def)
    ultimately show ?thesis using True by (auto simp: mul64_def checked_i64_def)
  qed
next
  case False
  have "local_seconds a \<noteq> local_seconds o' + u * n" if "valid_datetime a"
    using False local_seconds_bound [OF that] local_seconds_bound [OF assms(1)]
    by (auto simp: in_i64_def)
  with False show ?thesis by (auto simp: mul64_def checked_i64_def)
qed

lemma advance_days_iff:
  assumes "valid_datetime o'" "in_i64 n"
  shows "advance_by o' (CDays u) n = Some a \<longleftrightarrow>
    valid_datetime a \<and> second (time_part a) \<le> 59
      \<and> local_seconds a = local_seconds o' + u * 86400 * n"
proof (cases "in_i64 (u * n)")
  case True
  have v: "valid_time (time_part o')" using assms(1) by (simp add: valid_datetime_def)
  have "in_i64 (seconds_of_day (time_part o') + 0)"
    using seconds_of_day_value(2,3) [OF v] by (simp add: in_i64_def)
  then show ?thesis
    using True checked_add_duration_iff [OF assms(1), of "\<lparr>span_days = u * n, span_seconds = 0\<rparr>" a]
    by (simp add: mul64_def checked_i64_def valid_duration_def in_i64_def ac_simps)
next
  case False
  have "local_seconds a \<noteq> local_seconds o' + u * 86400 * n" if "valid_datetime a"
    using False local_seconds_bound [OF that] local_seconds_bound [OF assms(1)]
    by (auto simp: in_i64_def)
  with False show ?thesis by (auto simp: mul64_def checked_i64_def)
qed

lemma month_total_bound: "valid_date d \<Longrightarrow> 0 \<le> month_total d 0 \<and> month_total d 0 \<le> 119999"
  using valid_date_bounds [of d] by (auto simp: month_total_def)

lemma month_total_parts:
  assumes "valid_date d"
  shows "month_total d 0 div 12 = int (year d)" "month_total d 0 mod 12 = int (month d) - 1"
proof -
  have r: "0 \<le> int (month d) - 1" "int (month d) - 1 < 12" using valid_date_bounds [OF assms] by auto
  have "month_total d 0 = 12 * int (year d) + (int (month d) - 1)" by (simp add: month_total_def)
  then show "month_total d 0 div 12 = int (year d)" "month_total d 0 mod 12 = int (month d) - 1"
    using r by (auto intro: int_div_pos_eq int_mod_pos_eq)
qed

lemma month_total_first_unique:
  assumes "valid_date d" "valid_date d'" "day d = day d'" "month_total d 0 = month_total d' 0"
  shows "d = d'"
  using assms month_total_parts [OF assms(1)] month_total_parts [OF assms(2)] by simp

lemma first_of_month_at:
  assumes "0 \<le> t" "t \<le> 119999"
  defines "d \<equiv> \<lparr>year = nat (t div 12), month = nat (t mod 12 + 1), day = 1\<rparr>"
  shows "valid_date d \<and> month_total d 0 = t"
proof -
  have m: "1 \<le> nat (t mod 12 + 1)" "nat (t mod 12 + 1) \<le> 12" by (auto simp: nat_le_iff le_nat_iff)
  then obtain n where n: "days_in_month (nat (t div 12)) (nat (t mod 12 + 1)) = Some n"
    using days_in_month_Some_iff by blast
  have t: "t div 12 \<le> 9999" "0 \<le> t div 12" using assms(1,2) by auto
  then have "valid_date d"
    using n days_in_month_bounds [OF n] by (simp add: valid_date_iff d_def MAX_YEAR_def nat_le_iff)
  moreover have "month_total d 0 = t" using t(2) by (simp add: month_total_def d_def)
  ultimately show ?thesis ..
qed

lemma advance_months_iff:
  assumes "anchored (CMonths u) o'" "in_i64 n"
  shows "advance_by o' (CMonths u) n = Some a \<longleftrightarrow>
    anchored (CMonths u) a
      \<and> cadence_position (CMonths u) a = cadence_position (CMonths u) o' + u * n"
proof -
  have o': "valid_date (date_part o')" "day (date_part o') = 1" "time_part o' = MIDNIGHT"
    using assms(1) by (auto simp: anchored_def valid_datetime_def)
  define t where "t = month_total (date_part o') (u * n)"
  have t: "t = month_total (date_part o') 0 + u * n" by (simp add: t_def month_total_def)
  have shifted: "advance_by o' (CMonths u) n =
      (if 0 \<le> t \<and> t \<le> 119999
       then Some \<lparr>date_part = \<lparr>year = nat (t div 12), month = nat (t mod 12 + 1), day = 1\<rparr>,
                  time_part = MIDNIGHT\<rparr>
       else None)"
  proof (cases "in_i32 (u * n)")
    case True
    then have "in_i64 (u * n)" by (auto simp: in_i32_def in_i64_def)
    moreover have "1 \<le> month_length (nat (t div 12)) (nat (t mod 12 + 1))"
    proof -
      have "1 \<le> nat (t mod 12 + 1)" "nat (t mod 12 + 1) \<le> 12" by (auto simp: nat_le_iff le_nat_iff)
      then obtain k where "days_in_month (nat (t div 12)) (nat (t mod 12 + 1)) = Some k"
        using days_in_month_Some_iff by blast
      then show ?thesis using days_in_month_bounds by (fastforce simp: month_length_def)
    qed
    ultimately show ?thesis
      using True o' add_months_value [OF o'(1) True]
      by (simp add: mul64_def checked_i64_def checked_i32_def shifted_by_months_def
          month_add_spec_def Let_def flip: t_def)
  next
    case False
    then have "\<not> (0 \<le> t \<and> t \<le> 119999)"
      using month_total_bound [OF o'(1)] by (auto simp: t in_i32_def)
    with False show ?thesis by (auto simp: mul64_def checked_i64_def checked_i32_def)
  qed
  show ?thesis
  proof
    assume "advance_by o' (CMonths u) n = Some a"
    then show "anchored (CMonths u) a
        \<and> cadence_position (CMonths u) a = cadence_position (CMonths u) o' + u * n"
      using first_of_month_at [of t] unfolding shifted
      by (auto simp: anchored_def valid_datetime_def MIDNIGHT_def valid_time_def t split: if_splits)
  next
    assume a: "anchored (CMonths u) a
        \<and> cadence_position (CMonths u) a = cadence_position (CMonths u) o' + u * n"
    then have d: "valid_date (date_part a)" "day (date_part a) = 1" "time_part a = MIDNIGHT"
      "month_total (date_part a) 0 = t"
      by (auto simp: anchored_def valid_datetime_def t)
    with month_total_bound [OF d(1)] have r: "0 \<le> t" "t \<le> 119999" by auto
    have "date_part a = \<lparr>year = nat (t div 12), month = nat (t mod 12 + 1), day = 1\<rparr>"
      using first_of_month_at [OF r] d by (intro month_total_first_unique) auto
    with r d(3) show "advance_by o' (CMonths u) n = Some a"
      unfolding shifted by (cases a) simp
  qed
qed

lemma advance_by_iff:
  assumes "anchored c o'" "in_i64 n"
  shows "advance_by o' c n = Some a \<longleftrightarrow>
    anchored c a \<and> cadence_position c a = cadence_position c o' + cadence_unit c * n"
proof (cases c)
  case (CMonths u)
  then show ?thesis using assms advance_months_iff by simp
next
  case (CSeconds u)
  then show ?thesis using assms advance_seconds_iff by (simp add: anchored_def)
next
  case (CDays u)
  then show ?thesis using assms advance_days_iff by (simp add: anchored_def)
qed

section \<open>What a cadence can express\<close>

fun cadence_first :: "cadence \<Rightarrow> int" where
  "cadence_first (CMonths u) = 0"
| "cadence_first (CSeconds u) = - 719528 * 86400"
| "cadence_first (CDays u) = - 719528 * 86400"

fun cadence_last :: "cadence \<Rightarrow> int" where
  "cadence_last (CMonths u) = 119999"
| "cadence_last (CSeconds u) = 2932896 * 86400 + 86399"
| "cadence_last (CDays u) = 2932896 * 86400 + 86399"

lemma local_seconds_range:
  assumes "valid_datetime a"
  shows "- 719528 * 86400 \<le> local_seconds a" "local_seconds a \<le> 2932896 * 86400 + 86399"
proof -
  have v: "valid_date (date_part a)" "valid_time (time_part a)"
    using assms by (auto simp: valid_datetime_def)
  show "- 719528 * 86400 \<le> local_seconds a" "local_seconds a \<le> 2932896 * 86400 + 86399"
    using day_number_le_iff [OF v(1)] seconds_of_day_value(2,3) [OF v(2)]
    by (simp_all add: local_seconds_def)
qed

lemma local_seconds_reached:
  assumes "- 719528 * 86400 \<le> x" "x \<le> 2932896 * 86400 + 86399"
  shows "\<exists>a. valid_datetime a \<and> second (time_part a) \<le> 59 \<and> local_seconds a = x"
proof -
  define d s where "d = x div 86400" and "s = x mod 86400"
  have x: "x = d * 86400 + s" and s: "0 \<le> s" "s < 86400" by (simp_all add: d_def s_def)
  have "- 719528 \<le> d" "d \<le> 2932896" using assms s unfolding x by linarith+
  then obtain c where "valid_date c" "day_number c = d" using from_days_from_epoch_total by blast
  then show ?thesis
    using clock_valid [OF s] seconds_of_clock [OF s] x
    by (intro exI [of _ "\<lparr>date_part = c, time_part = clock s\<rparr>"])
       (simp add: valid_datetime_def local_seconds_def)
qed

lemma anchored_position_iff:
  "(\<exists>a. anchored c a \<and> cadence_position c a = x) \<longleftrightarrow> cadence_first c \<le> x \<and> x \<le> cadence_last c"
proof (cases c)
  case (CMonths u)
  have "\<exists>a. anchored c a \<and> cadence_position c a = x" if "0 \<le> x" "x \<le> 119999"
    using first_of_month_at [OF that] CMonths
    by (intro exI [of _ "midnight \<lparr>year = nat (x div 12), month = nat (x mod 12 + 1), day = 1\<rparr>"])
       (simp add: anchored_def valid_datetime_def midnight_def MIDNIGHT_def valid_time_def)
  then show ?thesis
    using month_total_bound CMonths by (auto simp: anchored_def valid_datetime_def)
qed (use local_seconds_range local_seconds_reached in \<open>auto simp: anchored_def\<close>)

lemma anchored_unique:
  assumes "anchored c a" "anchored c b" "cadence_position c a = cadence_position c b"
  shows "a = b"
proof (cases c)
  case (CMonths u)
  then have "date_part a = date_part b"
    using assms by (intro month_total_first_unique) (auto simp: anchored_def valid_datetime_def)
  then show ?thesis using assms(1,2) CMonths by (simp add: anchored_def)
qed (use assms local_seconds_unique in \<open>auto simp: anchored_def\<close>)

lemma cadence_unit_pos: "0 < cadence_unit (cadence_of f)"
  by (cases f) (simp_all add: arith_consts DAYS_PER_WEEK_def)

section \<open>Where a period begins\<close>

lemma weekday_same:
  assumes "valid_date d"
  shows "weekday_of d = Some w \<longleftrightarrow> (day_number d + 3 - int (weekday_index w)) mod 7 = 0"
proof -
  obtain v where v: "weekday_of d = Some v" "int (weekday_index v) = (day_number d + 3) mod 7"
    using weekday_of_index [OF assms] by blast
  have "v = w \<longleftrightarrow> weekday_index v = weekday_index w"
    using weekday_from_index_inverse by (metis option.inject)
  also have "\<dots> \<longleftrightarrow> (day_number d + 3 - int (weekday_index w)) mod 7 = 0"
    using v(2) weekday_index_less [of v] weekday_index_less [of w] by presburger
  finally show ?thesis using v(1) by simp
qed

lemma week_origin_iff:
  assumes "valid_date d"
  shows "week_origin d wkst = Some e \<longleftrightarrow>
    valid_date e \<and> day_number e = day_number d - (day_number d + 3 - int (weekday_index wkst)) mod 7"
proof -
  obtain v where v: "weekday_of d = Some v" "int (weekday_index v) = (day_number d + 3) mod 7"
    using weekday_of_index [OF assms] by blast
  define k where "k = (int (weekday_index v) - int (weekday_index wkst)) mod 7"
  have k: "0 \<le> k" "k < 7" by (simp_all add: k_def)
  have "k = (day_number d + 3 - int (weekday_index wkst)) mod 7"
    unfolding k_def v(2) by (rule mod_diff_left_eq)
  moreover have "week_origin d wkst = checked_add_days d (- k)"
    using k weekday_index_less [of v] weekday_index_less [of wkst]
    by (simp add: week_origin_def v(1) sub64_def checked_i64_def in_i64_def DAYS_PER_WEEK_def Let_def
        flip: k_def)
  ultimately show ?thesis
    using checked_add_days_iff [OF assms, of "- k" e] k by (simp add: in_i64_def)
qed

lemma week_origin_within:
  assumes "valid_date d" "week_origin d wkst = Some e"
  shows "valid_date e" "weekday_of e = Some wkst"
    "day_number e \<le> day_number d" "day_number d < day_number e + 7"
proof -
  define k where "k = (day_number d + 3 - int (weekday_index wkst)) mod 7"
  have k: "0 \<le> k" "k < 7" by (simp_all add: k_def)
  have e: "valid_date e" "day_number e = day_number d - k"
    using week_origin_iff [OF assms(1)] assms(2) by (auto simp: k_def)
  show "valid_date e" "day_number e \<le> day_number d" "day_number d < day_number e + 7"
    using e k by auto
  have "(day_number d - k + 3 - int (weekday_index wkst)) mod 7 = 0"
    unfolding k_def by presburger
  then show "weekday_of e = Some wkst" using weekday_same [OF e(1)] e(2) by simp
qed

lemma midnight_fields [simp]:
  "date_part (midnight d) = d" "time_part (midnight d) = MIDNIGHT"
  "local_seconds (midnight d) = day_number d * 86400" "second MIDNIGHT = 0"
  by (simp_all add: midnight_def local_seconds_def MIDNIGHT_def seconds_of_day_def sat_i64_def)

lemma valid_midnight [simp]: "valid_datetime (midnight d) \<longleftrightarrow> valid_date d"
  by (simp add: midnight_def valid_datetime_def MIDNIGHT_def valid_time_def)

lemma date_of_month:
  assumes "valid_date d" "1 \<le> m" "m \<le> 12"
  shows "date_from_ymd (year d) m 1 = Some \<lparr>year = year d, month = m, day = 1\<rparr>"
proof -
  obtain n where "days_in_month (year d) m = Some n" using assms days_in_month_Some_iff by blast
  then show ?thesis
    using assms days_in_month_bounds valid_date_iff by (fastforce simp: date_from_ymd_Some_iff)
qed

definition within_period :: "cadence \<Rightarrow> civil_datetime \<Rightarrow> civil_datetime \<Rightarrow> bool" where
  "within_period c a t \<longleftrightarrow>
     cadence_position c a \<le> cadence_position c t
     \<and> cadence_position c t < cadence_position c a + cadence_unit c"

lemma seconds_of_truncated:
  assumes "valid_datetime t" "valid_time u" "hour u = hour (time_part t)"
  shows "local_seconds t - local_seconds \<lparr>date_part = date_part t, time_part = u\<rparr>
    = 60 * (int (minute (time_part t)) - int (minute u))
      + int (min (second (time_part t)) 59) - int (min (second u) 59)"
proof -
  have "valid_time (time_part t)" using assms(1) by (simp add: valid_datetime_def)
  then show ?thesis
    using assms(2,3) by (simp add: local_seconds_def seconds_of_day_value(1))
qed

lemma period_start_seconds:
  assumes "valid_datetime t" "period_start t f wkst = Some a" "f \<in> {Secondly, Minutely, Hourly, Daily, Weekly}"
  shows "anchored (cadence_of f) a \<and> within_period (cadence_of f) a t"
proof -
  have v: "valid_date (date_part t)" "valid_time (time_part t)"
    using assms(1) by (auto simp: valid_datetime_def)
  have b: "hour (time_part t) \<le> 23" "minute (time_part t) \<le> 59" "second (time_part t) \<le> 60"
    using v(2) by (auto simp: valid_time_def)
  note s = seconds_of_day_value(2,3) [OF v(2)]
  have here: "local_seconds t = day_number (date_part t) * 86400 + seconds_of_day (time_part t)"
    by (rule local_seconds_def)
  have clock: ?thesis if "cadence_of f = CSeconds u" "a = \<lparr>date_part = date_part t, time_part = c\<rparr>"
    "valid_time c" "second c \<le> 59" "hour c = hour (time_part t)"
    "0 \<le> 60 * (int (minute (time_part t)) - int (minute c))
       + int (min (second (time_part t)) 59) - int (min (second c) 59)"
    "60 * (int (minute (time_part t)) - int (minute c))
       + int (min (second (time_part t)) 59) - int (min (second c) 59) < u" for u c
    using that v seconds_of_truncated [OF assms(1) that(3,5)]
    by (simp add: anchored_def within_period_def valid_datetime_def)
  show ?thesis
  proof (cases f)
    case Secondly
    show ?thesis
      using assms(2) Secondly b
      by (intro clock [where c = "\<lparr>hour = hour (time_part t), minute = minute (time_part t),
            second = min (second (time_part t)) 59\<rparr>" and u = 1])
         (auto simp: period_start_def at_time_def Let_def time_from_hms_def LAST_SECOND_OF_MINUTE_def
           valid_time_def)
  next
    case Minutely
    show ?thesis
      using assms(2) Minutely b
      by (intro clock [where c = "\<lparr>hour = hour (time_part t), minute = minute (time_part t),
            second = 0\<rparr>" and u = 60])
         (auto simp: period_start_def at_time_def Let_def time_from_hms_def arith_consts valid_time_def)
  next
    case Hourly
    show ?thesis
      using assms(2) Hourly b
      by (intro clock [where c = "\<lparr>hour = hour (time_part t), minute = 0, second = 0\<rparr>" and u = 3600])
         (auto simp: period_start_def at_time_def Let_def time_from_hms_def arith_consts valid_time_def)
  next
    case Daily
    then show ?thesis
      using assms(2) v s
      by (auto simp: period_start_def Let_def anchored_def within_period_def here)
  next
    case Weekly
    then obtain e where e: "week_origin (date_part t) wkst = Some e" "a = midnight e"
      using assms(2) by (auto simp: period_start_def Let_def)
    note w = week_origin_within [OF v(1) e(1)]
    have "day_number (date_part t) \<le> day_number e + 6" using w(4) by simp
    then have "day_number (date_part t) * 86400 \<le> (day_number e + 6) * 86400"
      by (intro mult_right_mono) auto
    then show ?thesis
      using w s Weekly e(2)
      by (simp add: anchored_def within_period_def DAYS_PER_WEEK_def here algebra_simps)
  qed (use assms(3) in auto)
qed

lemma period_start_months:
  assumes "valid_datetime t" "period_start t f wkst = Some a" "f \<in> {Monthly, Yearly}"
  shows "anchored (cadence_of f) a \<and> within_period (cadence_of f) a t"
proof -
  have v: "valid_date (date_part t)" using assms(1) by (auto simp: valid_datetime_def)
  define m where "m = (if f = Monthly then month (date_part t) else 1)"
  note b = valid_date_bounds [OF v]
  have a: "a = midnight \<lparr>year = year (date_part t), month = m, day = 1\<rparr>"
    using assms(2,3) date_of_month [OF v b(2,3)] date_of_month [OF v, of 1]
    by (auto simp: period_start_def Let_def m_def)
  have "date_from_ymd (year (date_part t)) m 1 = Some \<lparr>year = year (date_part t), month = m, day = 1\<rparr>"
    using b by (intro date_of_month [OF v]) (auto simp: m_def)
  then have "valid_date \<lparr>year = year (date_part t), month = m, day = 1\<rparr>" by (rule date_from_ymd_valid)
  then show ?thesis
    using assms(3) b
    by (auto simp: a anchored_def within_period_def month_total_def arith_consts m_def MIDNIGHT_def)
qed

lemma period_start_holds:
  assumes "valid_datetime t" "period_start t f wkst = Some a"
  shows "anchored (cadence_of f) a" "within_period (cadence_of f) a t"
  using period_start_seconds [OF assms] period_start_months [OF assms] by (cases f; simp)+

section \<open>The walk as a progression\<close>

fun walk_periods :: "nat \<Rightarrow> period_walk \<Rightarrow> period option list \<times> period_walk" where
  "walk_periods 0 w = ([], w)"
| "walk_periods (Suc n) w =
     (case walk_next_period w of (p, w') \<Rightarrow>
        (case walk_periods n w' of (ps, w'') \<Rightarrow> (p # ps, w'')))"

definition rule_step :: "recurrence_rule \<Rightarrow> int" where
  "rule_step r = cadence_unit (cadence_of (rule_freq r)) * int (rule_interval r)"

lemma rule_step_pos: "rule_in_width r \<Longrightarrow> 0 < rule_step r"
  using cadence_unit_pos by (simp add: rule_step_def rule_in_width_def)

lemma period_at_iff:
  assumes "valid_datetime t" "rule_in_width r" "period_start t (rule_freq r) (rule_wkst r) = Some o'"
  defines "c \<equiv> cadence_of (rule_freq r)"
  shows "period_at (resume_at t r i) k = Some p \<longleftrightarrow>
    anchored c (period_anchor p)
      \<and> cadence_position c (period_anchor p) = cadence_position c o' + rule_step r * int k"
proof -
  have o': "anchored c o'" using period_start_holds [OF assms(1,3)] by (simp add: c_def)
  have i: "1 \<le> rule_interval r" using assms(2) by (simp add: rule_in_width_def)
  define n where "n = int k * int (rule_interval r)"
  have step: "rule_step r * int k = cadence_unit c * n"
    by (simp add: rule_step_def n_def c_def)
  have calc: "period_at (resume_at t r i) k = (if in_i64 n
      then map_option (\<lambda>a. \<lparr>period_anchor = a\<rparr>) (advance_by o' c n) else None)"
  proof -
    have "in_i64 (int k)" if "in_i64 n"
    proof -
      have "int k * 1 \<le> n" unfolding n_def using i by (intro mult_left_mono) auto
      then show ?thesis using that by (simp add: in_i64_def)
    qed
    then show ?thesis
      using assms(3)
      by (cases "advance_by o' c n")
         (auto simp: period_at_def resume_at_def mul64_def checked_i64_def n_def c_def)
  qed
  show ?thesis
  proof (cases "in_i64 n")
    case True
    then show ?thesis
      using calc advance_by_iff [OF o' True, of "period_anchor p"] step by (cases p) auto
  next
    case False
    have "\<not> (anchored c a \<and> cadence_position c a = cadence_position c o' + cadence_unit c * n)" for a
    proof
      assume a: "anchored c a \<and> cadence_position c a = cadence_position c o' + cadence_unit c * n"
      have "0 \<le> n" by (simp add: n_def)
      then have "9223372036854775807 < n" using False by (simp add: in_i64_def)
      moreover have "1 * n \<le> cadence_unit c * n"
        using cadence_unit_pos [of "rule_freq r"] by (intro mult_right_mono) (auto simp: c_def n_def)
      moreover have "cadence_first c \<le> cadence_position c o'"
        "cadence_position c a \<le> cadence_last c"
        using anchored_position_iff o' a by blast+
      moreover have "- 1000000000000 \<le> cadence_first c" "cadence_last c \<le> 1000000000000"
        by (cases c; simp)+
      ultimately show False using a by linarith
    qed
    with False calc step show ?thesis by simp
  qed
qed

lemma period_at_None_later:
  assumes "valid_datetime t" "rule_in_width r" "period_at (resume_at t r i) k = None" "k \<le> l"
  shows "period_at (resume_at t r j) l = None"
proof (rule ccontr)
  assume l: "period_at (resume_at t r j) l \<noteq> None"
  then obtain o' where o': "period_start t (rule_freq r) (rule_wkst r) = Some o'"
    by (cases "period_start t (rule_freq r) (rule_wkst r)")
       (auto simp: period_at_def resume_at_def checked_defs split: if_splits)
  let ?c = "cadence_of (rule_freq r)"
  note iff = period_at_iff [OF assms(1,2) o']
  from l obtain p where "period_at (resume_at t r j) l = Some p" by blast
  then obtain a where a: "anchored ?c a"
    "cadence_position ?c a = cadence_position ?c o' + rule_step r * int l"
    using iff by blast
  have o1: "anchored ?c o'" using period_start_holds [OF assms(1) o'] by simp
  have first: "cadence_first ?c \<le> cadence_position ?c o'" using anchored_position_iff o1 by blast
  have last: "cadence_position ?c a \<le> cadence_last ?c" using anchored_position_iff a(1) by blast
  have "0 \<le> rule_step r * int k" "rule_step r * int k \<le> rule_step r * int l"
    using rule_step_pos [OF assms(2)] assms(4) by (simp_all add: mult_left_mono)
  then have "cadence_first ?c \<le> cadence_position ?c o' + rule_step r * int k"
    "cadence_position ?c o' + rule_step r * int k \<le> cadence_last ?c"
    using first last a(2) by linarith+
  then obtain b where "anchored ?c b" "cadence_position ?c b = cadence_position ?c o' + rule_step r * int k"
    using anchored_position_iff by blast
  then have "period_at (resume_at t r i) k = Some \<lparr>period_anchor = b\<rparr>" using iff by simp
  then show False using assms(3) by simp
qed

lemma period_at_resume: "period_at (resume_at t r i) k = period_at (walk_new t r) k"
  by (simp add: period_at_def resume_at_def walk_new_def)

lemma period_at_past_u64: "u64_max \<le> k \<Longrightarrow> period_at w k = None"
  by (simp add: period_at_def checked_i64_def in_i64_def u64_max_def)

lemma walk_periods_finished: "walk_finished w \<Longrightarrow> walk_periods n w = (replicate n None, w)"
  by (induction n) (simp_all add: walk_next_period_def)

lemma walk_periods_resume:
  assumes "valid_datetime t" "rule_in_width r"
  shows "fst (walk_periods n (resume_at t r i)) = map (period_at (walk_new t r)) [i..<i + n]
    \<and> (let w = snd (walk_periods n (resume_at t r i)) in
        w = resume_at t r (i + n)
        \<or> (walk_finished w \<and> period_at (walk_new t r) (walk_index w) = None \<and> walk_index w < i + n))"
proof (induction n arbitrary: i)
  case (Suc n)
  have idx: "walk_index (resume_at t r i) = i" "\<not> walk_finished (resume_at t r i)"
    by (simp_all add: resume_at_def)
  show ?case
  proof (cases "period_at (walk_new t r) i")
    case None
    let ?w = "(resume_at t r i)\<lparr>walk_finished := True\<rparr>"
    have "walk_next_period (resume_at t r i) = (None, ?w)"
      using None by (simp add: walk_next_period_def idx period_at_resume)
    then have run: "walk_periods (Suc n) (resume_at t r i) = (replicate (Suc n) None, ?w)"
      by (simp add: walk_periods_finished)
    have "period_at (walk_new t r) k = None" if "i \<le> k" for k
      using period_at_None_later [OF assms, of 0 i k 0] None that by (simp add: walk_new_def)
    then have "map (period_at (walk_new t r)) [i..<i + Suc n] = replicate (Suc n) None"
      by (intro nth_equalityI) (auto simp: nth_replicate simp del: upt_Suc replicate_Suc)
    with run show ?thesis using None idx by (simp add: Let_def)
  next
    case (Some p)
    have "i < u64_max" using Some period_at_past_u64 by (metis not_le option.distinct(1))
    then have "walk_next_period (resume_at t r i) = (Some p, resume_at t r (Suc i))"
      using Some by (simp add: walk_next_period_def idx period_at_resume) (simp add: resume_at_def)
    then show ?thesis
      using Some Suc [of "Suc i"]
      by (cases "walk_periods n (resume_at t r (Suc i))") (simp add: upt_conv_Cons Let_def del: upt_Suc)
  qed
qed (simp add: Let_def)

lemma walk_periods_append:
  "fst (walk_periods (m + n) w) = fst (walk_periods m w) @ fst (walk_periods n (snd (walk_periods m w)))"
proof (induction m arbitrary: w)
  case (Suc m)
  obtain p w1 where p: "walk_next_period w = (p, w1)" by fastforce
  have "fst (walk_periods (Suc k) w) = p # fst (walk_periods k w1)"
    "snd (walk_periods (Suc k) w) = snd (walk_periods k w1)" for k
    by (simp_all add: p split: prod.splits)
  then show ?case using Suc [of w1] by simp
qed simp

section \<open>Properties\<close>

text \<open>
  C11. The walk's periods are one arithmetic progression, whatever the frequency: period 0 is the
  one that holds \<open>DTSTART\<close>, and the k-th call answers with the period whose anchor lies k steps of
  \<open>INTERVAL\<close> frequency units further along the line the frequency counts on (local seconds, or
  months), or with nothing exactly when no date and time RFC 5545 can write lies there.  In
  particular the branch for a clamped month is never taken and no product overflows on the way.
\<close>

theorem periods_are_a_progression:
  assumes "valid_datetime t" "rule_in_width r"
    and "period_start t (rule_freq r) (rule_wkst r) = Some first" and "k < n"
  shows "within_period (cadence_of (rule_freq r)) first t
    \<and> (fst (walk_periods n (walk_new t r)) ! k = Some p \<longleftrightarrow>
         anchored (cadence_of (rule_freq r)) (period_anchor p)
         \<and> cadence_position (cadence_of (rule_freq r)) (period_anchor p)
           = cadence_position (cadence_of (rule_freq r)) first + rule_step r * int k)"
proof -
  have "fst (walk_periods n (walk_new t r)) ! k = period_at (walk_new t r) k"
    using walk_periods_resume [OF assms(1,2), of n 0] assms(4) by (simp add: walk_new_def)
  then show ?thesis
    using period_at_iff [OF assms(1-3), of 0 k p] period_start_holds [OF assms(1,3)]
    by (simp add: walk_new_def)
qed

theorem periods_are_a_progression_witness:
  "fst (walk_periods 3 (walk_new (midnight \<lparr>year = 2024, month = 1, day = 31\<rparr>) (rule_new Monthly))) ! 1
     = Some \<lparr>period_anchor = midnight \<lparr>year = 2024, month = 2, day = 1\<rparr>\<rparr>"
proof -
  let ?t = "midnight \<lparr>year = 2024, month = 1, day = 31\<rparr>"
  have v: "valid_datetime ?t"
    by (simp add: valid_date_def date_from_ymd_def days_in_month_def MAX_YEAR_def)
  have r: "rule_in_width (rule_new Monthly)"
    by (simp add: rule_in_width_def rule_new_def DEFAULT_INTERVAL_def u32_max_def)
  have s: "period_start ?t (rule_freq (rule_new Monthly)) (rule_wkst (rule_new Monthly))
      = Some (midnight \<lparr>year = 2024, month = 1, day = 1\<rparr>)"
    by (simp add: period_start_def rule_new_def date_from_ymd_def days_in_month_def MAX_YEAR_def)
  have "anchored (cadence_of Monthly) (midnight \<lparr>year = 2024, month = 2, day = 1\<rparr>)"
    by (simp add: anchored_def valid_date_def date_from_ymd_def days_in_month_def MAX_YEAR_def
        is_leap_year_def)
  with periods_are_a_progression [OF v r s, of 1 3
      "\<lparr>period_anchor = midnight \<lparr>year = 2024, month = 2, day = 1\<rparr>\<rparr>"]
  show ?thesis
    by (simp add: rule_new_def rule_step_def month_total_def DEFAULT_INTERVAL_def)
qed

text \<open>
  C35. Stopping and resuming loses and repeats nothing: after any number of calls, a walk built
  afresh at the index the first one reports yields from there on exactly what the first one would
  have yielded, including when it has run out.
\<close>

theorem walk_resumes_where_it_was_left:
  fixes m n :: nat
  assumes "valid_datetime t" "rule_in_width r"
  defines "w \<equiv> snd (walk_periods n (walk_new t r))"
  shows "fst (walk_periods m (resume_at t r (walk_index w)))
      = drop n (fst (walk_periods (n + m) (walk_new t r)))
    \<and> fst (walk_periods m w) = drop n (fst (walk_periods (n + m) (walk_new t r)))"
proof -
  let ?P = "period_at (walk_new t r)"
  note run = walk_periods_resume [OF assms(1,2)]
  have all: "drop n (fst (walk_periods (n + m) (walk_new t r))) = map ?P [n..<n + m]"
    using run [of "n + m" 0] by (simp add: walk_new_def drop_map)
  have here: "fst (walk_periods m w) = map ?P [n..<n + m]"
    using walk_periods_append [of n m "walk_new t r"] run [of n 0] all
    by (simp add: w_def walk_new_def)
  have "fst (walk_periods m (resume_at t r (walk_index w))) = map ?P [n..<n + m]"
  proof (cases "w = resume_at t r n")
    case True
    then show ?thesis using run [of m n] by (simp add: resume_at_def)
  next
    case False
    then have fin: "walk_finished w" "?P (walk_index w) = None" "walk_index w < n"
      using run [of n 0] by (auto simp: w_def walk_new_def Let_def)
    have "?P k = None" if "walk_index w \<le> k" for k
      using period_at_None_later [OF assms(1,2), of 0 "walk_index w" k 0] fin(2) that
      by (simp add: walk_new_def)
    then have "map ?P [walk_index w..<walk_index w + m] = map ?P [n..<n + m]"
      using fin(3) by (intro nth_equalityI) auto
    then show ?thesis using run [of m "walk_index w"] by simp
  qed
  with here all show ?thesis by simp
qed

theorem walk_resumes_where_it_was_left_witness:
  "fst (walk_periods 2 (resume_at (midnight \<lparr>year = 2024, month = 1, day = 31\<rparr>) (rule_new Weekly)
       (walk_index (snd (walk_periods 3 (walk_new (midnight \<lparr>year = 2024, month = 1, day = 31\<rparr>)
         (rule_new Weekly)))))))
    = drop 3 (fst (walk_periods 5 (walk_new (midnight \<lparr>year = 2024, month = 1, day = 31\<rparr>)
        (rule_new Weekly))))"
proof -
  have v: "valid_datetime (midnight \<lparr>year = 2024, month = 1, day = 31\<rparr>)"
    by (simp add: valid_date_def date_from_ymd_def days_in_month_def MAX_YEAR_def)
  have r: "rule_in_width (rule_new Weekly)"
    by (simp add: rule_in_width_def rule_new_def DEFAULT_INTERVAL_def u32_max_def)
  from walk_resumes_where_it_was_left [OF v r, of 2 3] show ?thesis by simp
qed

end
