(* ===== verification/Civil_Order.thy ===== *)
theory Civil_Order
  imports Civil_Time "HOL-Library.Product_Lexorder"
begin

text \<open>
  The derived orders of \<open>core/gregorian.rs\<close>: a date, a time of day and a date with a time compare
  field by field in declaration order.  The lemmas relate that order to the day count and to the
  local timeline, where a leap second and the second before it are one.
\<close>

section \<open>The orders\<close>

instantiation civil_date_ext :: (linorder) linorder
begin

definition less_eq_civil_date_ext :: "'a civil_date_ext \<Rightarrow> 'a civil_date_ext \<Rightarrow> bool" where
  "less_eq_civil_date_ext c d \<longleftrightarrow>
     (year c, month c, day c, civil_date.more c) \<le> (year d, month d, day d, civil_date.more d)"

definition less_civil_date_ext :: "'a civil_date_ext \<Rightarrow> 'a civil_date_ext \<Rightarrow> bool" where
  "less_civil_date_ext c d \<longleftrightarrow>
     (year c, month c, day c, civil_date.more c) < (year d, month d, day d, civil_date.more d)"

instance
proof
  fix c d e :: "'a civil_date_ext"
  show "c < d \<longleftrightarrow> c \<le> d \<and> \<not> d \<le> c"
    unfolding less_civil_date_ext_def less_eq_civil_date_ext_def by (rule less_le_not_le)
  show "c \<le> c" unfolding less_eq_civil_date_ext_def by (rule order_refl)
  show "c \<le> e" if "c \<le> d" "d \<le> e"
    using that unfolding less_eq_civil_date_ext_def by (rule order_trans)
  show "c = d" if "c \<le> d" "d \<le> c"
    using that unfolding less_eq_civil_date_ext_def
    by (cases c; cases d) (auto dest: antisym)
  show "c \<le> d \<or> d \<le> c" unfolding less_eq_civil_date_ext_def by (rule linear)
qed

end

instantiation civil_time_ext :: (linorder) linorder
begin

definition less_eq_civil_time_ext :: "'a civil_time_ext \<Rightarrow> 'a civil_time_ext \<Rightarrow> bool" where
  "less_eq_civil_time_ext c d \<longleftrightarrow>
     (hour c, minute c, second c, civil_time.more c) \<le> (hour d, minute d, second d, civil_time.more d)"

definition less_civil_time_ext :: "'a civil_time_ext \<Rightarrow> 'a civil_time_ext \<Rightarrow> bool" where
  "less_civil_time_ext c d \<longleftrightarrow>
     (hour c, minute c, second c, civil_time.more c) < (hour d, minute d, second d, civil_time.more d)"

instance
proof
  fix c d e :: "'a civil_time_ext"
  show "c < d \<longleftrightarrow> c \<le> d \<and> \<not> d \<le> c"
    unfolding less_civil_time_ext_def less_eq_civil_time_ext_def by (rule less_le_not_le)
  show "c \<le> c" unfolding less_eq_civil_time_ext_def by (rule order_refl)
  show "c \<le> e" if "c \<le> d" "d \<le> e"
    using that unfolding less_eq_civil_time_ext_def by (rule order_trans)
  show "c = d" if "c \<le> d" "d \<le> c"
    using that unfolding less_eq_civil_time_ext_def
    by (cases c; cases d) (auto dest: antisym)
  show "c \<le> d \<or> d \<le> c" unfolding less_eq_civil_time_ext_def by (rule linear)
qed

end

instantiation civil_datetime_ext :: (linorder) linorder
begin

definition less_eq_civil_datetime_ext :: "'a civil_datetime_ext \<Rightarrow> 'a civil_datetime_ext \<Rightarrow> bool" where
  "less_eq_civil_datetime_ext c d \<longleftrightarrow>
     (date_part c, time_part c, civil_datetime.more c)
       \<le> (date_part d, time_part d, civil_datetime.more d)"

definition less_civil_datetime_ext :: "'a civil_datetime_ext \<Rightarrow> 'a civil_datetime_ext \<Rightarrow> bool" where
  "less_civil_datetime_ext c d \<longleftrightarrow>
     (date_part c, time_part c, civil_datetime.more c)
       < (date_part d, time_part d, civil_datetime.more d)"

instance
proof
  fix c d e :: "'a civil_datetime_ext"
  show "c < d \<longleftrightarrow> c \<le> d \<and> \<not> d \<le> c"
    unfolding less_civil_datetime_ext_def less_eq_civil_datetime_ext_def by (rule less_le_not_le)
  show "c \<le> c" unfolding less_eq_civil_datetime_ext_def by (rule order_refl)
  show "c \<le> e" if "c \<le> d" "d \<le> e"
    using that unfolding less_eq_civil_datetime_ext_def by (rule order_trans)
  show "c = d" if "c \<le> d" "d \<le> c"
    using that unfolding less_eq_civil_datetime_ext_def
    by (cases c; cases d) (auto dest: antisym)
  show "c \<le> d \<or> d \<le> c" unfolding less_eq_civil_datetime_ext_def by (rule linear)
qed

end

instantiation instant_ext :: (linorder) linorder
begin

definition less_eq_instant_ext :: "'a instant_ext \<Rightarrow> 'a instant_ext \<Rightarrow> bool" where
  "less_eq_instant_ext c d \<longleftrightarrow> (unix_seconds c, instant.more c) \<le> (unix_seconds d, instant.more d)"

definition less_instant_ext :: "'a instant_ext \<Rightarrow> 'a instant_ext \<Rightarrow> bool" where
  "less_instant_ext c d \<longleftrightarrow> (unix_seconds c, instant.more c) < (unix_seconds d, instant.more d)"

instance
proof
  fix c d e :: "'a instant_ext"
  show "c < d \<longleftrightarrow> c \<le> d \<and> \<not> d \<le> c"
    unfolding less_instant_ext_def less_eq_instant_ext_def by (rule less_le_not_le)
  show "c \<le> c" unfolding less_eq_instant_ext_def by (rule order_refl)
  show "c \<le> e" if "c \<le> d" "d \<le> e"
    using that unfolding less_eq_instant_ext_def by (rule order_trans)
  show "c = d" if "c \<le> d" "d \<le> c"
    using that unfolding less_eq_instant_ext_def
    by (cases c; cases d) (auto dest: antisym)
  show "c \<le> d \<or> d \<le> c" unfolding less_eq_instant_ext_def by (rule linear)
qed

end

section \<open>Comparisons by field\<close>

lemma instant_le_iff: "(i :: instant) \<le> j \<longleftrightarrow> unix_seconds i \<le> unix_seconds j"
  by (auto simp: less_eq_instant_ext_def)

lemma instant_less_iff: "(i :: instant) < j \<longleftrightarrow> unix_seconds i < unix_seconds j"
  by (auto simp: less_instant_ext_def)

lemma date_less_iff:
  "(c :: civil_date) < d \<longleftrightarrow>
     year c < year d \<or> year c = year d \<and> (month c < month d \<or> month c = month d \<and> day c < day d)"
  by (auto simp: less_civil_date_ext_def)

lemma time_less_iff:
  "(c :: civil_time) < d \<longleftrightarrow>
     hour c < hour d \<or> hour c = hour d
       \<and> (minute c < minute d \<or> minute c = minute d \<and> second c < second d)"
  by (auto simp: less_civil_time_ext_def)

lemma datetime_less_iff:
  "(c :: civil_datetime) < d \<longleftrightarrow>
     date_part c < date_part d \<or> date_part c = date_part d \<and> time_part c < time_part d"
  by (auto simp: less_civil_datetime_ext_def)

section \<open>The orders and the timeline\<close>

lemma days_before_month_step:
  assumes "1 \<le> m" "m < k"
  shows "days_before_month y m + month_length y m \<le> days_before_month y k"
proof -
  have "[1..<k] = [1..<m] @ m # [Suc m..<k]"
    using assms upt_add_eq_append [of 1 m "k - m"] by (simp add: upt_conv_Cons)
  then show ?thesis by (simp add: days_before_month_def)
qed

lemma days_before_year_step:
  assumes "y < z"
  shows "days_before_year y + year_length y \<le> days_before_year z"
proof -
  have "[0..<z] = [0..<y] @ y # [Suc y..<z]"
    using assms upt_add_eq_append [of 0 y "z - y"] by (simp add: upt_conv_Cons)
  then show ?thesis by (simp add: days_before_year_def)
qed

lemma valid_date_in_year:
  assumes "valid_date c"
  shows "day c \<le> month_length (year c) (month c)"
    "days_before_month (year c) (month c) + day c \<le> year_length (year c)"
proof -
  show d: "day c \<le> month_length (year c) (month c)"
    using assms by (auto simp: valid_date_iff month_length_def)
  have "days_before_month (year c) (month c) + month_length (year c) (month c)
      \<le> days_before_month (year c) 13"
    using valid_date_bounds [OF assms] by (intro days_before_month_step) auto
  with d show "days_before_month (year c) (month c) + day c \<le> year_length (year c)"
    by (simp add: days_before_month_table)
qed

lemma date_less_day_number:
  assumes "valid_date c" "valid_date d" "c < d"
  shows "day_number c < day_number d"
proof (cases "year c < year d")
  case True
  then show ?thesis
    using days_before_year_step [OF True] valid_date_in_year(2) [OF assms(1)]
      valid_date_bounds(4) [OF assms(2)]
    by (simp add: day_number_def)
next
  case same_year: False
  then have y: "year d = year c" using assms(3) by (auto simp: date_less_iff)
  show ?thesis
  proof (cases "month c < month d")
    case True
    then show ?thesis
      using days_before_month_step [OF valid_date_bounds(2) [OF assms(1)] True, of "year c"]
        valid_date_in_year(1) [OF assms(1)] valid_date_bounds(4) [OF assms(2)] y
      by (simp add: day_number_def)
  next
    case False
    then show ?thesis using assms(3) y by (auto simp: date_less_iff day_number_def)
  qed
qed

lemma day_number_less_iff:
  assumes "valid_date c" "valid_date d"
  shows "day_number c < day_number d \<longleftrightarrow> c < d"
  using date_less_day_number [OF assms] date_less_day_number [OF assms(2,1)]
  by (metis less_irrefl not_less_iff_gr_or_eq)

lemma time_le_seconds:
  assumes "valid_time c" "valid_time d" "c \<le> d"
  shows "seconds_of_day c \<le> seconds_of_day d"
proof (cases "c = d")
  case False
  then have "c < d" using assms(3) by simp
  then show ?thesis
    using assms(1,2)
    by (auto simp: time_less_iff seconds_of_day_value(1) [OF assms(1)] seconds_of_day_value(1) [OF assms(2)]
        valid_time_def)
qed simp

text \<open>Chronological in the derived order is chronological on the timeline.\<close>

lemma datetime_le_local_seconds:
  assumes "valid_datetime c" "valid_datetime d" "c \<le> d"
  shows "local_seconds c \<le> local_seconds d"
proof -
  have v: "valid_date (date_part c)" "valid_date (date_part d)"
    "valid_time (time_part c)" "valid_time (time_part d)"
    using assms by (auto simp: valid_datetime_def)
  note s = seconds_of_day_value(2,3) [OF v(3)] seconds_of_day_value(2,3) [OF v(4)]
  consider "date_part c < date_part d" | "date_part c = date_part d" "time_part c \<le> time_part d"
    using assms(3) by (cases c; cases d) (auto simp: order_le_less datetime_less_iff)
  then show ?thesis
  proof cases
    case 1
    then have "day_number (date_part c) + 1 \<le> day_number (date_part d)"
      using day_number_less_iff [OF v(1,2)] by simp
    then have "(day_number (date_part c) + 1) * 86400 \<le> day_number (date_part d) * 86400"
      by (intro mult_right_mono) auto
    then show ?thesis using s by (simp add: local_seconds_def algebra_simps)
  next
    case 2
    then show ?thesis using time_le_seconds [OF v(3,4)] by (simp add: local_seconds_def)
  qed
qed

end
