(* ===== verification/Recur_Weeks.thy ===== *)
theory Recur_Weeks
  imports Recur_Rule Civil_Order
begin

text \<open>
  The calendar counting inside \<open>recur/byparts.rs\<close>: the day of the year, the weeks of a week-based
  year, the position a weekday has within a week, a month or a year, and the position a signed
  value names.  The lemmas compare each with counting: a day's week number with the weeks that lie
  between it and the week of January 4th, and a weekday's position with the number of the same
  weekdays up to it.
\<close>

section \<open>Definitions\<close>

definition days_in_year :: "nat \<Rightarrow> nat" where
  "days_in_year y = (if is_leap_year y then 366 else 365)"

definition day_of_year :: "civil_date \<Rightarrow> nat option" where
  "day_of_year d = do {
     start \<leftarrow> date_from_ymd (year d) 1 1;
     here \<leftarrow> days_from_epoch d;
     first \<leftarrow> days_from_epoch start;
     elapsed \<leftarrow> sub64 here first;
     next_day \<leftarrow> add64 elapsed 1;
     u16_try_from next_day
   }"

definition week_offset :: "weekday \<Rightarrow> weekday \<Rightarrow> nat" where
  "week_offset w wkst = nat ((int (weekday_index w) - int (weekday_index wkst)) mod 7)"

definition week_of :: "civil_date \<Rightarrow> weekday \<Rightarrow> (nat \<times> nat) option" where
  "week_of d wkst = do {
     w \<leftarrow> weekday_of d;
     shift \<leftarrow> sub64 3 (int (week_offset w wkst));
     pivot \<leftarrow> checked_add_days d shift;
     reached \<leftarrow> day_of_year pivot;
     before \<leftarrow> (if 1 \<le> reached then Some (reached - 1) else None);
     number \<leftarrow> u8_try_from (int (before div 7 + 1));
     Some (year pivot, number)
   }"

definition weeks_in_week_year :: "nat \<Rightarrow> weekday \<Rightarrow> nat option" where
  "weeks_in_week_year y wkst = do {
     last \<leftarrow> date_from_ymd y 12 31;
     (holder, number) \<leftarrow> week_of last wkst;
     if holder = y then Some number
     else do {
       earlier \<leftarrow> checked_add_days last (- 7);
       (_, previous) \<leftarrow> week_of earlier wkst;
       Some previous
     }
   }"

definition week_one_start :: "nat \<Rightarrow> weekday \<Rightarrow> civil_date option" where
  "week_one_start y wkst = do {
     fourth \<leftarrow> date_from_ymd y 1 4;
     w \<leftarrow> weekday_of fourth;
     back \<leftarrow> sub64 0 (int (week_offset w wkst));
     checked_add_days fourth back
   }"

definition week_year_extent :: "nat \<Rightarrow> weekday \<Rightarrow> (civil_date \<times> nat) option" where
  "week_year_extent y wkst = do {
     start \<leftarrow> week_one_start y wkst;
     weeks \<leftarrow> weeks_in_week_year y wkst;
     len \<leftarrow> u16_try_from (int weeks * 7);
     Some (start, len)
   }"

text \<open>The position a signed value names among \<open>len\<close> things, counted from one.\<close>

definition position_named :: "int \<Rightarrow> nat \<Rightarrow> nat option" where
  "position_named v len = do {
     n \<leftarrow> checked_i32 (int len);
     position \<leftarrow> (if 0 < v then Some v
                  else if v < 0 then Option.bind (add32 n v) (\<lambda>x. add32 x 1)
                  else None);
     if 1 \<le> position \<and> position \<le> n then Some (nat position) else None
   }"

definition weekday_position :: "civil_date \<Rightarrow> weekday_scope \<Rightarrow> weekday \<Rightarrow> (nat \<times> nat) option" where
  "weekday_position d scope wkst = do {
     (offset, len) \<leftarrow>
       (case scope of
          WeekScope \<Rightarrow> map_option (\<lambda>w. (week_offset w wkst, 7)) (weekday_of d)
        | MonthScope \<Rightarrow> do {
            o' \<leftarrow> (if 1 \<le> day d then Some (day d - 1) else None);
            n \<leftarrow> days_in_month (year d) (month d);
            Some (o', n)
          }
        | YearScope \<Rightarrow> do {
            reached \<leftarrow> day_of_year d;
            o' \<leftarrow> (if 1 \<le> reached then Some (reached - 1) else None);
            Some (o', days_in_year (year d))
          });
     let index = offset div 7 + 1;
     let first = offset mod 7;
     above \<leftarrow> (if first + 1 \<le> len then Some (len - first - 1) else None);
     Some (index, above div 7 + 1)
   }"

section \<open>Days of the year\<close>

lemma days_in_year_length [simp]: "days_in_year y = year_length y"
  by (simp add: days_in_year_def year_length_def)

lemma january_first:
  assumes "y \<le> 9999"
  shows "date_from_ymd y 1 1 = Some \<lparr>year = y, month = 1, day = 1\<rparr>"
    "valid_date \<lparr>year = y, month = 1, day = 1\<rparr>"
  using assms by (simp_all add: date_from_ymd_def days_in_month_def MAX_YEAR_def valid_date_def)

definition year_begin :: "nat \<Rightarrow> int" where
  "year_begin y = int (days_before_year y) - 719528"

lemma day_number_january_first: "day_number \<lparr>year = y, month = 1, day = 1\<rparr> = year_begin y"
  by (simp add: day_number_def year_begin_def days_before_month_def)

lemma year_begin_Suc: "year_begin (Suc y) = year_begin y + int (year_length y)"
  by (simp add: year_begin_def days_before_year_def)

lemma year_begin_mono: "y \<le> z \<Longrightarrow> year_begin y \<le> year_begin z"
  using days_before_year_step [of y z] by (cases "y = z") (auto simp: year_begin_def)

lemma year_holds:
  assumes "valid_date d"
  shows "year_begin (year d) \<le> day_number d" "day_number d < year_begin (year d) + int (year_length (year d))"
  using valid_date_in_year(2) [OF assms] valid_date_bounds(4) [OF assms]
  by (simp_all add: year_begin_def day_number_def)

lemma year_of_day:
  assumes "valid_date d" "year_begin y \<le> day_number d" "day_number d < year_begin (Suc y)"
  shows "year d = y"
proof -
  note h = year_holds [OF assms(1)]
  have "\<not> Suc y \<le> year d" using h(1) assms(3) year_begin_mono [of "Suc y" "year d"] by linarith
  moreover have "\<not> Suc (year d) \<le> y"
    using h(2) assms(2) year_begin_mono [of "Suc (year d)" y] year_begin_Suc [of "year d"] by linarith
  ultimately show ?thesis by simp
qed

lemma day_of_year_value:
  assumes "valid_date d"
  shows "day_of_year d = Some (nat (day_number d - year_begin (year d) + 1))"
proof -
  have y: "year d \<le> 9999" using valid_date_bounds [OF assms] by simp
  note h = year_holds [OF assms]
  have "year_length (year d) \<le> 366" using year_length_cases [of "year d"] by auto
  then have "0 \<le> day_number d - year_begin (year d)" "day_number d - year_begin (year d) \<le> 365"
    using h by linarith+
  then show ?thesis
    using days_from_epoch_value [OF assms] days_from_epoch_value [OF january_first(2) [OF y]]
      january_first(1) [OF y] day_number_january_first [of "year d"]
    by (simp add: day_of_year_def sub64_def add64_def checked_i64_def in_i64_def u16_try_from_def)
qed

section \<open>Weeks\<close>

text \<open>The first day of the week a day lies in, and of week one of a year, as day counts.\<close>

definition week_begin :: "weekday \<Rightarrow> int \<Rightarrow> int" where
  "week_begin wkst n = n - (n + 3 - int (weekday_index wkst)) mod 7"

definition week_one_begin :: "nat \<Rightarrow> weekday \<Rightarrow> int" where
  "week_one_begin y wkst = week_begin wkst (year_begin y + 3)"

lemma week_begin_bounds: "week_begin wkst n \<le> n" "n < week_begin wkst n + 7"
  using pos_mod_bound [of 7 "n + 3 - int (weekday_index wkst)"]
  by (simp_all add: week_begin_def)

lemma week_begin_mod: "(week_begin wkst n + 3 - int (weekday_index wkst)) mod 7 = 0"
  unfolding week_begin_def by presburger

lemma week_begins_apart: "\<exists>k. week_begin wkst n = week_begin wkst m + 7 * k"
proof -
  have "(week_begin wkst n - week_begin wkst m) mod 7 = 0"
    using week_begin_mod [of wkst n] week_begin_mod [of wkst m] by presburger
  then obtain k where "week_begin wkst n - week_begin wkst m = 7 * k" by (auto elim: dvdE)
  then show ?thesis by (intro exI [of _ k]) simp
qed

lemma week_begin_unique:
  assumes "(b + 3 - int (weekday_index wkst)) mod 7 = 0" "b \<le> n" "n < b + 7"
  shows "week_begin wkst n = b"
  using assms unfolding week_begin_def by presburger

lemma week_offset_value:
  assumes "valid_date d" "weekday_of d = Some w"
  shows "int (week_offset w wkst) = day_number d - week_begin wkst (day_number d)"
proof -
  have "int (weekday_index w) = (day_number d + 3) mod 7"
    using weekday_of_index [OF assms(1)] assms(2) by auto
  then have "(int (weekday_index w) - int (weekday_index wkst)) mod 7
      = (day_number d + 3 - int (weekday_index wkst)) mod 7"
    by (simp add: mod_diff_left_eq)
  then show ?thesis by (simp add: week_offset_def week_begin_def)
qed

lemma weekday_of_Some: "valid_date d \<Longrightarrow> \<exists>w. weekday_of d = Some w"
  using weekday_of_index by blast

lemma week_of_iff:
  assumes "valid_date d"
  shows "week_of d wkst = Some (y, n) \<longleftrightarrow>
    (\<exists>p. valid_date p \<and> day_number p = week_begin wkst (day_number d) + 3 \<and> year p = y
      \<and> int n = (day_number p - year_begin y) div 7 + 1)"
proof -
  obtain w where w: "weekday_of d = Some w" using weekday_of_Some [OF assms] by blast
  define k where "k = 3 - int (week_offset w wkst)"
  have wb: "int (week_offset w wkst) = day_number d - week_begin wkst (day_number d)"
    by (rule week_offset_value [OF assms w])
  then have "\<bar>k\<bar> \<le> 6" using week_begin_bounds [where wkst = wkst and n = "day_number d"] by (simp add: k_def)
  then have k: "in_i64 k" by (auto simp: in_i64_def)
  have steps: "week_of d wkst = do {
      p \<leftarrow> checked_add_days d k;
      reached \<leftarrow> day_of_year p;
      before \<leftarrow> (if 1 \<le> reached then Some (reached - 1) else None);
      number \<leftarrow> u8_try_from (int (before div 7 + 1));
      Some (year p, number)}"
    using k by (simp add: week_of_def w sub64_def checked_i64_def k_def)
  have sum: "day_number d + k = week_begin wkst (day_number d) + 3" using wb by (simp add: k_def)
  have after: "do {
      reached \<leftarrow> day_of_year p;
      before \<leftarrow> (if 1 \<le> reached then Some (reached - 1) else None);
      number \<leftarrow> u8_try_from (int (before div 7 + 1));
      Some (year p, number)} = Some (year p, nat ((day_number p - year_begin (year p)) div 7 + 1))"
    if "valid_date p" for p
  proof -
    define e where "e = nat (day_number p - year_begin (year p))"
    have e: "int e = day_number p - year_begin (year p)" using year_holds [OF that] by (simp add: e_def)
    have "year_length (year p) \<le> 366" using year_length_cases [of "year p"] by auto
    then have "e \<le> 365" using year_holds(2) [OF that] e by linarith
    moreover have "day_of_year p = Some (Suc e)"
      using day_of_year_value [OF that] e by (simp add: nat_add_distrib e_def year_holds(1) [OF that])
    moreover have "nat ((day_number p - year_begin (year p)) div 7 + 1) = e div 7 + 1"
      unfolding e [symmetric] by (simp add: nat_add_distrib zdiv_int [symmetric])
    moreover have "nat (1 + int (e div 7)) = Suc (e div 7)" by simp
    moreover have "e div 7 \<le> 52" using \<open>e \<le> 365\<close> by simp
    ultimately show ?thesis by (simp add: u8_try_from_def)
  qed
  show ?thesis
  proof
    assume l: "week_of d wkst = Some (y, n)"
    then obtain p where p: "checked_add_days d k = Some p"
      unfolding steps by (auto elim: option_bind_SomeE)
    then have v: "valid_date p" "day_number p = week_begin wkst (day_number d) + 3"
      using checked_add_days_iff [OF assms k] sum by auto
    then have "y = year p" "n = nat ((day_number p - year_begin (year p)) div 7 + 1)"
      using l after [OF v(1)] unfolding steps p by simp_all
    moreover have "0 \<le> (day_number p - year_begin (year p)) div 7"
      using year_holds(1) [OF v(1)] by simp
    ultimately show "\<exists>p. valid_date p \<and> day_number p = week_begin wkst (day_number d) + 3 \<and> year p = y
        \<and> int n = (day_number p - year_begin y) div 7 + 1"
      using v by (intro exI [of _ p]) simp
  next
    assume "\<exists>p. valid_date p \<and> day_number p = week_begin wkst (day_number d) + 3 \<and> year p = y
        \<and> int n = (day_number p - year_begin y) div 7 + 1"
    then obtain p where p: "valid_date p" "day_number p = week_begin wkst (day_number d) + 3"
      "year p = y" "int n = (day_number p - year_begin y) div 7 + 1" by blast
    then have "checked_add_days d k = Some p" using checked_add_days_iff [OF assms k] sum by simp
    moreover have "nat ((day_number p - year_begin (year p)) div 7 + 1) = n"
      using p(3,4) by (metis nat_int)
    ultimately show "week_of d wkst = Some (y, n)"
      using after [OF p(1)] p(3) unfolding steps by simp
  qed
qed

text \<open>The week a day lies in belongs to the year that holds the fourth day of it.\<close>

lemma week_number_position:
  assumes "year_begin y \<le> b + 3" "(b + 3 - int (weekday_index wkst)) mod 7 = 0"
  shows "b = week_one_begin y wkst + 7 * ((b + 3 - year_begin y) div 7)"
proof -
  define J where "J = year_begin y"
  define W where "W = week_one_begin y wkst"
  have W: "(W + 3 - int (weekday_index wkst)) mod 7 = 0" "J - 3 \<le> W" "W \<le> J + 3"
    using week_begin_mod [of wkst "J + 3"] week_begin_bounds [where wkst = wkst and n = "J + 3"]
    by (simp_all add: W_def J_def week_one_begin_def)
  have "(b - W) mod 7 = 0" using assms(2) W(1) by presburger
  then obtain k where k: "b = W + 7 * k" by (metis add.commute diff_add_cancel dvdE mod_eq_0_iff_dvd)
  have "b + 3 - J = 7 * k + (W + 3 - J)" using k by simp
  moreover have "0 \<le> W + 3 - J" "W + 3 - J < 7" using W by auto
  ultimately have "(b + 3 - J) div 7 = k" by (metis int_div_pos_eq)
  then show ?thesis using k by (simp add: J_def W_def)
qed

lemma week_of_value:
  assumes "valid_date d" "week_of d wkst = Some (y, n)"
  shows "1 \<le> n" "week_begin wkst (day_number d) = week_one_begin y wkst + 7 * (int n - 1)"
    "year_begin y \<le> week_begin wkst (day_number d) + 3"
    "week_begin wkst (day_number d) + 3 < year_begin (Suc y)" "y \<le> 9999"
proof -
  obtain p where p: "valid_date p" "day_number p = week_begin wkst (day_number d) + 3" "year p = y"
    "int n = (day_number p - year_begin y) div 7 + 1"
    using week_of_iff [OF assms(1)] assms(2) by blast
  show lo: "year_begin y \<le> week_begin wkst (day_number d) + 3"
    and "week_begin wkst (day_number d) + 3 < year_begin (Suc y)"
    using year_holds [OF p(1)] p(2,3) by (simp_all add: year_begin_Suc)
  have "0 \<le> (day_number p - year_begin y) div 7" using lo p(2) by simp
  then show "1 \<le> n" using p(4) by linarith
  show "week_begin wkst (day_number d) = week_one_begin y wkst + 7 * (int n - 1)"
    using week_number_position [OF lo week_begin_mod] p(2,4) by simp
  show "y \<le> 9999" using valid_date_bounds [OF p(1)] p(3) by simp
qed

lemma december_last:
  assumes "y \<le> 9999"
  shows "date_from_ymd y 12 31 = Some \<lparr>year = y, month = 12, day = 31\<rparr>"
    "valid_date \<lparr>year = y, month = 12, day = 31\<rparr>"
    "day_number \<lparr>year = y, month = 12, day = 31\<rparr> = year_begin (Suc y) - 1"
  using assms year_length_cases [of y]
  by (auto simp: date_from_ymd_def days_in_month_def MAX_YEAR_def valid_date_def day_number_def
      year_begin_def days_before_month_table days_before_year_def)

lemma week_one_unique:
  assumes "(b + 3 - int (weekday_index wkst)) mod 7 = 0"
    "year_begin y - 3 \<le> b" "b \<le> year_begin y + 3"
  shows "week_one_begin y wkst = b"
  unfolding week_one_begin_def using assms by (intro week_begin_unique) auto

text \<open>A week-based year is a whole number of weeks, and the next one begins where it ends.\<close>

lemma weeks_in_week_year_value:
  assumes "y \<le> 9999" "weeks_in_week_year y wkst = Some n"
  shows "week_one_begin (Suc y) wkst = week_one_begin y wkst + 7 * int n" "52 \<le> n" "n \<le> 53"
proof -
  let ?l = "\<lparr>year = y, month = 12, day = 31\<rparr>"
  define b where "b = week_begin wkst (day_number ?l)"
  note l = december_last [OF assms(1)]
  have bm: "(b + 3 - int (weekday_index wkst)) mod 7 = 0" by (simp add: b_def week_begin_mod)
  have bb: "b \<le> year_begin (Suc y) - 1" "year_begin (Suc y) - 1 < b + 7"
    using week_begin_bounds [where wkst = wkst and n = "day_number ?l"] l(3) by (simp_all add: b_def)
  obtain h k where hk: "week_of ?l wkst = Some (h, k)"
    using assms(2) l(1) by (auto simp: weeks_in_week_year_def elim!: option_bind_SomeE)
  note wv = week_of_value [OF l(2) hk, folded b_def]
  have n_eq: "week_one_begin (Suc y) wkst = week_one_begin y wkst + 7 * int n"
  proof (cases "h = y")
    case True
    then have "n = k" using assms(2) l(1) hk by (simp add: weeks_in_week_year_def)
    moreover have "week_one_begin (Suc y) wkst = b + 7"
      using bm bb wv(4) True by (intro week_one_unique) (auto, presburger)
    ultimately show ?thesis using wv(2) True by simp
  next
    case False
    then obtain e h' where e: "checked_add_days ?l (- 7) = Some e" "week_of e wkst = Some (h', n)"
      using assms(2) l(1) hk by (auto simp: weeks_in_week_year_def elim!: option_bind_SomeE)
    then have ev: "valid_date e" "day_number e = year_begin (Suc y) - 8"
      using checked_add_days_iff [OF l(2), of "- 7" e] l(3) by (auto simp: in_i64_def)
    have "Suc y \<le> h"
    proof (rule ccontr)
      assume "\<not> Suc y \<le> h"
      then have "Suc h \<le> y" using False by simp
      then have "year_begin (Suc h) \<le> year_begin y" by (rule year_begin_mono)
      then show False
        using wv(4) bb year_begin_Suc [of y] year_length_cases [of y] by auto
    qed
    then have late: "year_begin (Suc y) \<le> b + 3"
      using year_begin_mono [of "Suc y" h] wv(3) by linarith
    have eb: "week_begin wkst (day_number e) = b - 7"
      using bm bb ev(2) by (intro week_begin_unique) (auto, presburger)
    have "week_one_begin (Suc y) wkst = b" using bm bb late by (intro week_one_unique) auto
    moreover note ew = week_of_value [OF ev(1) e(2), unfolded eb]
    moreover have "h' = y"
    proof -
      have "year_begin (Suc h') > b - 4" "year_begin h' \<le> b - 4" using ew(3,4) by auto
      moreover have "b - 4 < year_begin (Suc y)" "year_begin y \<le> b - 4"
        using bb late year_begin_Suc [of y] year_length_cases [of y] by auto
      ultimately have "\<not> Suc y \<le> h'" "\<not> Suc h' \<le> y"
        using year_begin_mono [of "Suc y" h'] year_begin_mono [of "Suc h'" y] by auto
      then show ?thesis by simp
    qed
    ultimately show ?thesis by simp
  qed
  then show "week_one_begin (Suc y) wkst = week_one_begin y wkst + 7 * int n" .
  have "week_one_begin z wkst \<le> year_begin z + 3 \<and> year_begin z - 3 \<le> week_one_begin z wkst" for z
    using week_begin_bounds [where wkst = wkst and n = "year_begin z + 3"]
    by (auto simp: week_one_begin_def)
  from this [of y] this [of "Suc y"] show "52 \<le> n" "n \<le> 53"
    using n_eq year_begin_Suc [of y] year_length_cases [of y] by linarith+
qed

lemma week_one_start_iff:
  assumes "y \<le> 9999"
  shows "week_one_start y wkst = Some s \<longleftrightarrow> valid_date s \<and> day_number s = week_one_begin y wkst"
proof -
  let ?f = "\<lparr>year = y, month = 1, day = 4\<rparr>"
  have f: "date_from_ymd y 1 4 = Some ?f" "valid_date ?f" "day_number ?f = year_begin y + 3"
    using assms by (simp_all add: date_from_ymd_def days_in_month_def MAX_YEAR_def valid_date_def
        day_number_def year_begin_def days_before_month_def)
  obtain w where w: "weekday_of ?f = Some w" using weekday_of_Some [OF f(2)] by blast
  have o': "int (week_offset w wkst) = year_begin y + 3 - week_one_begin y wkst"
    using week_offset_value [OF f(2) w, of wkst] f(3) by (simp add: week_one_begin_def)
  then have i: "in_i64 (- int (week_offset w wkst))"
    using week_begin_bounds [where wkst = wkst and n = "year_begin y + 3"]
    by (auto simp: in_i64_def week_one_begin_def)
  then have "week_one_start y wkst = checked_add_days ?f (- int (week_offset w wkst))"
    by (simp add: week_one_start_def f(1) [unfolded One_nat_def] w [unfolded One_nat_def]
        sub64_def checked_i64_def)
  then show ?thesis using checked_add_days_iff [OF f(2) i, of s] f(3) o' by simp
qed

section \<open>Positions of a weekday\<close>

text \<open>The days one ordinal counts among: an interval of day counts of whole months, years or weeks.\<close>

definition scope_begin :: "weekday_scope \<Rightarrow> weekday \<Rightarrow> civil_date \<Rightarrow> int" where
  "scope_begin scope wkst d =
     (case scope of
        WeekScope \<Rightarrow> week_begin wkst (day_number d)
      | MonthScope \<Rightarrow> day_number d - int (day d) + 1
      | YearScope \<Rightarrow> year_begin (year d))"

definition scope_length :: "weekday_scope \<Rightarrow> civil_date \<Rightarrow> nat" where
  "scope_length scope d =
     (case scope of
        WeekScope \<Rightarrow> 7
      | MonthScope \<Rightarrow> month_length (year d) (month d)
      | YearScope \<Rightarrow> year_length (year d))"

definition same_scope :: "weekday_scope \<Rightarrow> weekday \<Rightarrow> civil_date \<Rightarrow> civil_date \<Rightarrow> bool" where
  "same_scope scope wkst d e \<longleftrightarrow>
     (case scope of
        WeekScope \<Rightarrow> week_begin wkst (day_number e) = week_begin wkst (day_number d)
      | MonthScope \<Rightarrow> year e = year d \<and> month e = month d
      | YearScope \<Rightarrow> year e = year d)"

lemma month_begin:
  assumes "valid_date d"
  shows "valid_date \<lparr>year = year d, month = month d, day = 1\<rparr>"
    "day_number \<lparr>year = year d, month = month d, day = 1\<rparr> = day_number d - int (day d) + 1"
  using assms valid_date_bounds [OF assms] days_in_month_bounds
  by (auto simp: valid_date_iff day_number_def)

lemma same_month_iff:
  assumes "valid_date d" "valid_date e"
  shows "year e = year d \<and> month e = month d \<longleftrightarrow>
    day_number d - int (day d) + 1 \<le> day_number e
    \<and> day_number e < day_number d - int (day d) + 1 + int (month_length (year d) (month d))"
proof
  assume "year e = year d \<and> month e = month d"
  then show "day_number d - int (day d) + 1 \<le> day_number e
    \<and> day_number e < day_number d - int (day d) + 1 + int (month_length (year d) (month d))"
    using valid_date_in_year(1) [OF assms(2)] valid_date_bounds(4) [OF assms(2)]
    by (simp add: day_number_def)
next
  assume r: "day_number d - int (day d) + 1 \<le> day_number e
    \<and> day_number e < day_number d - int (day d) + 1 + int (month_length (year d) (month d))"
  let ?f = "\<lparr>year = year d, month = month d, day = 1\<rparr>"
  let ?l = "\<lparr>year = year d, month = month d, day = month_length (year d) (month d)\<rparr>"
  have l: "valid_date ?l"
    using assms(1) valid_date_bounds(4) [OF assms(1)] by (auto simp: valid_date_iff month_length_def)
  have "\<not> e < ?f" using r month_begin [OF assms(1)] day_number_less_iff [OF assms(2), of ?f] by simp
  moreover have "day_number ?l = day_number d - int (day d) + int (month_length (year d) (month d))"
    by (simp add: day_number_def)
  then have "\<not> ?l < e" using r day_number_less_iff [OF l assms(2)] by simp
  ultimately show "year e = year d \<and> month e = month d" by (auto simp: date_less_iff)
qed

lemma same_scope_iff:
  assumes "valid_date d" "valid_date e"
  shows "same_scope scope wkst d e \<longleftrightarrow>
    scope_begin scope wkst d \<le> day_number e
    \<and> day_number e < scope_begin scope wkst d + int (scope_length scope d)"
proof (cases scope)
  case WeekScope
  have "week_begin wkst (day_number e) = week_begin wkst (day_number d) \<longleftrightarrow>
      week_begin wkst (day_number d) \<le> day_number e
        \<and> day_number e < week_begin wkst (day_number d) + 7"
    using week_begin_bounds [where wkst = wkst and n = "day_number e"]
      week_begin_unique [OF week_begin_mod [of wkst "day_number d"], of "day_number e"] by auto
  then show ?thesis by (simp add: WeekScope same_scope_def scope_begin_def scope_length_def)
next
  case MonthScope
  then show ?thesis
    using same_month_iff [OF assms] by (simp add: same_scope_def scope_begin_def scope_length_def)
next
  case YearScope
  then show ?thesis
    using year_holds [OF assms(2)] year_of_day [OF assms(2), of "year d"] year_begin_Suc [of "year d"]
    by (auto simp: same_scope_def scope_begin_def scope_length_def)
qed

lemma weekday_position_value:
  fixes scope :: weekday_scope and wkst :: weekday
  assumes "valid_date d"
  defines "o' \<equiv> nat (day_number d - scope_begin scope wkst d)"
  shows "o' < scope_length scope d"
    and "int o' = day_number d - scope_begin scope wkst d"
    and "weekday_position d scope wkst
      = Some (o' div 7 + 1, (scope_length scope d - o' mod 7 - 1) div 7 + 1)"
proof -
  have "same_scope scope wkst d d" by (cases scope) (simp_all add: same_scope_def)
  then have r: "scope_begin scope wkst d \<le> day_number d"
    "day_number d < scope_begin scope wkst d + int (scope_length scope d)"
    using same_scope_iff [OF assms(1,1)] by auto
  then show off: "int o' = day_number d - scope_begin scope wkst d" by (simp add: o'_def)
  with r show less: "o' < scope_length scope d" by linarith
  then have first: "o' mod 7 + 1 \<le> scope_length scope d"
    using mod_less_eq_dividend [of o' 7] by linarith
  obtain w where w: "weekday_of d = Some w" using weekday_of_Some [OF assms(1)] by blast
  have "weekday_position d scope wkst = do {
      above \<leftarrow> (if o' mod 7 + 1 \<le> scope_length scope d
                then Some (scope_length scope d - o' mod 7 - 1) else None);
      Some (o' div 7 + 1, above div 7 + 1)}"
  proof (cases scope)
    case WeekScope
    then have "week_offset w wkst = o'"
      using week_offset_value [OF assms(1) w, of wkst] off by (simp add: scope_begin_def)
    then show ?thesis
      using w WeekScope by (simp add: weekday_position_def Let_def scope_length_def)
  next
    case MonthScope
    then have "day d - 1 = o'" "1 \<le> day d"
      using off valid_date_bounds(4) [OF assms(1)] by (auto simp: scope_begin_def)
    moreover obtain n where "days_in_month (year d) (month d) = Some n"
      using assms(1) by (auto simp: valid_date_iff)
    ultimately show ?thesis
      using MonthScope by (simp add: weekday_position_def Let_def scope_length_def month_length_def)
  next
    case YearScope
    then have "day_of_year d = Some (Suc o')"
      using off day_of_year_value [OF assms(1)] by (simp add: scope_begin_def flip: off)
    then show ?thesis
      using YearScope by (simp add: weekday_position_def Let_def scope_length_def)
  qed
  with first show "weekday_position d scope wkst
      = Some (o' div 7 + 1, (scope_length scope d - o' mod 7 - 1) div 7 + 1)" by simp
qed

text \<open>How many numbers of one residue lie below a bound.\<close>

lemma card_residue:
  fixes f n :: nat
  assumes "f < 7" "f < n"
  shows "card {k. k < n \<and> k mod 7 = f} = (n - f - 1) div 7 + 1"
proof -
  have "{k. k < n \<and> k mod 7 = f} = (\<lambda>j. f + 7 * j) ` {..(n - f - 1) div 7}"
  proof (intro set_eqI iffI)
    fix k assume "k \<in> {k. k < n \<and> k mod 7 = f}"
    then have k: "k = f + 7 * (k div 7)" "k < n" by auto
    then have "7 * (k div 7) \<le> n - f - 1" by linarith
    then have "7 * (k div 7) div 7 \<le> (n - f - 1) div 7" by (rule div_le_mono)
    then have "k div 7 \<le> (n - f - 1) div 7" by simp
    with k(1) show "k \<in> (\<lambda>j. f + 7 * j) ` {..(n - f - 1) div 7}" by blast
  next
    fix k assume "k \<in> (\<lambda>j. f + 7 * j) ` {..(n - f - 1) div 7}"
    then obtain j where j: "k = f + 7 * j" "j \<le> (n - f - 1) div 7" by auto
    then have "7 * j \<le> n - f - 1" by (metis less_eq_div_iff_mult_less_eq mult.commute zero_less_numeral)
    with j(1) assms show "k \<in> {k. k < n \<and> k mod 7 = f}" by auto
  qed
  then show ?thesis by (simp add: card_image inj_on_def)
qed

lemma weekday_of_eq_iff:
  assumes "valid_date d" "valid_date e"
  shows "weekday_of e = weekday_of d \<longleftrightarrow> (day_number e - day_number d) mod 7 = 0"
proof -
  obtain w where w: "weekday_of d = Some w" "int (weekday_index w) = (day_number d + 3) mod 7"
    using weekday_of_index [OF assms(1)] by blast
  obtain v where v: "weekday_of e = Some v" "int (weekday_index v) = (day_number e + 3) mod 7"
    using weekday_of_index [OF assms(2)] by blast
  have "v = w \<longleftrightarrow> weekday_index v = weekday_index w"
    using weekday_from_index_inverse by (metis option.inject)
  also have "\<dots> \<longleftrightarrow> (day_number e + 3) mod 7 = (day_number d + 3) mod 7"
    using v(2) w(2) by linarith
  also have "\<dots> \<longleftrightarrow> (day_number e - day_number d) mod 7 = 0"
    by (simp add: mod_eq_dvd_iff mod_eq_0_iff_dvd)
  finally show ?thesis using v(1) w(1) by simp
qed

definition same_weekdays :: "weekday_scope \<Rightarrow> weekday \<Rightarrow> civil_date \<Rightarrow> civil_date set" where
  "same_weekdays scope wkst d =
     {e. valid_date e \<and> same_scope scope wkst d e \<and> weekday_of e = weekday_of d}"

lemma scope_filled:
  assumes "valid_date d" "k < scope_length scope d" "scope \<noteq> WeekScope"
  shows "\<exists>e. valid_date e \<and> day_number e = scope_begin scope wkst d + int k"
proof (cases scope)
  case MonthScope
  let ?e = "\<lparr>year = year d, month = month d, day = k + 1\<rparr>"
  have "k + 1 \<le> month_length (year d) (month d)" using assms(2) MonthScope by (simp add: scope_length_def)
  then have "valid_date ?e" using assms(1) by (auto simp: valid_date_iff month_length_def)
  moreover have "day_number ?e = scope_begin scope wkst d + int k"
    by (simp add: day_number_def scope_begin_def MonthScope)
  ultimately show ?thesis by blast
next
  case YearScope
  have y: "year d \<le> 9999" using valid_date_bounds [OF assms(1)] by simp
  have "year_begin 0 = - 719528" by (simp add: year_begin_def days_before_year_def)
  then have "- 719528 \<le> year_begin (year d)" using year_begin_mono [of 0 "year d"] by simp
  moreover have "year_begin (year d) + int k \<le> 2932896"
    using december_last [OF y] day_number_le_iff(2) [OF december_last(2) [OF y]] assms(2) YearScope
      year_begin_Suc [of "year d"] by (simp add: scope_length_def)
  ultimately obtain e where "valid_date e" "day_number e = year_begin (year d) + int k"
    using from_days_from_epoch_total [of "year_begin (year d) + int k"] by auto
  then show ?thesis using YearScope by (auto simp: scope_begin_def)
qed (use assms(3) in simp)

lemma same_weekdays_image:
  fixes scope :: weekday_scope and wkst :: weekday
  assumes "valid_date d"
  defines "o' \<equiv> nat (day_number d - scope_begin scope wkst d)"
  shows "(\<lambda>e. nat (day_number e - scope_begin scope wkst d)) ` same_weekdays scope wkst d
    = {k. k < scope_length scope d \<and> k mod 7 = o' mod 7}"
    and "inj_on (\<lambda>e. nat (day_number e - scope_begin scope wkst d)) (same_weekdays scope wkst d)"
proof -
  let ?b = "scope_begin scope wkst d"
  let ?g = "\<lambda>e. nat (day_number e - ?b)"
  note o' = weekday_position_value(1,2) [OF assms(1), of scope wkst, folded o'_def]
  have same: "e \<in> same_weekdays scope wkst d \<longleftrightarrow> ?b \<le> day_number e \<and> ?g e < scope_length scope d
      \<and> ?g e mod 7 = o' mod 7" if "valid_date e" for e
  proof (cases "?b \<le> day_number e")
    case True
    then have g: "int (?g e) = day_number e - ?b" by simp
    have "?g e mod 7 = o' mod 7 \<longleftrightarrow> int (?g e) mod 7 = int o' mod 7"
      by (metis nat_int of_nat_mod of_nat_numeral)
    also have "\<dots> \<longleftrightarrow> (day_number e - day_number d) mod 7 = 0"
      unfolding g o'(2) by (simp add: mod_eq_dvd_iff mod_eq_0_iff_dvd)
    finally show ?thesis
      using True that same_scope_iff [OF assms(1) that, of scope wkst] weekday_of_eq_iff [OF assms(1) that]
      by (auto simp: same_weekdays_def)
  qed (use that same_scope_iff [OF assms(1) that, of scope wkst] in \<open>auto simp: same_weekdays_def\<close>)
  have reached: "\<exists>e. valid_date e \<and> day_number e = ?b + int k"
    if "k < scope_length scope d" "k mod 7 = o' mod 7" for k
  proof (cases "scope = WeekScope")
    case True
    then have "k = o'" using that o'(1) by (simp add: scope_length_def)
    then show ?thesis using assms(1) o'(2) by (intro exI [of _ d]) simp
  qed (rule scope_filled [OF assms(1) that(1)])
  show "?g ` same_weekdays scope wkst d = {k. k < scope_length scope d \<and> k mod 7 = o' mod 7}"
  proof (intro set_eqI iffI)
    fix k assume "k \<in> {k. k < scope_length scope d \<and> k mod 7 = o' mod 7}"
    then obtain e where e: "valid_date e" "day_number e = ?b + int k" "k < scope_length scope d"
      "k mod 7 = o' mod 7" using reached by blast
    then have "?g e = k" by simp
    then show "k \<in> ?g ` same_weekdays scope wkst d" using same [OF e(1)] e by (metis image_eqI
          le_add_same_cancel1 of_nat_0_le_iff)
  qed (use same in \<open>auto simp: same_weekdays_def\<close>)
  show "inj_on ?g (same_weekdays scope wkst d)"
  proof (rule inj_onI)
    fix x y assume a: "x \<in> same_weekdays scope wkst d" "y \<in> same_weekdays scope wkst d" "?g x = ?g y"
    then have "valid_date x" "valid_date y" by (auto simp: same_weekdays_def)
    moreover from this have "day_number x = day_number y" using a same by fastforce
    ultimately show "x = y" by (rule day_number_unique)
  qed
qed

text \<open>
  The position \<open>BYDAY\<close>'s ordinals are compared with is what a person would count: within the
  week, month or year the ordinal is relative to, the index of a date is the number of dates of the
  same weekday up to and including it, and the length is the number of them altogether.
\<close>

lemma weekday_position_counts:
  assumes "valid_date d"
  shows "weekday_position d scope wkst
    = Some (card {e \<in> same_weekdays scope wkst d. day_number e \<le> day_number d},
            card (same_weekdays scope wkst d))"
proof -
  let ?b = "scope_begin scope wkst d"
  let ?g = "\<lambda>e. nat (day_number e - ?b)"
  define o' where "o' = nat (day_number d - ?b)"
  note val = weekday_position_value [OF assms, of scope wkst, folded o'_def]
  note im = same_weekdays_image [OF assms, of scope wkst, folded o'_def]
  have f: "o' mod 7 < 7" "o' mod 7 < scope_length scope d" "o' mod 7 < o' + 1"
    using val(1) mod_less_eq_dividend [of o' 7] by (simp, linarith, linarith)
  have all: "card (same_weekdays scope wkst d) = (scope_length scope d - o' mod 7 - 1) div 7 + 1"
    using card_image [OF im(2)] card_residue [OF f(1,2)] im(1) by simp
  have low: "?b \<le> day_number e" if "e \<in> same_weekdays scope wkst d" for e
    using that same_scope_iff [OF assms, of e scope wkst] by (auto simp: same_weekdays_def)
  have "day_number e \<le> day_number d \<longleftrightarrow> ?g e \<le> o'" if "e \<in> same_weekdays scope wkst d" for e
    using low [OF that] val(2) by linarith
  then have "?g ` {e \<in> same_weekdays scope wkst d. day_number e \<le> day_number d}
      = {k \<in> ?g ` same_weekdays scope wkst d. k \<le> o'}" by blast
  also have "\<dots> = {k. k < o' + 1 \<and> k mod 7 = o' mod 7}" unfolding im(1) using val(1) by auto
  finally have "card {e \<in> same_weekdays scope wkst d. day_number e \<le> day_number d}
      = (o' + 1 - o' mod 7 - 1) div 7 + 1"
    using card_image [OF inj_on_subset [OF im(2)], of "{e \<in> same_weekdays scope wkst d. day_number e \<le> day_number d}"]
      card_residue [OF f(1,3)] by simp
  moreover have "(o' + 1 - o' mod 7 - 1) div 7 = o' div 7" by presburger
  ultimately show ?thesis using val(3) all by simp
qed

section \<open>Properties\<close>

text \<open>
  C36. A week number is a count of weeks: when \<open>week_of\<close> places a date in week \<open>n\<close> of a week-based
  year, the date lies in the n-th seven days from that year's week one (the week, begun on \<open>WKST\<close>,
  that holds January 4th), the number is at most the year's number of weeks, which is 52 or 53,
  and the following year's week one begins right after the last of them, so the week-based years
  tile the calendar.
\<close>

theorem week_numbers_count_weeks:
  assumes "valid_date d" "week_of d wkst = Some (y, n)" "weeks_in_week_year y wkst = Some len"
  shows "week_one_begin y wkst + 7 * (int n - 1) \<le> day_number d
    \<and> day_number d < week_one_begin y wkst + 7 * int n
    \<and> 1 \<le> n \<and> n \<le> len \<and> (len = 52 \<or> len = 53)
    \<and> week_one_begin (Suc y) wkst = week_one_begin y wkst + 7 * int len"
proof -
  note wv = week_of_value [OF assms(1,2)]
  note ly = weeks_in_week_year_value [OF wv(5) assms(3)]
  let ?b = "week_begin wkst (day_number d)"
  note bb = week_begin_bounds [where wkst = wkst and n = "day_number d"]
  have "week_one_begin (Suc y) wkst + 3 \<ge> year_begin (Suc y)"
    using week_begin_bounds [where wkst = wkst and n = "year_begin (Suc y) + 3"]
    by (simp add: week_one_begin_def)
  then have "?b < week_one_begin (Suc y) wkst" using wv(4) by linarith
  then have "7 * (int n - 1) < 7 * int len" using wv(2) ly(1) by simp
  then have "int n \<le> int len" by simp
  then show ?thesis using wv(1,2) bb ly by auto
qed

theorem week_numbers_count_weeks_witness:
  "week_one_begin 2024 Monday + 7 * 51 \<le> day_number \<lparr>year = 2024, month = 12, day = 25\<rparr>"
proof -
  let ?d = "\<lparr>year = 2024, month = 12, day = 25\<rparr>"
  have v: "valid_date ?d"
    by (simp add: valid_date_def date_from_ymd_def days_in_month_def MAX_YEAR_def)
  have "week_of ?d Monday = Some (2024, 52)" "weeks_in_week_year 2024 Monday = Some 52"
    by code_simp+
  from week_numbers_count_weeks [OF v this] show ?thesis by simp
qed

end
