(* ===== verification/Recur_Expand.thy ===== *)
theory Recur_Expand
  imports Recur_Period Recur_Weeks Diagnostics
begin

text \<open>
  The \<open>BYxxx\<close> parts of \<open>recur/byparts.rs\<close>: what one period's candidates are.  A period is
  first a run of days, which the date parts filter and the fallback to \<open>DTSTART\<close>'s own day
  narrows; beside it a list of times of day, which the clock parts filter or multiply; and last the
  product of the two, sorted and without repeats.  Each step charges the ledger for what it
  generates and stops at the first refusal.
\<close>

section \<open>Spans and positions\<close>

definition DATE_PARTS :: "rule_part list" where
  "DATE_PARTS = [ByMonth, ByWeekNo, ByYearDay, ByMonthDay, ByDay]"

definition TIME_PARTS :: "rule_part list" where
  "TIME_PARTS = [ByHour, ByMinute, BySecond]"

datatype span_kind = SpanYear | SpanMonth | SpanWeek | SpanDay

fun span_depth :: "span_kind \<Rightarrow> nat" where
  "span_depth SpanYear = 0"
| "span_depth SpanMonth = 1"
| "span_depth SpanWeek = 2"
| "span_depth SpanDay = 3"

fun span_of :: "freq \<Rightarrow> span_kind" where
  "span_of Yearly = SpanYear"
| "span_of Monthly = SpanMonth"
| "span_of Weekly = SpanWeek"
| "span_of Daily = SpanDay"
| "span_of Hourly = SpanDay"
| "span_of Minutely = SpanDay"
| "span_of Secondly = SpanDay"

definition narrowed_by :: "span_kind \<Rightarrow> span_kind \<Rightarrow> span_kind" where
  "narrowed_by s other = (if span_depth s < span_depth other then other else s)"

text \<open>Whether a part the rule carries multiplies the candidates under the rule's frequency.\<close>

definition part_expands :: "recurrence_rule \<Rightarrow> parts \<Rightarrow> rule_part \<Rightarrow> bool" where
  "part_expands r present p \<longleftrightarrow> has_part r p \<and> expands (effect (rule_freq r) p present)"

definition effective_span :: "recurrence_rule \<Rightarrow> parts \<Rightarrow> span_kind" where
  "effective_span r present =
     foldl (\<lambda>s (p, named). if part_expands r present p then narrowed_by s named else s)
       (span_of (rule_freq r)) [(ByMonth, SpanMonth), (ByWeekNo, SpanWeek)]"

definition has_expanding_day_part :: "recurrence_rule \<Rightarrow> parts \<Rightarrow> bool" where
  "has_expanding_day_part r present \<longleftrightarrow>
     list_ex (part_expands r present) [ByYearDay, ByMonthDay, ByDay]"

fun period_extent :: "span_kind \<Rightarrow> weekday \<Rightarrow> civil_date \<Rightarrow> civil_date \<times> nat" where
  "period_extent SpanYear wkst anchor =
     (case date_from_ymd (year anchor) 1 1 of Some s \<Rightarrow> s | None \<Rightarrow> anchor,
      days_in_year (year anchor))"
| "period_extent SpanMonth wkst anchor =
     (case date_from_ymd (year anchor) (month anchor) 1 of Some s \<Rightarrow> s | None \<Rightarrow> anchor,
      case days_in_month (year anchor) (month anchor) of Some n \<Rightarrow> n | None \<Rightarrow> 1)"
| "period_extent SpanWeek wkst anchor =
     (let back = (case weekday_of anchor of Some w \<Rightarrow> week_offset w wkst | None \<Rightarrow> 0) in
      (case Option.bind (sub64 0 (int back)) (checked_add_days anchor) of
         Some s \<Rightarrow> s | None \<Rightarrow> anchor, 7))"
| "period_extent SpanDay wkst anchor = (anchor, 1)"

definition day_extent :: "recurrence_rule \<Rightarrow> parts \<Rightarrow> civil_date \<Rightarrow> civil_date \<times> nat" where
  "day_extent r present anchor =
     (case (if part_expands r present ByWeekNo then week_year_extent (year anchor) (rule_wkst r)
            else None) of
        Some named \<Rightarrow> named
      | None \<Rightarrow> period_extent (span_of (rule_freq r)) (rule_wkst r) anchor)"

section \<open>Days\<close>

fun period_days_loop :: "civil_date \<Rightarrow> nat list \<Rightarrow> civil_date list \<Rightarrow> meter
    \<Rightarrow> (limit_exceeded + civil_date list) \<times> meter" where
  "period_days_loop start [] days m = (Inr days, m)"
| "period_days_loop start (offset # rest) days m =
     (case checked_add_days start (int offset) of
        None \<Rightarrow> (Inr days, m)
      | Some d \<Rightarrow>
          and_then (try_charge_candidate m) (\<lambda>_. period_days_loop start rest (days @ [d])))"

definition period_days :: "recurrence_rule \<Rightarrow> parts \<Rightarrow> civil_date \<Rightarrow> meter
    \<Rightarrow> (limit_exceeded + civil_date list) \<times> meter" where
  "period_days r present anchor m =
     (case day_extent r present anchor of
        (start, len) \<Rightarrow> period_days_loop start [0..<len] [] m)"

definition scope_without_day_parts :: "freq \<Rightarrow> parts \<Rightarrow> weekday_scope option" where
  "scope_without_day_parts f present =
     (let reduced = foldl parts_with PARTS_NONE
            (filter (parts_has present)
              (filter (\<lambda>p. p \<noteq> ByYearDay \<and> p \<noteq> ByMonthDay) rule_part_all))
      in case effect f ByDay reduced of ExpandWeekdays s \<Rightarrow> Some s | _ \<Rightarrow> None)"

definition weekday_scope_of :: "freq \<Rightarrow> parts \<Rightarrow> weekday_scope option" where
  "weekday_scope_of f present =
     (if f \<noteq> Monthly \<and> f \<noteq> Yearly then None
      else case effect f ByDay present of
        ExpandWeekdays s \<Rightarrow> Some s
      | Limit \<Rightarrow> scope_without_day_parts f present
      | _ \<Rightarrow> None)"

definition month_day_matches :: "civil_date \<Rightarrow> int list \<Rightarrow> bool" where
  "month_day_matches d values =
     (case days_in_month (year d) (month d) of
        None \<Rightarrow> False
      | Some len \<Rightarrow> list_ex (\<lambda>v. position_named v len = Some (day d)) values)"

definition year_day_matches :: "civil_date \<Rightarrow> int list \<Rightarrow> bool" where
  "year_day_matches d values =
     (case day_of_year d of
        None \<Rightarrow> False
      | Some wanted \<Rightarrow>
          list_ex (\<lambda>v. position_named v (days_in_year (year d)) = Some wanted) values)"

definition week_no_matches :: "civil_date \<Rightarrow> int list \<Rightarrow> weekday \<Rightarrow> bool" where
  "week_no_matches d values wkst =
     (case week_of d wkst of
        None \<Rightarrow> False
      | Some (week_year, wanted) \<Rightarrow>
          (case weeks_in_week_year week_year wkst of
             None \<Rightarrow> False
           | Some len \<Rightarrow> list_ex (\<lambda>v. position_named v len = Some wanted) values))"

definition ordinal_matches :: "civil_date \<Rightarrow> int option \<Rightarrow> weekday_scope option \<Rightarrow> weekday \<Rightarrow> bool" where
  "ordinal_matches d ordinal scope wkst =
     (case ordinal of
        None \<Rightarrow> True
      | Some n \<Rightarrow>
          (case scope of
             None \<Rightarrow> True
           | Some s \<Rightarrow>
               (case weekday_position d s wkst of
                  None \<Rightarrow> False
                | Some (index, len) \<Rightarrow> position_named n len = Some index)))"

definition weekday_matches ::
  "civil_date \<Rightarrow> weekday_num list \<Rightarrow> weekday_scope option \<Rightarrow> weekday \<Rightarrow> bool" where
  "weekday_matches d values scope wkst =
     (case weekday_of d of
        None \<Rightarrow> False
      | Some w \<Rightarrow>
          list_ex (\<lambda>v. wn_weekday v = w \<and> ordinal_matches d (wn_ordinal v) scope wkst) values)"

fun date_part_matches ::
  "rule_part \<Rightarrow> civil_date \<Rightarrow> recurrence_rule \<Rightarrow> weekday_scope option \<Rightarrow> bool" where
  "date_part_matches ByMonth d r scope = (month d \<in> set (by_month r))"
| "date_part_matches ByWeekNo d r scope = week_no_matches d (by_week_no r) (rule_wkst r)"
| "date_part_matches ByYearDay d r scope = year_day_matches d (by_year_day r)"
| "date_part_matches ByMonthDay d r scope = month_day_matches d (by_month_day r)"
| "date_part_matches ByDay d r scope = weekday_matches d (by_day r) scope (rule_wkst r)"
| "date_part_matches ByHour d r scope = True"
| "date_part_matches ByMinute d r scope = True"
| "date_part_matches BySecond d r scope = True"
| "date_part_matches BySetPos d r scope = True"

subsection \<open>Dates that do not exist\<close>

fun distinct_runs :: "'a list \<Rightarrow> 'a list \<Rightarrow> 'a list" where
  "distinct_runs covered [] = covered"
| "distinct_runs covered (x # xs) =
     distinct_runs (if covered \<noteq> [] \<and> last covered = x then covered else covered @ [x]) xs"

definition distinct_months :: "civil_date list \<Rightarrow> (nat \<times> nat) list" where
  "distinct_months days = distinct_runs [] (map (\<lambda>d. (year d, month d)) days)"

definition distinct_years :: "civil_date list \<Rightarrow> nat list" where
  "distinct_years days = distinct_runs [] (map year days)"

definition report_absent ::
  "'k sink_push \<Rightarrow> civil_datetime \<Rightarrow> 'k env \<Rightarrow> (limit_exceeded + unit) \<times> 'k env" where
  "report_absent push' anchor env =
     (let code = Expansion NonexistentRecurrenceInstance;
          note' = (case at_offset anchor UTC of
                     Some i \<Rightarrow> diagnostic_at_instant code Note i
                   | None \<Rightarrow> diagnostic_new code Note NOWHERE);
          (k, m) = report push' note' env
      in case try_charge_candidate m of (r, m') \<Rightarrow> (r, (k, m')))"

text \<open>One report for every listed value that names nothing among \<open>len\<close>.\<close>

fun report_absent_values ::
  "'k sink_push \<Rightarrow> nat \<Rightarrow> int list \<Rightarrow> civil_datetime \<Rightarrow> 'k env \<Rightarrow> (limit_exceeded + unit) \<times> 'k env" where
  "report_absent_values push' len [] anchor env = (Inr (), env)"
| "report_absent_values push' len (v # vs) anchor env =
     (if position_named v len = None
      then and_then (report_absent push' anchor env) (\<lambda>_. report_absent_values push' len vs anchor)
      else report_absent_values push' len vs anchor env)"

fun report_absent_month_days_loop ::
  "'k sink_push \<Rightarrow> (nat \<times> nat) list \<Rightarrow> int list \<Rightarrow> civil_datetime \<Rightarrow> 'k env
    \<Rightarrow> (limit_exceeded + unit) \<times> 'k env" where
  "report_absent_month_days_loop push' [] values anchor env = (Inr (), env)"
| "report_absent_month_days_loop push' ((y, mo) # rest) values anchor env =
     (case days_in_month y mo of
        None \<Rightarrow> report_absent_month_days_loop push' rest values anchor env
      | Some len \<Rightarrow>
          and_then (report_absent_values push' len values anchor env)
            (\<lambda>_. report_absent_month_days_loop push' rest values anchor))"

definition report_absent_month_days ::
  "'k sink_push \<Rightarrow> civil_date list \<Rightarrow> int list \<Rightarrow> civil_datetime \<Rightarrow> 'k env
    \<Rightarrow> (limit_exceeded + unit) \<times> 'k env" where
  "report_absent_month_days push' days values anchor env =
     report_absent_month_days_loop push' (distinct_months days) values anchor env"

fun report_absent_year_days_loop ::
  "'k sink_push \<Rightarrow> nat list \<Rightarrow> int list \<Rightarrow> civil_datetime \<Rightarrow> 'k env
    \<Rightarrow> (limit_exceeded + unit) \<times> 'k env" where
  "report_absent_year_days_loop push' [] values anchor env = (Inr (), env)"
| "report_absent_year_days_loop push' (y # rest) values anchor env =
     and_then (report_absent_values push' (days_in_year y) values anchor env)
       (\<lambda>_. report_absent_year_days_loop push' rest values anchor)"

definition report_absent_year_days ::
  "'k sink_push \<Rightarrow> civil_date list \<Rightarrow> int list \<Rightarrow> civil_datetime \<Rightarrow> 'k env
    \<Rightarrow> (limit_exceeded + unit) \<times> 'k env" where
  "report_absent_year_days push' days values anchor env =
     report_absent_year_days_loop push' (distinct_years days) values anchor env"

definition report_absent_days ::
  "'k sink_push \<Rightarrow> civil_date list \<Rightarrow> rule_part \<Rightarrow> recurrence_rule \<Rightarrow> civil_datetime \<Rightarrow> 'k env
    \<Rightarrow> (limit_exceeded + unit) \<times> 'k env" where
  "report_absent_days push' days p r anchor env =
     (case p of
        ByMonthDay \<Rightarrow> report_absent_month_days push' days (by_month_day r) anchor env
      | ByYearDay \<Rightarrow> report_absent_year_days push' days (by_year_day r) anchor env
      | _ \<Rightarrow> (Inr (), env))"

fun apply_date_parts_loop ::
  "'k sink_push \<Rightarrow> rule_part list \<Rightarrow> civil_date list \<Rightarrow> recurrence_rule \<Rightarrow> parts
    \<Rightarrow> weekday_scope option \<Rightarrow> civil_datetime \<Rightarrow> 'k env \<Rightarrow> (limit_exceeded + civil_date list) \<times> 'k env" where
  "apply_date_parts_loop push' [] days r present scope anchor env = (Inr days, env)"
| "apply_date_parts_loop push' (p # ps) days r present scope anchor env =
     (if p \<notin> set DATE_PARTS \<or> \<not> has_part r p
      then apply_date_parts_loop push' ps days r present scope anchor env
      else let action = effect (rule_freq r) p present in
        if action = NotApplicable
        then apply_date_parts_loop push' ps days r present scope anchor env
        else
          and_then (if expands action then report_absent_days push' days p r anchor env
                    else (Inr (), env))
            (\<lambda>_. apply_date_parts_loop push' ps
                   (filter (\<lambda>d. date_part_matches p d r scope) days) r present scope anchor))"

definition apply_date_parts ::
  "'k sink_push \<Rightarrow> civil_date list \<Rightarrow> recurrence_rule \<Rightarrow> parts \<Rightarrow> civil_datetime \<Rightarrow> 'k env
    \<Rightarrow> (limit_exceeded + civil_date list) \<times> 'k env" where
  "apply_date_parts push' days r present anchor env =
     apply_date_parts_loop push' rule_part_all days r present
       (weekday_scope_of (rule_freq r) present) anchor env"

subsection \<open>The fallback to \<open>DTSTART\<close>'s day\<close>

fun default_day_matches :: "span_kind \<Rightarrow> civil_date \<Rightarrow> civil_date \<Rightarrow> bool" where
  "default_day_matches SpanYear d start \<longleftrightarrow> month d = month start \<and> day d = day start"
| "default_day_matches SpanMonth d start \<longleftrightarrow> day d = day start"
| "default_day_matches SpanWeek d start \<longleftrightarrow> weekday_of d = weekday_of start"
| "default_day_matches SpanDay d start \<longleftrightarrow> True"

fun report_absent_default_years ::
  "'k sink_push \<Rightarrow> nat list \<Rightarrow> civil_date \<Rightarrow> civil_datetime \<Rightarrow> 'k env
    \<Rightarrow> (limit_exceeded + unit) \<times> 'k env" where
  "report_absent_default_years push' [] start anchor env = (Inr (), env)"
| "report_absent_default_years push' (y # ys) start anchor env =
     (if date_from_ymd y (month start) (day start) = None
      then and_then (report_absent push' anchor env)
             (\<lambda>_. report_absent_default_years push' ys start anchor)
      else report_absent_default_years push' ys start anchor env)"

fun report_absent_default ::
  "'k sink_push \<Rightarrow> civil_date list \<Rightarrow> span_kind \<Rightarrow> civil_date \<Rightarrow> civil_datetime \<Rightarrow> 'k env
    \<Rightarrow> (limit_exceeded + unit) \<times> 'k env" where
  "report_absent_default push' days SpanMonth start anchor env =
     (if 127 < day start then (Inr (), env)
      else report_absent_month_days push' days [int (day start)] anchor env)"
| "report_absent_default push' days SpanYear start anchor env =
     report_absent_default_years push' (distinct_years days) start anchor env"
| "report_absent_default push' days SpanWeek start anchor env = (Inr (), env)"
| "report_absent_default push' days SpanDay start anchor env = (Inr (), env)"

definition apply_default_day ::
  "'k sink_push \<Rightarrow> civil_date list \<Rightarrow> span_kind \<Rightarrow> civil_date \<Rightarrow> civil_datetime \<Rightarrow> 'k env
    \<Rightarrow> (limit_exceeded + civil_date list) \<times> 'k env" where
  "apply_default_day push' days span start anchor env =
     and_then (report_absent_default push' days span start anchor env)
       (\<lambda>_ env. (Inr (filter (\<lambda>d. default_day_matches span d start) days), env))"

section \<open>Times of day\<close>

definition seed_time :: "freq \<Rightarrow> civil_time \<Rightarrow> civil_time \<Rightarrow> civil_time" where
  "seed_time f anchor start =
     (let (h, m, s) =
        (case f of
           Secondly \<Rightarrow> (hour anchor, minute anchor, second anchor)
         | Minutely \<Rightarrow> (hour anchor, minute anchor, second start)
         | Hourly \<Rightarrow> (hour anchor, minute start, second start)
         | _ \<Rightarrow> (hour start, minute start, second start))
      in case time_from_hms h m s of Some t \<Rightarrow> t | None \<Rightarrow> start)"

fun field_values :: "rule_part \<Rightarrow> recurrence_rule \<Rightarrow> nat list" where
  "field_values ByHour r = by_hour r"
| "field_values ByMinute r = by_minute r"
| "field_values BySecond r = by_second r"
| "field_values _ r = []"

fun time_field :: "rule_part \<Rightarrow> civil_time \<Rightarrow> nat option" where
  "time_field ByHour t = Some (hour t)"
| "time_field ByMinute t = Some (minute t)"
| "time_field BySecond t = Some (second t)"
| "time_field _ t = None"

fun with_field :: "civil_time \<Rightarrow> rule_part \<Rightarrow> nat \<Rightarrow> civil_time option" where
  "with_field t ByHour v = time_from_hms v (minute t) (second t)"
| "with_field t ByMinute v = time_from_hms (hour t) v (second t)"
| "with_field t BySecond v = time_from_hms (hour t) (minute t) v"
| "with_field t _ v = None"

fun expanded_values :: "civil_time \<Rightarrow> rule_part \<Rightarrow> nat list \<Rightarrow> civil_time list \<Rightarrow> meter
    \<Rightarrow> (limit_exceeded + civil_time list) \<times> meter" where
  "expanded_values t p [] widened m = (Inr widened, m)"
| "expanded_values t p (v # vs) widened m =
     (case with_field t p v of
        None \<Rightarrow> expanded_values t p vs widened m
      | Some moved \<Rightarrow>
          and_then (try_charge_candidate m) (\<lambda>_. expanded_values t p vs (widened @ [moved])))"

fun expanded_times_loop :: "civil_time list \<Rightarrow> rule_part \<Rightarrow> nat list \<Rightarrow> civil_time list \<Rightarrow> meter
    \<Rightarrow> (limit_exceeded + civil_time list) \<times> meter" where
  "expanded_times_loop [] p values widened m = (Inr widened, m)"
| "expanded_times_loop (t # ts) p values widened m =
     and_then (expanded_values t p values widened m) (expanded_times_loop ts p values)"

definition expanded_times :: "civil_time list \<Rightarrow> rule_part \<Rightarrow> recurrence_rule \<Rightarrow> meter
    \<Rightarrow> (limit_exceeded + civil_time list) \<times> meter" where
  "expanded_times clocks p r m = expanded_times_loop clocks p (field_values p r) [] m"

fun period_times_loop :: "rule_part list \<Rightarrow> civil_time list \<Rightarrow> recurrence_rule \<Rightarrow> parts \<Rightarrow> meter
    \<Rightarrow> (limit_exceeded + civil_time list) \<times> meter" where
  "period_times_loop [] clocks r present m = (Inr clocks, m)"
| "period_times_loop (p # ps) clocks r present m =
     (if p \<notin> set TIME_PARTS \<or> \<not> has_part r p
      then period_times_loop ps clocks r present m
      else let action = effect (rule_freq r) p present in
        if limits_set action
        then period_times_loop ps
          (filter (\<lambda>t. case time_field p t of
                         Some held \<Rightarrow> held \<in> set (field_values p r)
                       | None \<Rightarrow> False) clocks) r present m
        else if expands action
        then and_then (expanded_times clocks p r m) (\<lambda>clocks. period_times_loop ps clocks r present)
        else period_times_loop ps clocks r present m)"

definition period_times :: "recurrence_rule \<Rightarrow> parts \<Rightarrow> civil_time \<Rightarrow> civil_time \<Rightarrow> meter
    \<Rightarrow> (limit_exceeded + civil_time list) \<times> meter" where
  "period_times r present anchor start m =
     and_then (try_charge_candidate m)
       (\<lambda>_. period_times_loop rule_part_all [seed_time (rule_freq r) anchor start] r present)"

section \<open>The candidate set\<close>

record candidate_set =
  stamps :: "civil_datetime list"

fun assemble_times :: "civil_date \<Rightarrow> civil_time list \<Rightarrow> civil_datetime list \<Rightarrow> meter
    \<Rightarrow> (limit_exceeded + civil_datetime list) \<times> meter" where
  "assemble_times d [] out m = (Inr out, m)"
| "assemble_times d (t # ts) out m =
     and_then (try_charge_candidate m)
       (\<lambda>_. assemble_times d ts (out @ [\<lparr>date_part = d, time_part = t\<rparr>]))"

fun assemble_days :: "civil_date list \<Rightarrow> civil_time list \<Rightarrow> civil_datetime list \<Rightarrow> meter
    \<Rightarrow> (limit_exceeded + civil_datetime list) \<times> meter" where
  "assemble_days [] clocks out m = (Inr out, m)"
| "assemble_days (d # ds) clocks out m =
     and_then (assemble_times d clocks out m) (assemble_days ds clocks)"

definition assemble :: "civil_date list \<Rightarrow> civil_time list \<Rightarrow> meter
    \<Rightarrow> (limit_exceeded + candidate_set) \<times> meter" where
  "assemble days clocks m =
     and_then (assemble_days days clocks [] m)
       (\<lambda>out m. (Inr \<lparr>stamps = remdups_adj (sort out)\<rparr>, m))"

definition expand_period ::
  "'k sink_push \<Rightarrow> period \<Rightarrow> recurrence_rule \<Rightarrow> civil_datetime \<Rightarrow> 'k env
    \<Rightarrow> (limit_exceeded + candidate_set) \<times> 'k env" where
  "expand_period push' p r dtstart env =
     (let anchor = period_anchor p; present = parts_present r in
      and_then (with_sink (fst env) (period_days r present (date_part anchor) (snd env)))
        (\<lambda>days env.
      and_then (apply_date_parts push' days r present anchor env) (\<lambda>days env.
      and_then
        (if \<not> has_expanding_day_part r present
         then apply_default_day push' days (effective_span r present) (date_part dtstart) anchor env
         else (Inr days, env)) (\<lambda>days env.
      and_then
        (with_sink (fst env)
          (period_times r present (time_part anchor) (time_part dtstart) (snd env)))
        (\<lambda>clocks env. with_sink (fst env) (assemble days clocks (snd env)))))))"

end
