(* ===== verification/Recur_Candidates.thy ===== *)
theory Recur_Candidates
  imports Recur_Expand
begin

text \<open>
  What a period's candidates are: the reference set, given by one condition per field, and the proof
  that the expansion of \<open>recur/byparts.rs\<close> produces it, ascending and without repeats, whenever the
  ledger lets it finish.
\<close>

section \<open>The reference\<close>

definition in_extent :: "civil_date \<times> nat \<Rightarrow> civil_date \<Rightarrow> bool" where
  "in_extent x d \<longleftrightarrow>
     day_number (fst x) \<le> day_number d \<and> day_number d < day_number (fst x) + int (snd x)"

definition applies :: "recurrence_rule \<Rightarrow> rule_part \<Rightarrow> bool" where
  "applies r p \<longleftrightarrow> has_part r p \<and> effect (rule_freq r) p (parts_present r) \<noteq> NotApplicable"

definition day_admitted :: "recurrence_rule \<Rightarrow> civil_date \<Rightarrow> civil_date \<Rightarrow> bool" where
  "day_admitted r start d \<longleftrightarrow>
     (\<forall>p \<in> set DATE_PARTS. applies r p \<longrightarrow>
        date_part_matches p d r (weekday_scope_of (rule_freq r) (parts_present r)))
     \<and> (has_expanding_day_part r (parts_present r)
        \<or> default_day_matches (effective_span r (parts_present r)) d start)"

text \<open>The values one field of the clock may take, given what the period and \<open>DTSTART\<close> leave in it.\<close>

definition field_choices :: "recurrence_rule \<Rightarrow> rule_part \<Rightarrow> nat \<Rightarrow> nat \<Rightarrow> nat set" where
  "field_choices r p held bound =
     (if \<not> has_part r p then {held}
      else if effect (rule_freq r) p (parts_present r) = Limit
      then {held} \<inter> set (field_values p r)
      else {v \<in> set (field_values p r). v \<le> bound})"

definition time_admitted :: "recurrence_rule \<Rightarrow> civil_time \<Rightarrow> civil_time \<Rightarrow> bool" where
  "time_admitted r seed t \<longleftrightarrow>
     hour t \<in> field_choices r ByHour (hour seed) 23
     \<and> minute t \<in> field_choices r ByMinute (minute seed) 59
     \<and> second t \<in> field_choices r BySecond (second seed) 60"

definition is_candidate ::
  "recurrence_rule \<Rightarrow> civil_datetime \<Rightarrow> civil_datetime \<Rightarrow> civil_datetime \<Rightarrow> bool" where
  "is_candidate r dtstart anchor t \<longleftrightarrow>
     valid_date (date_part t)
     \<and> in_extent (day_extent r (parts_present r) (date_part anchor)) (date_part t)
     \<and> day_admitted r (date_part dtstart) (date_part t)
     \<and> time_admitted r (seed_time (rule_freq r) (time_part anchor) (time_part dtstart)) (time_part t)"

section \<open>Days\<close>

lemma period_days_loop_result:
  assumes "valid_date start" "n \<le> 65536"
    and "period_days_loop start [k..<n] days m = (Inr out, m')"
  shows "\<exists>xs. out = days @ xs \<and> sorted_wrt (<) xs
    \<and> set xs = {d. valid_date d \<and> day_number start + int k \<le> day_number d
                 \<and> day_number d < day_number start + int n}"
  using assms(3)
proof (induction "n - k" arbitrary: k days m)
  case 0
  then show ?case by auto
next
  case (Suc j)
  then have kn: "k < n" and up: "[k..<n] = k # [Suc k..<n]" by (auto simp: upt_conv_Cons)
  have i: "in_i64 (int k)" using kn assms(2) by (simp add: in_i64_def)
  show ?case
  proof (cases "checked_add_days start (int k)")
    case None
    have "\<not> (valid_date d \<and> day_number start + int k \<le> day_number d)" for d
    proof
      assume d: "valid_date d \<and> day_number start + int k \<le> day_number d"
      then have "day_number start + int k \<le> 2932896" using day_number_le_iff(2) [of d] by linarith
      moreover have "- 719528 \<le> day_number start + int k"
        using day_number_le_iff(1) [OF assms(1)] by linarith
      ultimately obtain e where "valid_date e" "day_number e = day_number start + int k"
        using from_days_from_epoch_total by blast
      then show False using None checked_add_days_iff [OF assms(1) i, of e] by simp
    qed
    then show ?thesis using Suc.prems None by (auto simp: up)
  next
    case (Some d)
    then have d: "valid_date d" "day_number d = day_number start + int k"
      using checked_add_days_iff [OF assms(1) i] by auto
    obtain m1 where m1: "period_days_loop start [Suc k..<n] (days @ [d]) m1 = (Inr out, m')"
      using Suc.prems Some unfolding up by (auto elim: and_then_InrE)
    have "j = n - Suc k" using Suc.hyps(2) by simp
    from Suc.hyps(1) [OF this m1] obtain xs where xs: "out = (days @ [d]) @ xs" "sorted_wrt (<) xs"
      "set xs = {d. valid_date d \<and> day_number start + int (Suc k) \<le> day_number d
                 \<and> day_number d < day_number start + int n}" by blast
    have "d < e" if "e \<in> set xs" for e
      using that xs(3) d day_number_less_iff [OF d(1), of e] by auto
    moreover have "set (d # xs) = {d. valid_date d \<and> day_number start + int k \<le> day_number d
                 \<and> day_number d < day_number start + int n}"
    proof (intro set_eqI)
      fix e
      have "e = d" if "valid_date e" "day_number e = day_number start + int k"
        using that d by (intro day_number_unique) simp_all
      then show "e \<in> set (d # xs) \<longleftrightarrow> e \<in> {d. valid_date d \<and> day_number start + int k \<le> day_number d
                 \<and> day_number d < day_number start + int n}"
        using d kn by (cases "day_number e = day_number start + int k") (auto simp: xs(3))
    qed
    ultimately show ?thesis using xs(1,2) by (intro exI [of _ "d # xs"]) simp
  qed
qed

lemma week_year_extent_parts:
  assumes "y \<le> 9999" "week_year_extent y wkst = Some (s, n)"
  shows "valid_date s" "day_number s = week_one_begin y wkst"
    "week_one_begin (Suc y) wkst = day_number s + int n" "n \<le> 371"
proof -
  obtain k where k: "week_one_start y wkst = Some s" "weeks_in_week_year y wkst = Some k"
    "u16_try_from (int k * 7) = Some n"
    using assms(2) by (auto simp: week_year_extent_def elim!: option_bind_SomeE)
  note w = weeks_in_week_year_value [OF assms(1) k(2)]
  have "n = k * 7" using k(3) w(3) by (auto simp: u16_try_from_def split: if_splits)
  then show "valid_date s" "day_number s = week_one_begin y wkst"
    "week_one_begin (Suc y) wkst = day_number s + int n" "n \<le> 371"
    using w week_one_start_iff [OF assms(1)] k(1) by auto
qed

lemma period_extent_parts:
  assumes "valid_date a"
  shows "valid_date (fst (period_extent sp wkst a))" "snd (period_extent sp wkst a) \<le> 371"
proof -
  note b = valid_date_bounds [OF assms]
  have "valid_date (fst (period_extent sp wkst a)) \<and> snd (period_extent sp wkst a) \<le> 371"
  proof (cases sp)
    case SpanYear
    then show ?thesis
      using january_first [OF b(1)] year_length_cases [of "year a"] by auto
  next
    case SpanMonth
    then show ?thesis
      using date_of_month [OF assms b(2,3)] month_begin(1) [OF assms]
      by (auto split: option.splits dest: days_in_month_bounds)
  next
    case SpanWeek
    obtain w where w: "weekday_of a = Some w" using weekday_of_Some [OF assms] by blast
    have i: "in_i64 (- int (week_offset w wkst))"
      using week_offset_value [OF assms w] week_begin_bounds [where wkst = wkst and n = "day_number a"]
      by (auto simp: in_i64_def)
    then show ?thesis
      using SpanWeek w checked_add_days_iff [OF assms i]
      by (auto simp: Let_def sub64_def checked_i64_def assms split: option.splits)
  qed (simp add: assms)
  then show "valid_date (fst (period_extent sp wkst a))" "snd (period_extent sp wkst a) \<le> 371"
    by auto
qed

lemma day_extent_parts:
  assumes "valid_date a"
  shows "valid_date (fst (day_extent r present a))" "snd (day_extent r present a) \<le> 371"
  using period_extent_parts [OF assms] week_year_extent_parts [of "year a" "rule_wkst r"]
    valid_date_bounds(1) [OF assms]
  by (auto simp: day_extent_def split: option.splits if_splits prod.splits)

lemma period_days_result:
  assumes "valid_date a" "period_days r present a m = (Inr days, m')"
  shows "sorted_wrt (<) days"
    "set days = {d. valid_date d \<and> in_extent (day_extent r present a) d}"
proof -
  obtain s n where x: "day_extent r present a = (s, n)" by fastforce
  then have s: "valid_date s" "n \<le> 65536" using day_extent_parts [OF assms(1), of r present] by auto
  show "sorted_wrt (<) days" "set days = {d. valid_date d \<and> in_extent (day_extent r present a) d}"
    using period_days_loop_result [OF s, of 0 "[]" m days m'] assms(2)
    by (auto simp: period_days_def x in_extent_def)
qed

lemma apply_date_parts_loop_result:
  assumes "apply_date_parts_loop push' ps days r present scope anchor env = (Inr out, env')"
  shows "out = filter (\<lambda>d. \<forall>p \<in> set ps. p \<in> set DATE_PARTS \<and> has_part r p
      \<and> effect (rule_freq r) p present \<noteq> NotApplicable \<longrightarrow> date_part_matches p d r scope) days"
  using assms
proof (induction ps arbitrary: days env)
  case (Cons p ps)
  let ?on = "p \<in> set DATE_PARTS \<and> has_part r p \<and> effect (rule_freq r) p present \<noteq> NotApplicable"
  show ?case
  proof (cases ?on)
    case True
    then obtain env1 where "apply_date_parts_loop push' ps
        (filter (\<lambda>d. date_part_matches p d r scope) days) r present scope anchor env1 = (Inr out, env')"
      using Cons.prems by (auto simp: Let_def elim!: and_then_InrE)
    from Cons.IH [OF this] True show ?thesis by (auto intro!: filter_cong)
  next
    case False
    then have "apply_date_parts_loop push' ps days r present scope anchor env = (Inr out, env')"
      using Cons.prems by (auto simp: Let_def split: if_splits)
    from Cons.IH [OF this] False show ?thesis by (auto intro!: filter_cong)
  qed
qed simp

section \<open>Times\<close>

lemma expanded_values_result:
  "expanded_values t p vs out m = (Inr res, m') \<Longrightarrow>
    set res = set out \<union> {t'. \<exists>v \<in> set vs. with_field t p v = Some t'}"
  by (induction vs arbitrary: out m) (auto split: option.splits elim!: and_then_InrE)

lemma expanded_times_loop_result:
  "expanded_times_loop ts p vs out m = (Inr res, m') \<Longrightarrow>
    set res = set out \<union> {t'. \<exists>t \<in> set ts. \<exists>v \<in> set vs. with_field t p v = Some t'}"
proof (induction ts arbitrary: out m)
  case (Cons t ts)
  then obtain out1 m1 where "expanded_values t p vs out m = (Inr out1, m1)"
    "expanded_times_loop ts p vs out1 m1 = (Inr res, m')" by (auto elim: and_then_InrE)
  then show ?case using Cons.IH expanded_values_result by fastforce
qed simp

definition time_box :: "nat set \<Rightarrow> nat set \<Rightarrow> nat set \<Rightarrow> civil_time set" where
  "time_box H M S = {t. hour t \<in> H \<and> minute t \<in> M \<and> second t \<in> S}"

text \<open>One clock part turns the single value its field held into the values the field may take.\<close>

definition clock_step :: "recurrence_rule \<Rightarrow> parts \<Rightarrow> rule_part \<Rightarrow> civil_time list \<Rightarrow> meter
    \<Rightarrow> (limit_exceeded + civil_time list) \<times> meter" where
  "clock_step r present p clocks m = period_times_loop [p] clocks r present m"

lemma period_times_loop_Cons:
  "period_times_loop (p # ps) clocks r present m
    = and_then (clock_step r present p clocks m) (\<lambda>clocks. period_times_loop ps clocks r present)"
  by (auto simp: clock_step_def Let_def and_then_def split: prod.splits sum.splits)

lemma clock_effect:
  "p \<in> set TIME_PARTS \<Longrightarrow> effect f p present = Limit \<or> effect f p present = Expand"
  by (cases f) (auto simp: TIME_PARTS_def effect_def table_cell_def TABLE_def)

lemma clock_step_set:
  assumes "p \<in> set TIME_PARTS" "clock_step r (parts_present r) p clocks m = (Inr out, m')"
  shows "set out =
    (if \<not> has_part r p then set clocks
     else if effect (rule_freq r) p (parts_present r) = Limit
     then {t \<in> set clocks. \<exists>v \<in> set (field_values p r). time_field p t = Some v}
     else {t'. \<exists>t \<in> set clocks. \<exists>v \<in> set (field_values p r). with_field t p v = Some t'})"
proof -
  have grown: "set out = {t'. \<exists>t \<in> set clocks. \<exists>v \<in> set (field_values p r). with_field t p v = Some t'}"
    if "expanded_times clocks p r m = (Inr out, m')"
    using expanded_times_loop_result [of clocks p "field_values p r" "[]"] that
    unfolding expanded_times_def by fastforce
  have expanding: "expanded_times clocks p r m = (Inr out, m')"
    if "has_part r p" "effect (rule_freq r) p (parts_present r) = Expand"
    using assms that by (auto simp: clock_step_def Let_def limits_set_def elim!: and_then_InrE)
  have limiting: "set out = {t \<in> set clocks. \<exists>v \<in> set (field_values p r). time_field p t = Some v}"
    if "has_part r p" "effect (rule_freq r) p (parts_present r) = Limit"
    using assms that
    by (auto simp: clock_step_def Let_def limits_set_def split: option.splits)
  consider "\<not> has_part r p" | "has_part r p" "effect (rule_freq r) p (parts_present r) = Limit"
    | "has_part r p" "effect (rule_freq r) p (parts_present r) = Expand"
    using clock_effect [OF assms(1)] by blast
  then show ?thesis
  proof cases
    case 1
    then show ?thesis using assms by (simp add: clock_step_def)
  next
    case 2
    then show ?thesis using limiting by simp
  next
    case 3
    then show ?thesis using grown [OF expanding] by simp
  qed
qed

lemma clock_step_hour:
  assumes "clock_step r (parts_present r) ByHour clocks m = (Inr out, m')"
    and "set clocks = time_box {h} M S" "M \<subseteq> {..59}" "S \<subseteq> {..60}"
  shows "set out = time_box (field_choices r ByHour h 23) M S"
proof -
  have "{t'. \<exists>t \<in> time_box {h} M S. \<exists>v \<in> V. time_from_hms v (minute t) (second t) = Some t'}
      = time_box {v \<in> V. v \<le> 23} M S" for V
  proof (intro set_eqI iffI)
    fix t' assume "t' \<in> time_box {v \<in> V. v \<le> 23} M S"
    then show "t' \<in> {t'. \<exists>t \<in> time_box {h} M S. \<exists>v \<in> V. time_from_hms v (minute t) (second t) = Some t'}"
      using assms(3,4)
      by (auto simp: time_box_def time_from_hms_Some_iff intro!: exI [of _ "t'\<lparr>hour := h\<rparr>"]
          bexI [of _ "hour t'"])
  qed (auto simp: time_box_def time_from_hms_Some_iff)
  then show ?thesis
    using clock_step_set [OF _ assms(1)] assms(2)
    by (auto simp: TIME_PARTS_def field_choices_def time_box_def)
qed

lemma clock_step_minute:
  assumes "clock_step r (parts_present r) ByMinute clocks m = (Inr out, m')"
    and "set clocks = time_box H {n} S" "H \<subseteq> {..23}" "S \<subseteq> {..60}"
  shows "set out = time_box H (field_choices r ByMinute n 59) S"
proof -
  have "{t'. \<exists>t \<in> time_box H {n} S. \<exists>v \<in> V. time_from_hms (hour t) v (second t) = Some t'}
      = time_box H {v \<in> V. v \<le> 59} S" for V
  proof (intro set_eqI iffI)
    fix t' assume "t' \<in> time_box H {v \<in> V. v \<le> 59} S"
    then show "t' \<in> {t'. \<exists>t \<in> time_box H {n} S. \<exists>v \<in> V. time_from_hms (hour t) v (second t) = Some t'}"
      using assms(3,4)
      by (auto simp: time_box_def time_from_hms_Some_iff intro!: exI [of _ "t'\<lparr>minute := n\<rparr>"]
          bexI [of _ "minute t'"])
  qed (auto simp: time_box_def time_from_hms_Some_iff)
  then show ?thesis
    using clock_step_set [OF _ assms(1)] assms(2)
    by (auto simp: TIME_PARTS_def field_choices_def time_box_def)
qed

lemma clock_step_second:
  assumes "clock_step r (parts_present r) BySecond clocks m = (Inr out, m')"
    and "set clocks = time_box H M {n}" "H \<subseteq> {..23}" "M \<subseteq> {..59}"
  shows "set out = time_box H M (field_choices r BySecond n 60)"
proof -
  have "{t'. \<exists>t \<in> time_box H M {n}. \<exists>v \<in> V. time_from_hms (hour t) (minute t) v = Some t'}
      = time_box H M {v \<in> V. v \<le> 60}" for V
  proof (intro set_eqI iffI)
    fix t' assume "t' \<in> time_box H M {v \<in> V. v \<le> 60}"
    then show "t' \<in> {t'. \<exists>t \<in> time_box H M {n}. \<exists>v \<in> V. time_from_hms (hour t) (minute t) v = Some t'}"
      using assms(3,4)
      by (auto simp: time_box_def time_from_hms_Some_iff intro!: exI [of _ "t'\<lparr>second := n\<rparr>"]
          bexI [of _ "second t'"])
  qed (auto simp: time_box_def time_from_hms_Some_iff)
  then show ?thesis
    using clock_step_set [OF _ assms(1)] assms(2)
    by (auto simp: TIME_PARTS_def field_choices_def time_box_def)
qed

lemma field_choices_bounded: "held \<le> bound \<Longrightarrow> field_choices r p held bound \<subseteq> {..bound}"
  by (auto simp: field_choices_def)

lemma seed_time_valid:
  "valid_time a \<Longrightarrow> valid_time s \<Longrightarrow> valid_time (seed_time f a s)"
  by (cases f) (auto simp: seed_time_def Let_def valid_time_def time_from_hms_def)

lemma period_times_result:
  assumes "valid_time a" "valid_time s"
    and "period_times r (parts_present r) a s m = (Inr clocks, m')"
  shows "set clocks = {t. time_admitted r (seed_time (rule_freq r) a s) t}"
proof -
  let ?seed = "seed_time (rule_freq r) a s"
  note seed = seed_time_valid [OF assms(1,2), of "rule_freq r"]
  have skip: "period_times_loop (p # ps) cs r present m = period_times_loop ps cs r present m"
    if "p \<in> {ByMonth, ByWeekNo, ByYearDay, ByMonthDay, ByDay, BySetPos}" for p ps cs m present
    using that by (auto simp: TIME_PARTS_def)
  obtain m1 where "period_times_loop rule_part_all [?seed] r (parts_present r) m1 = (Inr clocks, m')"
    using assms(3) by (auto simp: period_times_def elim: and_then_InrE)
  then have "period_times_loop [ByHour, ByMinute, BySecond, BySetPos] [?seed] r (parts_present r) m1
      = (Inr clocks, m')"
    by (simp add: rule_part_all_def skip del: period_times_loop.simps)
  then obtain c1 m2 c2 m3 c3 m4 where
    "clock_step r (parts_present r) ByHour [?seed] m1 = (Inr c1, m2)"
    "clock_step r (parts_present r) ByMinute c1 m2 = (Inr c2, m3)"
    "clock_step r (parts_present r) BySecond c2 m3 = (Inr c3, m4)"
    "period_times_loop [BySetPos] c3 r (parts_present r) m4 = (Inr clocks, m')"
    unfolding period_times_loop_Cons [of ByHour] period_times_loop_Cons [of ByMinute]
      period_times_loop_Cons [of BySecond]
    by (auto elim!: and_then_InrE simp del: period_times_loop.simps)
  moreover have "set [?seed] = time_box {hour ?seed} {minute ?seed} {second ?seed}"
    by (auto simp: time_box_def)
  ultimately have "set c3 = time_box (field_choices r ByHour (hour ?seed) 23)
      (field_choices r ByMinute (minute ?seed) 59) (field_choices r BySecond (second ?seed) 60)"
    using seed field_choices_bounded
    by (intro clock_step_second clock_step_minute clock_step_hour) (auto simp: valid_time_def)
  moreover have "c3 = clocks"
    using \<open>period_times_loop [BySetPos] c3 r (parts_present r) m4 = (Inr clocks, m')\<close>
    by (simp add: TIME_PARTS_def)
  ultimately show ?thesis by (auto simp: time_box_def time_admitted_def)
qed

section \<open>Candidates\<close>

lemma assemble_times_result:
  "assemble_times d ts out m = (Inr res, m') \<Longrightarrow>
    res = out @ map (\<lambda>t. \<lparr>date_part = d, time_part = t\<rparr>) ts"
proof (induction ts arbitrary: out m)
  case (Cons t ts)
  then obtain m1 where "assemble_times d ts (out @ [\<lparr>date_part = d, time_part = t\<rparr>]) m1 = (Inr res, m')"
    by (auto elim: and_then_InrE)
  from Cons.IH [OF this] show ?case by simp
qed simp

lemma assemble_days_result:
  "assemble_days ds ts out m = (Inr res, m') \<Longrightarrow>
    set res = set out \<union> {t. date_part t \<in> set ds \<and> time_part t \<in> set ts}"
proof (induction ds arbitrary: out m)
  case (Cons d ds)
  then obtain out1 m1 where "assemble_times d ts out m = (Inr out1, m1)"
    and rest: "assemble_days ds ts out1 m1 = (Inr res, m')" by (auto elim: and_then_InrE)
  then have "set out1 = set out \<union> {t. date_part t = d \<and> time_part t \<in> set ts}"
    by (auto dest!: assemble_times_result simp: image_iff) (metis civil_datetime.surjective unit.exhaust)
  with Cons.IH [OF rest] show ?case by auto
qed simp

lemma sorted_remdups_adj_strict:
  "sorted (xs :: 'a :: linorder list) \<Longrightarrow> sorted_wrt (<) (remdups_adj xs)"
proof (induction xs rule: remdups_adj.induct)
  case (3 x y xs)
  then show ?case
    by (cases "x = y") (auto simp: less_le)
qed simp_all

lemma expand_period_result:
  assumes "valid_datetime (period_anchor p)" "valid_datetime dtstart"
    and "expand_period push' p r dtstart env = (Inr cs, env')"
  shows "sorted_wrt (<) (stamps cs)"
    "set (stamps cs) = {t. is_candidate r dtstart (period_anchor p) t}"
proof -
  let ?a = "period_anchor p" and ?pr = "parts_present r"
  have v: "valid_date (date_part ?a)" "valid_time (time_part ?a)" "valid_time (time_part dtstart)"
    using assms(1,2) by (auto simp: valid_datetime_def)
  obtain days0 m0 m0' days1 e1 e1' days2 e2 clocks m3 m3' m4 m4' where steps:
    "period_days r ?pr (date_part ?a) m0 = (Inr days0, m0')"
    "apply_date_parts push' days0 r ?pr ?a e1 = (Inr days1, e1')"
    "(if \<not> has_expanding_day_part r ?pr
      then apply_default_day push' days1 (effective_span r ?pr) (date_part dtstart) ?a e1'
      else (Inr days1, e1')) = (Inr days2, e2)"
    "period_times r ?pr (time_part ?a) (time_part dtstart) m3 = (Inr clocks, m3')"
    "assemble days2 clocks m4 = (Inr cs, m4')"
    using assms(3)
    by (auto simp: expand_period_def Let_def with_sink_def elim!: and_then_InrE split: prod.splits)
  obtain out where out: "assemble_days days2 clocks [] m4 = (Inr out, m4')"
    and cs: "stamps cs = remdups_adj (sort out)"
    using steps(5) by (auto simp: assemble_def elim!: and_then_InrE)
  show "sorted_wrt (<) (stamps cs)" unfolding cs by (intro sorted_remdups_adj_strict) simp
  have "set days2 = {d \<in> set days0. day_admitted r (date_part dtstart) d}"
    using steps(3) apply_date_parts_loop_result [OF steps(2) [unfolded apply_date_parts_def]]
    by (auto simp: apply_default_day_def day_admitted_def applies_def elim!: and_then_InrE
        split: if_splits)
  then show "set (stamps cs) = {t. is_candidate r dtstart ?a t}"
    using assemble_days_result [OF out] period_days_result(2) [OF v(1) steps(1)]
      period_times_result [OF v(2,3) steps(4)]
    by (auto simp: cs is_candidate_def)
qed

section \<open>Refusals\<close>

text \<open>A step that refuses has latched the ledger.\<close>

definition latched :: "('w \<Rightarrow> meter) \<Rightarrow> ('e + 'a) \<times> 'w \<Rightarrow> bool" where
  "latched ledger r \<longleftrightarrow> (case r of (Inl e, w) \<Rightarrow> m_exhausted (ledger w) | (Inr x, w) \<Rightarrow> True)"

lemma latched_Inr [simp]: "latched ledger (Inr x, w)" by (simp add: latched_def)

lemma latched_and_then:
  assumes "latched ledger r" "\<And>x w. latched ledger (f x w)"
  shows "latched ledger (and_then r f)"
proof -
  obtain x w where r: "r = (x, w)" by fastforce
  show ?thesis
  proof (cases x)
    case (Inl e)
    then show ?thesis using assms(1) by (simp add: r latched_def)
  next
    case (Inr y)
    then show ?thesis using assms(2) [of y w] by (simp add: r)
  qed
qed

lemma latched_charge: "latched (\<lambda>m. m) (try_charge_candidate m)"
  by (auto simp: latched_def try_charge_candidate_def try_charge_def charge_def Let_def
      split: if_splits)

lemma latched_with_sink: "latched (\<lambda>m. m) r \<Longrightarrow> latched snd (with_sink k r)"
  by (auto simp: latched_def with_sink_def split: prod.splits sum.splits)

lemma latched_period_days: "latched (\<lambda>m. m) (period_days r present a m)"
proof -
  have "latched (\<lambda>m. m) (period_days_loop start offs days m)" for start offs days m
    by (induction offs arbitrary: days m)
       (auto intro!: latched_and_then latched_charge split: option.splits)
  then show ?thesis by (auto simp: period_days_def split: prod.splits)
qed

lemma latched_report_absent: "latched snd (report_absent push' anchor env)"
  using latched_charge [of "snd (report push' (case at_offset anchor UTC of
      Some i \<Rightarrow> diagnostic_at_instant (Expansion NonexistentRecurrenceInstance) Note i
    | None \<Rightarrow> diagnostic_new (Expansion NonexistentRecurrenceInstance) Note NOWHERE) env)"]
  by (auto simp: report_absent_def Let_def latched_def split: prod.splits sum.splits)

lemma latched_absent_values: "latched snd (report_absent_values push' len vs anchor env)"
  by (induction vs arbitrary: env) (auto intro!: latched_and_then latched_report_absent)

lemma latched_absent_months: "latched snd (report_absent_month_days push' days vs anchor env)"
proof -
  have "latched snd (report_absent_month_days_loop push' ms vs anchor env)" for ms env
    by (induction ms arbitrary: env)
       (auto intro!: latched_and_then latched_absent_values split: option.splits)
  then show ?thesis by (simp add: report_absent_month_days_def)
qed

lemma latched_absent_years: "latched snd (report_absent_year_days push' days vs anchor env)"
proof -
  have "latched snd (report_absent_year_days_loop push' ys vs anchor env)" for ys env
    by (induction ys arbitrary: env) (auto intro!: latched_and_then latched_absent_values)
  then show ?thesis by (simp add: report_absent_year_days_def)
qed

lemma latched_absent_days: "latched snd (report_absent_days push' days p r anchor env)"
  by (auto simp: report_absent_days_def latched_absent_months latched_absent_years split: rule_part.splits)

lemma latched_date_parts: "latched snd (apply_date_parts push' days r present anchor env)"
proof -
  have "latched snd (apply_date_parts_loop push' ps days r present scope anchor env)" for ps scope
    by (induction ps arbitrary: days env)
       (auto simp: Let_def intro!: latched_and_then latched_absent_days)
  then show ?thesis by (simp add: apply_date_parts_def)
qed

lemma latched_default_day: "latched snd (apply_default_day push' days span start anchor env)"
proof -
  have "latched snd (report_absent_default_years push' ys start anchor env)" for ys env
    by (induction ys arbitrary: env) (auto intro!: latched_and_then latched_report_absent)
  then have "latched snd (report_absent_default push' days span start anchor env)"
    by (cases span) (auto simp: latched_absent_months)
  then show ?thesis by (auto simp: apply_default_day_def intro!: latched_and_then)
qed

lemma latched_period_times: "latched (\<lambda>m. m) (period_times r present anchor start m)"
proof -
  have "latched (\<lambda>m. m) (expanded_values t p vs out m)" for t p vs out m
    by (induction vs arbitrary: out m)
       (auto intro!: latched_and_then latched_charge split: option.splits)
  then have "latched (\<lambda>m. m) (expanded_times_loop ts p vs out m)" for ts p vs out m
    by (induction ts arbitrary: out m) (auto intro!: latched_and_then)
  then have "latched (\<lambda>m. m) (period_times_loop ps clocks r present m)" for ps clocks m
    by (induction ps arbitrary: clocks m) (auto simp: Let_def expanded_times_def intro!: latched_and_then)
  then show ?thesis by (auto simp: period_times_def intro!: latched_and_then latched_charge)
qed

lemma latched_assemble: "latched (\<lambda>m. m) (assemble days clocks m)"
proof -
  have "latched (\<lambda>m. m) (assemble_times d ts out m)" for d ts out m
    by (induction ts arbitrary: out m) (auto intro!: latched_and_then latched_charge)
  then have "latched (\<lambda>m. m) (assemble_days ds clocks out m)" for ds out m
    by (induction ds arbitrary: out m) (auto intro!: latched_and_then)
  then show ?thesis by (auto simp: assemble_def intro!: latched_and_then)
qed

lemma latched_expand_period: "latched snd (expand_period push' p r dtstart env)"
  by (auto simp: expand_period_def Let_def
      intro!: latched_and_then latched_with_sink latched_period_days latched_date_parts
        latched_default_day latched_period_times latched_assemble)

section \<open>What the parts say\<close>

lemma position_named_iff:
  assumes "len \<le> 1000000"
  shows "position_named v len = Some k \<longleftrightarrow> 1 \<le> k \<and> k \<le> len \<and> (v = int k \<or> v = int k - int len - 1)"
proof -
  have l: "checked_i32 (int len) = Some (int len)" using assms by (simp add: checked_i32_def in_i32_def)
  have i: "in_i32 (int len)" using assms by (simp add: in_i32_def)
  consider "0 < v" | "v < 0" "in_i32 (int len + v)" | "v < 0" "\<not> in_i32 (int len + v)" | "v = 0"
    by linarith
  then show ?thesis
  proof cases
    case 2
    then have "in_i32 (int len + v + 1)" using assms by (auto simp: in_i32_def)
    then show ?thesis
      using 2 i by (auto simp: position_named_def add32_def checked_i32_def)
  next
    case 3
    then have "v < - 2000000000" using assms by (auto simp: in_i32_def)
    then show ?thesis
      using 3 assms by (auto simp: position_named_def l add32_def checked_i32_def)
  qed (auto simp: position_named_def l)
qed

lemma month_day_matches_iff:
  assumes "valid_date d"
  shows "month_day_matches d vs \<longleftrightarrow>
    (\<exists>v \<in> set vs. v = int (day d) \<or> v = int (day d) - int (month_length (year d) (month d)) - 1)"
proof -
  obtain n where n: "days_in_month (year d) (month d) = Some n" "day d \<le> n"
    using assms by (auto simp: valid_date_iff)
  have "n \<le> 1000000" using days_in_month_bounds [OF n(1)] by simp
  then show ?thesis
    using position_named_iff [of n] valid_date_bounds(4) [OF assms] n
    by (auto simp: month_day_matches_def month_length_def list_ex_iff)
qed

text \<open>The day of the year, by counting from January 1st.\<close>

definition year_day :: "civil_date \<Rightarrow> nat" where
  "year_day d = days_before_month (year d) (month d) + day d"

lemma year_day_value:
  assumes "valid_date d"
  shows "day_of_year d = Some (year_day d)" "1 \<le> year_day d" "year_day d \<le> year_length (year d)"
proof -
  have "day_number d - year_begin (year d) + 1 = int (year_day d)"
    by (simp add: day_number_def year_begin_def year_day_def)
  then show "day_of_year d = Some (year_day d)" using day_of_year_value [OF assms] by simp
  show "1 \<le> year_day d" "year_day d \<le> year_length (year d)"
    using valid_date_bounds(4) [OF assms] valid_date_in_year(2) [OF assms] by (auto simp: year_day_def)
qed

lemma year_day_matches_iff:
  assumes "valid_date d"
  shows "year_day_matches d vs \<longleftrightarrow>
    (\<exists>v \<in> set vs. v = int (year_day d) \<or> v = int (year_day d) - int (year_length (year d)) - 1)"
proof -
  have "year_length (year d) \<le> 1000000" using year_length_cases [of "year d"] by auto
  then show ?thesis
    using position_named_iff year_day_value [OF assms]
    by (auto simp: year_day_matches_def list_ex_iff)
qed

lemma week_no_matches_iff:
  assumes "valid_date d" "week_of d wkst = Some (y, n)" "weeks_in_week_year y wkst = Some len"
  shows "week_no_matches d vs wkst \<longleftrightarrow> (\<exists>v \<in> set vs. v = int n \<or> v = int n - int len - 1)"
proof -
  note wv = week_of_value [OF assms(1,2)]
  note ly = weeks_in_week_year_value [OF wv(5) assms(3)]
  have "week_one_begin (Suc y) wkst + 3 \<ge> year_begin (Suc y)"
    using week_begin_bounds [where wkst = wkst and n = "year_begin (Suc y) + 3"]
    by (simp add: week_one_begin_def)
  then have "7 * (int n - 1) < 7 * int len" using wv(2,4) ly(1) by simp
  then have "n \<le> len" by simp
  then show ?thesis
    using position_named_iff [of len] wv(1) ly(3) assms(2,3)
    by (auto simp: week_no_matches_def list_ex_iff)
qed

lemma weekday_matches_iff:
  assumes "valid_date d"
  shows "weekday_matches d vs scope wkst \<longleftrightarrow>
    (\<exists>v \<in> set vs. weekday_of d = Some (wn_weekday v)
       \<and> (case (wn_ordinal v, scope) of
            (Some n, Some s) \<Rightarrow>
              n = int (card {e \<in> same_weekdays s wkst d. day_number e \<le> day_number d})
              \<or> n = - int (card {e \<in> same_weekdays s wkst d. day_number d \<le> day_number e})
          | _ \<Rightarrow> True))"
proof -
  obtain w where w: "weekday_of d = Some w" using weekday_of_Some [OF assms] by blast
  have one: "ordinal_matches d ordinal scope wkst \<longleftrightarrow>
      (case (ordinal, scope) of
         (Some n, Some s) \<Rightarrow>
           n = int (card {e \<in> same_weekdays s wkst d. day_number e \<le> day_number d})
           \<or> n = - int (card {e \<in> same_weekdays s wkst d. day_number d \<le> day_number e})
       | _ \<Rightarrow> True)" for ordinal
  proof (cases ordinal; cases scope)
    fix n s assume ns: "ordinal = Some n" "scope = Some s"
    let ?S = "same_weekdays s wkst d"
    let ?below = "{e \<in> ?S. day_number e \<le> day_number d}"
    let ?above = "{e \<in> ?S. day_number d \<le> day_number e}"
    have "finite ((\<lambda>e. nat (day_number e - scope_begin s wkst d)) ` ?S)"
      unfolding same_weekdays_image(1) [OF assms] by simp
    then have fin: "finite ?S" using same_weekdays_image(2) [OF assms] finite_imageD by blast
    have d: "d \<in> ?S" using assms by (cases s) (auto simp: same_weekdays_def same_scope_def)
    have "e = d" if "e \<in> ?S" "day_number e = day_number d" for e
      using that assms day_number_unique by (auto simp: same_weekdays_def)
    then have "?below \<inter> ?above = {d}" using d by (auto dest: antisym)
    moreover have "?below \<union> ?above = ?S" by auto
    ultimately have sum: "card ?below + card ?above = card ?S + 1"
      using card_Un_Int [of ?below ?above] fin by simp
    have "card ?below \<le> card ?S" using fin by (intro card_mono) auto
    have "1 \<le> card ?below" using d fin by (simp add: Suc_le_eq card_gt_0_iff) blast
    have "scope_length s d \<le> 400" using year_length_cases [of "year d"]
        days_in_month_bounds by (cases s) (auto simp: scope_length_def month_length_def split: option.splits dest: days_in_month_bounds)
    then have "card ?S \<le> 1000000"
      using weekday_position_value(3) [OF assms, of s wkst] weekday_position_counts [OF assms, of s wkst]
      by (simp add: div_le_mono)
    then have "position_named n (card ?S) = Some (card ?below) \<longleftrightarrow>
        n = int (card ?below) \<or> n = int (card ?below) - int (card ?S) - 1"
      using position_named_iff [of "card ?S" n] \<open>card ?below \<le> card ?S\<close> \<open>1 \<le> card ?below\<close> by auto
    moreover have "int (card ?below) - int (card ?S) - 1 = - int (card ?above)" using sum by linarith
    ultimately show ?thesis
      by (simp add: ns ordinal_matches_def weekday_position_counts [OF assms])
  qed (auto simp: ordinal_matches_def)
  show ?thesis by (auto simp: weekday_matches_def w list_ex_iff one)
qed

section \<open>Properties\<close>

text \<open>
  C37. The days a rule admits are the days its parts name, read as RFC 5545 writes them: a month
  number is the month's own, a day of the month or of the year is counted from either end, a week
  number is counted from either end of the week-based year, and a \<open>BYDAY\<close> entry names the weekday
  and, where the rule gives an ordinal a scope, the n-th such weekday of that scope from its
  beginning or from its end.
\<close>

theorem date_parts_read_as_written:
  assumes "valid_date d"
  shows "day_admitted r start d \<longleftrightarrow>
    (applies r ByMonth \<longrightarrow> month d \<in> set (by_month r))
    \<and> (applies r ByWeekNo \<longrightarrow> (\<exists>y n len. week_of d (rule_wkst r) = Some (y, n)
         \<and> weeks_in_week_year y (rule_wkst r) = Some len
         \<and> (\<exists>v \<in> set (by_week_no r). v = int n \<or> v = int n - int len - 1)))
    \<and> (applies r ByYearDay \<longrightarrow> (\<exists>v \<in> set (by_year_day r).
         v = int (year_day d) \<or> v = int (year_day d) - int (year_length (year d)) - 1))
    \<and> (applies r ByMonthDay \<longrightarrow> (\<exists>v \<in> set (by_month_day r).
         v = int (day d) \<or> v = int (day d) - int (month_length (year d) (month d)) - 1))
    \<and> (applies r ByDay \<longrightarrow> (\<exists>v \<in> set (by_day r). weekday_of d = Some (wn_weekday v)
         \<and> (case (wn_ordinal v, weekday_scope_of (rule_freq r) (parts_present r)) of
              (Some n, Some s) \<Rightarrow>
                n = int (card {e \<in> same_weekdays s (rule_wkst r) d. day_number e \<le> day_number d})
                \<or> n = - int (card {e \<in> same_weekdays s (rule_wkst r) d. day_number d \<le> day_number e})
            | _ \<Rightarrow> True)))
    \<and> (has_expanding_day_part r (parts_present r)
       \<or> default_day_matches (effective_span r (parts_present r)) d start)"
proof -
  have week: "week_no_matches d vs wkst \<longleftrightarrow> (\<exists>y n len. week_of d wkst = Some (y, n)
      \<and> weeks_in_week_year y wkst = Some len \<and> (\<exists>v \<in> set vs. v = int n \<or> v = int n - int len - 1))"
    for vs wkst
  proof (cases "\<exists>y n len. week_of d wkst = Some (y, n) \<and> weeks_in_week_year y wkst = Some len")
    case True
    then show ?thesis using week_no_matches_iff [OF assms] by fastforce
  next
    case False
    then show ?thesis by (auto simp: week_no_matches_def split: option.splits)
  qed
  show ?thesis
    by (auto simp: day_admitted_def DATE_PARTS_def week year_day_matches_iff [OF assms]
        month_day_matches_iff [OF assms] weekday_matches_iff [OF assms])
qed

theorem date_parts_read_as_written_witness:
  "day_admitted ((rule_new Monthly)\<lparr>by_month_day := [-1]\<rparr>) \<lparr>year = 2024, month = 1, day = 31\<rparr>
     \<lparr>year = 2024, month = 2, day = 29\<rparr>"
proof -
  let ?r = "(rule_new Monthly)\<lparr>by_month_day := [-1]\<rparr>" and ?d = "\<lparr>year = 2024, month = 2, day = 29\<rparr>"
  have v: "valid_date ?d"
    by (simp add: valid_date_def date_from_ymd_def days_in_month_def MAX_YEAR_def is_leap_year_def)
  have a: "applies ?r p \<longleftrightarrow> p = ByMonthDay" for p
    by (cases p) (auto simp: applies_def rule_new_def effect_def table_cell_def TABLE_def)
  have x: "has_expanding_day_part ?r (parts_present ?r)"
    by (simp add: has_expanding_day_part_def part_expands_def rule_new_def effect_def table_cell_def
        TABLE_def)
  show ?thesis
    unfolding date_parts_read_as_written [OF v]
    using x by (simp add: a month_length_def days_in_month_def is_leap_year_def)
qed

text \<open>
  C6. A period's candidate set is the set the rule describes: whenever the expansion finishes, what
  it returns is strictly ascending and holds exactly the date-times whose date lies in the period's
  days and is admitted by the date parts (or by \<open>DTSTART\<close>'s own day where none expands), and whose
  hour, minute and second each come from the matching clock part, or from the period and \<open>DTSTART\<close>
  where the rule has none.  When it does not finish, the ledger has latched.
\<close>

theorem expansion_is_the_candidate_set:
  assumes "valid_datetime (period_anchor p)" "valid_datetime dtstart"
  shows "case expand_period push' p r dtstart env of
      (Inr cs, env') \<Rightarrow> sorted_wrt (<) (stamps cs)
        \<and> set (stamps cs) = {t. is_candidate r dtstart (period_anchor p) t}
    | (Inl e, env') \<Rightarrow> m_exhausted (snd env')"
proof -
  obtain res env' where res: "expand_period push' p r dtstart env = (res, env')" by (rule prod.exhaust)
  show ?thesis
  proof (cases res)
    case (Inl e)
    then show ?thesis
      using latched_expand_period [of push' p r dtstart env] by (simp add: res latched_def)
  next
    case (Inr cs)
    then show ?thesis using expand_period_result [OF assms, of push' r env cs env'] by (simp add: res)
  qed
qed

theorem expansion_is_the_candidate_set_witness:
  "case expand_period vec_push \<lparr>period_anchor = midnight \<lparr>year = 2024, month = 2, day = 1\<rparr>\<rparr>
      (rule_new Monthly) (midnight \<lparr>year = 2024, month = 1, day = 31\<rparr>) ([], meter_new LIMITS_DEFAULT) of
      (Inr cs, env') \<Rightarrow> sorted_wrt (<) (stamps cs)
        \<and> set (stamps cs) = {t. is_candidate (rule_new Monthly)
             (midnight \<lparr>year = 2024, month = 1, day = 31\<rparr>) (midnight \<lparr>year = 2024, month = 2, day = 1\<rparr>) t}
    | (Inl e, env') \<Rightarrow> m_exhausted (snd env')"
proof -
  have "valid_datetime (period_anchor \<lparr>period_anchor = midnight \<lparr>year = 2024, month = 2, day = 1\<rparr>\<rparr>)"
    "valid_datetime (midnight \<lparr>year = 2024, month = 1, day = 31\<rparr>)"
    by (simp_all add: valid_date_def date_from_ymd_def days_in_month_def MAX_YEAR_def is_leap_year_def)
  from expansion_is_the_candidate_set [OF this, where push' = vec_push and r = "rule_new Monthly"
      and env = "([], meter_new LIMITS_DEFAULT)"]
  show ?thesis unfolding period.simps .
qed

end
