(* ===== verification/Recur_Select.thy ===== *)
theory Recur_Select
  imports Recur_Candidates
begin

text \<open>
  \<open>BYSETPOS\<close> as \<open>recur/setpos.rs\<close> applies it to a finished period: positions from either end,
  collected in an ordered set of indices (kept here as an ascending list without repeats), and the
  number of candidates the selection had to see.
\<close>

section \<open>Selection\<close>

record selected_candidates =
  chosen :: "civil_datetime list"
  forced :: nat

definition resolve_position :: "int \<Rightarrow> nat \<Rightarrow> nat option" where
  "resolve_position pos extent =
     (if 0 < pos then
        (let ordinal = nat pos; index = ordinal - 1
         in if 1 \<le> ordinal \<and> index < extent then Some index else None)
      else if pos < 0 then
        (if nat \<bar>pos\<bar> \<le> extent then Some (extent - nat \<bar>pos\<bar>) else None)
      else None)"

definition reach :: "int \<Rightarrow> nat \<Rightarrow> nat" where
  "reach pos extent =
     (if 0 < pos then min (nat pos) extent else if pos < 0 then extent else 0)"

fun pick_positions :: "int list \<Rightarrow> nat \<Rightarrow> nat list \<times> nat \<Rightarrow> nat list \<times> nat" where
  "pick_positions [] extent (picked, f) = (picked, f)"
| "pick_positions (pos # rest) extent (picked, f) =
     (let f' = max f (reach pos extent) in
      case resolve_position pos extent of
        Some index \<Rightarrow> pick_positions rest extent (insort_insert index picked, f')
      | None \<Rightarrow> pick_positions rest extent (picked, f'))"

definition select_within :: "civil_datetime list \<Rightarrow> int list \<Rightarrow> selected_candidates" where
  "select_within candidates positions =
     (let extent = length candidates in
      if positions = [] then \<lparr>chosen = candidates, forced = extent\<rparr>
      else let (picked, f) = pick_positions positions extent ([], 0) in
        \<lparr>chosen = List.map_filter
           (\<lambda>index. if index < extent then Some (candidates ! index) else None) picked,
         forced = f\<rparr>)"

definition select :: "candidate_set \<Rightarrow> int list \<Rightarrow> selected_candidates" where
  "select cs positions = select_within (stamps cs) positions"

section \<open>Lemmas\<close>

text \<open>Whether a list of positions names the candidate at an index.\<close>

definition named_at :: "int list \<Rightarrow> nat \<Rightarrow> nat \<Rightarrow> bool" where
  "named_at positions extent i \<longleftrightarrow>
     int i + 1 \<in> set positions \<or> int i - int extent \<in> set positions"

lemma resolve_position_iff:
  "resolve_position pos extent = Some i \<longleftrightarrow> i < extent \<and> (pos = int i + 1 \<or> pos = int i - int extent)"
  by (auto simp: resolve_position_def Let_def)

lemma pick_positions_result:
  assumes "pick_positions ps extent (picked, f) = (picked', f')"
    and "sorted picked" "distinct picked"
  shows "sorted picked' \<and> distinct picked'
    \<and> set picked' = set picked \<union> {i. i < extent \<and> named_at ps extent i}"
  using assms
proof (induction ps arbitrary: picked f)
  case (Cons pos ps)
  have "{i. i < extent \<and> named_at (pos # ps) extent i}
      = {i. resolve_position pos extent = Some i} \<union> {i. i < extent \<and> named_at ps extent i}"
    unfolding resolve_position_iff by (auto simp: named_at_def)
  moreover obtain picked1 f1 where "pick_positions ps extent (picked1, f1) = (picked', f')"
    "sorted picked1" "distinct picked1" "set picked1 = set picked \<union> {i. resolve_position pos extent = Some i}"
    using Cons.prems by (auto simp: Let_def set_insort_insert sorted_insort_insert distinct_insort_insert
        split: option.splits)
  ultimately show ?case using Cons.IH by blast
qed (auto simp: named_at_def)

lemma pick_positions_forced:
  "snd (pick_positions ps extent (picked, f)) =
     (if \<exists>p \<in> set ps. p < 0 then max f extent
      else max f (min extent (nat (Max (insert 0 (set ps))))))"
proof (induction ps arbitrary: picked f)
  case (Cons pos ps)
  have step: "snd (pick_positions (pos # ps) extent (picked, f))
      = snd (pick_positions ps extent (q, max f (reach pos extent)))"
    if "q = (case resolve_position pos extent of Some i \<Rightarrow> insort_insert i picked | None \<Rightarrow> picked)" for q
    using that by (auto simp: Let_def split: option.splits)
  define top where "top = Max (insert 0 (set ps))"
  have "Max (insert 0 (set (pos # ps))) = max pos top"
    unfolding top_def by (simp add: insert_commute [of 0 pos] del: Max_insert) simp
  moreover have "0 \<le> top" by (simp add: top_def)
  ultimately show ?case
    unfolding step [OF refl] Cons.IH top_def [symmetric] by (auto simp: reach_def max_def min_def)
qed simp

lemma picked_indices:
  assumes "sorted picked" "distinct picked" "set picked = {i. i < n \<and> P i}"
  shows "picked = filter P [0..<n]"
proof (rule sorted_distinct_set_unique [OF assms(1,2)])
  show "set picked = set (filter P [0..<n])" by (auto simp: assms(3))
qed (simp_all add: sorted_wrt_filter)

section \<open>Property\<close>

text \<open>
  C38. \<open>BYSETPOS\<close> keeps exactly the candidates some position names, from the front or from the
  back, each once and in the order of the period, however the rule lists its positions; without
  the part the whole set passes.  The number reported as forced is the whole period as soon as one
  position counts from the end, and otherwise the furthest position named.
\<close>

theorem setpos_keeps_named_positions:
  "chosen (select_within candidates positions)
     = (if positions = [] then candidates
        else map ((!) candidates) (filter (named_at positions (length candidates)) [0..<length candidates]))
   \<and> forced (select_within candidates positions)
     = (if positions = [] \<or> (\<exists>p \<in> set positions. p < 0) then length candidates
        else min (length candidates) (nat (Max (insert 0 (set positions)))))"
proof (cases "positions = []")
  case False
  let ?n = "length candidates"
  obtain picked f where p: "pick_positions positions ?n ([], 0) = (picked, f)" by fastforce
  from pick_positions_result [OF p]
  have picked: "picked = filter (named_at positions ?n) [0..<?n]" by (intro picked_indices) auto
  then have "filter (\<lambda>i. (if i < ?n then Some (candidates ! i) else None) \<noteq> None) picked = picked"
    by (intro filter_True) auto
  then have "List.map_filter (\<lambda>i. if i < ?n then Some (candidates ! i) else None) picked
      = map ((!) candidates) picked"
    unfolding map_filter_def using picked by (intro map_cong) auto
  moreover note picked
  moreover have "f = (if \<exists>p \<in> set positions. p < 0 then ?n
      else min ?n (nat (Max (insert 0 (set positions)))))"
    using pick_positions_forced [of positions ?n "[]" 0] by (simp add: p)
  ultimately show ?thesis using False by (simp add: select_within_def p Let_def)
qed (simp add: select_within_def)

end
