(* ===== verification/Property_Ident.thy ===== *)
theory Property_Ident
  imports Component_Tree
begin

text \<open>
  Property identities of \<open>core/ident.rs\<close>: a normalised name, compared by its octets, and the
  well-known names.
\<close>

record property_id =
  pid_name :: octets

definition ascii_upper :: "octet \<Rightarrow> octet" where
  "ascii_upper b = (if 0x61 \<le> b \<and> b \<le> 0x7A then b - 0x20 else b)"

definition pid_from_static :: "octets \<Rightarrow> property_id" where
  "pid_from_static name = \<lparr>pid_name = name\<rparr>"

definition pid_from_name :: "octets \<Rightarrow> property_id" where
  "pid_from_name name = \<lparr>pid_name = map ascii_upper name\<rparr>"

definition pid_matches :: "property_id \<Rightarrow> octets \<Rightarrow> bool" where
  "pid_matches i name \<longleftrightarrow> eq_ignore_ascii_case (pid_name i) name"

definition property_has_id :: "property \<Rightarrow> property_id \<Rightarrow> bool" where
  "property_has_id p i \<longleftrightarrow> pid_matches i (pr_name p)"

section \<open>Well-known names\<close>

definition ID_PRODID :: property_id where "ID_PRODID = pid_from_static (ascii ''PRODID'')"
definition ID_VERSION :: property_id where "ID_VERSION = pid_from_static (ascii ''VERSION'')"
definition ID_CALSCALE :: property_id where "ID_CALSCALE = pid_from_static (ascii ''CALSCALE'')"
definition ID_METHOD :: property_id where "ID_METHOD = pid_from_static (ascii ''METHOD'')"
definition ID_UID :: property_id where "ID_UID = pid_from_static (ascii ''UID'')"
definition ID_DTSTAMP :: property_id where "ID_DTSTAMP = pid_from_static (ascii ''DTSTAMP'')"
definition ID_DTSTART :: property_id where "ID_DTSTART = pid_from_static (ascii ''DTSTART'')"
definition ID_DTEND :: property_id where "ID_DTEND = pid_from_static (ascii ''DTEND'')"
definition ID_DURATION :: property_id where "ID_DURATION = pid_from_static (ascii ''DURATION'')"
definition ID_SUMMARY :: property_id where "ID_SUMMARY = pid_from_static (ascii ''SUMMARY'')"
definition ID_DESCRIPTION :: property_id where "ID_DESCRIPTION = pid_from_static (ascii ''DESCRIPTION'')"
definition ID_LOCATION :: property_id where "ID_LOCATION = pid_from_static (ascii ''LOCATION'')"
definition ID_GEO :: property_id where "ID_GEO = pid_from_static (ascii ''GEO'')"
definition ID_SEQUENCE :: property_id where "ID_SEQUENCE = pid_from_static (ascii ''SEQUENCE'')"
definition ID_STATUS :: property_id where "ID_STATUS = pid_from_static (ascii ''STATUS'')"
definition ID_TRANSP :: property_id where "ID_TRANSP = pid_from_static (ascii ''TRANSP'')"
definition ID_CLASS :: property_id where "ID_CLASS = pid_from_static (ascii ''CLASS'')"
definition ID_CATEGORIES :: property_id where "ID_CATEGORIES = pid_from_static (ascii ''CATEGORIES'')"
definition ID_PRIORITY :: property_id where "ID_PRIORITY = pid_from_static (ascii ''PRIORITY'')"
definition ID_ORGANIZER :: property_id where "ID_ORGANIZER = pid_from_static (ascii ''ORGANIZER'')"
definition ID_ATTENDEE :: property_id where "ID_ATTENDEE = pid_from_static (ascii ''ATTENDEE'')"
definition ID_ATTACH :: property_id where "ID_ATTACH = pid_from_static (ascii ''ATTACH'')"
definition ID_RRULE :: property_id where "ID_RRULE = pid_from_static (ascii ''RRULE'')"
definition ID_RDATE :: property_id where "ID_RDATE = pid_from_static (ascii ''RDATE'')"
definition ID_EXDATE :: property_id where "ID_EXDATE = pid_from_static (ascii ''EXDATE'')"
definition ID_RECURRENCE_ID :: property_id where "ID_RECURRENCE_ID = pid_from_static (ascii ''RECURRENCE-ID'')"
definition ID_RELATED_TO :: property_id where "ID_RELATED_TO = pid_from_static (ascii ''RELATED-TO'')"
definition ID_CREATED :: property_id where "ID_CREATED = pid_from_static (ascii ''CREATED'')"
definition ID_LAST_MODIFIED :: property_id where "ID_LAST_MODIFIED = pid_from_static (ascii ''LAST-MODIFIED'')"
definition ID_URL :: property_id where "ID_URL = pid_from_static (ascii ''URL'')"
definition ID_COMMENT :: property_id where "ID_COMMENT = pid_from_static (ascii ''COMMENT'')"
definition ID_CONTACT :: property_id where "ID_CONTACT = pid_from_static (ascii ''CONTACT'')"
definition ID_REQUEST_STATUS :: property_id where "ID_REQUEST_STATUS = pid_from_static (ascii ''REQUEST-STATUS'')"
definition ID_FREEBUSY :: property_id where "ID_FREEBUSY = pid_from_static (ascii ''FREEBUSY'')"
definition ID_TZID :: property_id where "ID_TZID = pid_from_static (ascii ''TZID'')"
definition ID_TZOFFSETFROM :: property_id where "ID_TZOFFSETFROM = pid_from_static (ascii ''TZOFFSETFROM'')"
definition ID_TZOFFSETTO :: property_id where "ID_TZOFFSETTO = pid_from_static (ascii ''TZOFFSETTO'')"

section \<open>Identity\<close>

lemma ascii_lower_upper [simp]: "ascii_lower (ascii_upper b) = ascii_lower b"
  unfolding ascii_lower_def ascii_upper_def by (auto simp: word_le_nat_alt unat_sub word_unat_eq_iff unat_word_ariths)

lemma pid_from_name_matches [simp]: "pid_matches (pid_from_name name) name"
  by (simp add: pid_matches_def pid_from_name_def eq_ignore_ascii_case_def)

lemma eq_ignore_ascii_case_refl [simp]: "eq_ignore_ascii_case a a"
  by (simp add: eq_ignore_ascii_case_def)

lemma eq_ignore_ascii_case_sym: "eq_ignore_ascii_case a b = eq_ignore_ascii_case b a"
  by (auto simp: eq_ignore_ascii_case_def)

lemma eq_ignore_ascii_case_trans:
  "eq_ignore_ascii_case a b \<Longrightarrow> eq_ignore_ascii_case b c \<Longrightarrow> eq_ignore_ascii_case a c"
  by (simp add: eq_ignore_ascii_case_def)

end
