(* ===== verification/Recur_Input.thy ===== *)
theory Recur_Input
  imports Property_Ident Recur_Rule Civil_Order Diagnostics
begin

text \<open>
  What a caller offers a search (\<open>recur/input.rs\<close>): the overrides of a series with what each changed
  and how far it moved, the checked and charged lists of added and removed instants, and the input
  that holds them together with the rule and the caller's own gate.
\<close>

section \<open>Overrides\<close>

datatype property_change = ChangeSet property | ChangeRemoved octets

fun change_name :: "property_change \<Rightarrow> octets" where
  "change_name (ChangeSet p) = pr_name p"
| "change_name (ChangeRemoved name) = name"

definition change_has_id :: "property_change \<Rightarrow> property_id \<Rightarrow> bool" where
  "change_has_id c i \<longleftrightarrow> pid_matches i (change_name c)"

type_synonym property_diff = "property_change list"

definition diff_get :: "property_diff \<Rightarrow> property_id \<Rightarrow> property_change option" where
  "diff_get d i = find (\<lambda>c. change_has_id c i) (rev d)"

datatype override_range = ThisOnly | ThisAndFuture

record override =
  ov_recurrence_id :: instant
  ov_range :: override_range
  ov_moved_to :: "instant option"
  ov_diff :: property_diff

definition ov_is_anchor :: "override \<Rightarrow> bool" where
  "ov_is_anchor o' \<longleftrightarrow> ov_range o' = ThisAndFuture"

definition ov_shift_seconds :: "override \<Rightarrow> int option" where
  "ov_shift_seconds o' = do {
     moved \<leftarrow> ov_moved_to o';
     shift \<leftarrow> instant_checked_seconds_until (ov_recurrence_id o') moved;
     if shift \<noteq> 0 then Some shift else None
   }"

datatype input_list = RdateList | ExdateList | OverrideList

datatype input_error =
  NotAscending input_list
| Duplicated input_list
| TooMany input_list limit_exceeded

fun input_error_list :: "input_error \<Rightarrow> input_list" where
  "input_error_list (NotAscending l) = l"
| "input_error_list (Duplicated l) = l"
| "input_error_list (TooMany l _) = l"

fun check_ascending_from :: "instant option \<Rightarrow> instant list \<Rightarrow> input_list \<Rightarrow> input_error + unit" where
  "check_ascending_from previous [] l = Inr ()"
| "check_ascending_from previous (key # keys) l =
     (case previous of
        Some earlier \<Rightarrow>
          (if key < earlier then Inl (NotAscending l) else check_ascending_from (Some key) keys l)
      | None \<Rightarrow> check_ascending_from (Some key) keys l)"

definition check_ascending :: "instant list \<Rightarrow> input_list \<Rightarrow> input_error + unit" where
  "check_ascending keys l = check_ascending_from None keys l"

fun check_strictly_from :: "instant option \<Rightarrow> instant list \<Rightarrow> input_list \<Rightarrow> input_error + unit" where
  "check_strictly_from previous [] l = Inr ()"
| "check_strictly_from previous (key # keys) l =
     (case previous of
        Some earlier \<Rightarrow>
          (if key = earlier then Inl (Duplicated l)
           else if key < earlier then Inl (NotAscending l)
           else check_strictly_from (Some key) keys l)
      | None \<Rightarrow> check_strictly_from (Some key) keys l)"

definition check_strictly_ascending :: "instant list \<Rightarrow> input_list \<Rightarrow> input_error + unit" where
  "check_strictly_ascending keys l = check_strictly_from None keys l"

record override_set =
  os_entries :: "override list"

definition os_empty :: override_set where
  "os_empty = \<lparr>os_entries = []\<rparr>"

definition too_many :: "input_list \<Rightarrow> limit_exceeded charged \<Rightarrow> input_error charged" where
  "too_many l r = (case r of (Inl e, m) \<Rightarrow> (Inl (TooMany l e), m) | (Inr u, m) \<Rightarrow> (Inr u, m))"

definition os_new :: "override list \<Rightarrow> meter \<Rightarrow> (input_error + override_set) \<times> meter" where
  "os_new entries m =
     and_then (too_many OverrideList (try_charge_override_entries m (min (length entries) u32_max)))
       (\<lambda>_ m. case check_ascending (map ov_recurrence_id entries) OverrideList of
                Inl e \<Rightarrow> (Inl e, m)
              | Inr _ \<Rightarrow> (Inr \<lparr>os_entries = entries\<rparr>, m))"

fun adjacent_collisions :: "override list \<Rightarrow> nat" where
  "adjacent_collisions (a # b # rest) =
     (if ov_recurrence_id a = ov_recurrence_id b then 1 else 0) + adjacent_collisions (b # rest)"
| "adjacent_collisions _ = 0"

definition os_collisions :: "override_set \<Rightarrow> nat" where
  "os_collisions s = adjacent_collisions (os_entries s)"

text \<open>
  \<open>binary_search_by\<close> of the standard library, which may answer with any of several equal entries:
  one bisection between two bounds.
\<close>

function bisect :: "override list \<Rightarrow> instant \<Rightarrow> nat \<Rightarrow> nat \<Rightarrow> nat option" where
  "bisect entries key lo hi =
     (if hi \<le> lo then None
      else let mid = (lo + hi) div 2; at = ov_recurrence_id (entries ! mid) in
        if at = key then Some mid
        else if at < key then bisect entries key (mid + 1) hi
        else bisect entries key lo mid)"
  by pat_completeness auto
termination by (relation "measure (\<lambda>(entries, key, lo, hi). hi - lo)") auto

declare bisect.simps [simp del]

text \<open>The index after the last entry before \<open>found\<close> that names another key.\<close>

fun first_of_equal :: "override list \<Rightarrow> instant \<Rightarrow> nat \<Rightarrow> nat" where
  "first_of_equal entries key 0 = 0"
| "first_of_equal entries key (Suc i) =
     (if ov_recurrence_id (entries ! i) \<noteq> key then Suc i else first_of_equal entries key i)"

definition exact_match :: "override_set \<Rightarrow> instant \<Rightarrow> override option" where
  "exact_match s key =
     (let entries = os_entries s in
      case bisect entries key 0 (length entries) of
        None \<Rightarrow> None
      | Some found \<Rightarrow>
          (let earlier = first_of_equal entries key found in
           if earlier < length entries then Some (entries ! earlier) else None))"

text \<open>The anchors in force at a key, as the iterator \<open>AppliedDiffs\<close> yields them.\<close>

record applied_diffs =
  ad_entries :: "override list"
  ad_position :: nat
  ad_key :: instant

definition anchors_before :: "override_set \<Rightarrow> instant \<Rightarrow> applied_diffs" where
  "anchors_before s key = \<lparr>ad_entries = os_entries s, ad_position = 0, ad_key = key\<rparr>"

function applied_next :: "applied_diffs \<Rightarrow> override option \<times> applied_diffs" where
  "applied_next a =
     (if ad_position a < length (ad_entries a) then
        (let entry = ad_entries a ! ad_position a;
             a' = a\<lparr>ad_position := ad_position a + 1\<rparr> in
         if ad_key a < ov_recurrence_id entry then (None, a')
         else if ov_is_anchor entry then (Some entry, a')
         else applied_next a')
      else (None, a))"
  by pat_completeness auto
termination by (relation "measure (\<lambda>a. length (ad_entries a) - ad_position a)") auto

declare applied_next.simps [simp del]

section \<open>The input\<close>

record recurrence_input =
  in_dtstart :: instant
  in_dtstart_kind :: value_kind
  in_rule :: "recurrence_rule option"
  in_additions :: "instant list"
  in_exclusions :: "instant list"
  in_overrides :: override_set
  in_admission :: "(instant \<Rightarrow> bool) option"

definition charge_instants :: "instant list \<Rightarrow> input_list \<Rightarrow> meter \<Rightarrow> input_error charged" where
  "charge_instants instants l m =
     (let count = min (length instants) u32_max in
      too_many l
        (case l of
           RdateList \<Rightarrow> try_charge_rdate_entries m count
         | ExdateList \<Rightarrow> try_charge_exdate_entries m count
         | OverrideList \<Rightarrow> try_charge_override_entries m count))"

definition input_new ::
  "instant \<Rightarrow> value_kind \<Rightarrow> recurrence_rule option \<Rightarrow> instant list \<Rightarrow> instant list \<Rightarrow> override_set
    \<Rightarrow> meter \<Rightarrow> (input_error + recurrence_input) \<times> meter" where
  "input_new dtstart kind rule additions exclusions overrides m =
     and_then (charge_instants additions RdateList m) (\<lambda>_ m.
     and_then (charge_instants exclusions ExdateList m) (\<lambda>_ m.
     and_then (check_strictly_ascending additions RdateList, m) (\<lambda>_ m.
     and_then (check_strictly_ascending exclusions ExdateList, m) (\<lambda>_ m.
       (Inr \<lparr>in_dtstart = dtstart, in_dtstart_kind = kind, in_rule = rule,
             in_additions = additions, in_exclusions = exclusions, in_overrides = overrides,
             in_admission = None\<rparr>, m)))))"

definition admitting :: "recurrence_input \<Rightarrow> (instant \<Rightarrow> bool) \<Rightarrow> recurrence_input" where
  "admitting i gate = i\<lparr>in_admission := Some gate\<rparr>"

definition in_admits :: "recurrence_input \<Rightarrow> instant \<Rightarrow> bool" where
  "in_admits i key \<longleftrightarrow> (case in_admission i of None \<Rightarrow> True | Some gate \<Rightarrow> gate key)"

definition until_value_type_agrees :: "recurrence_input \<Rightarrow> bool" where
  "until_value_type_agrees i \<longleftrightarrow>
     (case map_option rule_limited (in_rule i) of
        Some (UntilLimit at kind _) \<Rightarrow> kind = in_dtstart_kind i
      | _ \<Rightarrow> True)"

section \<open>Lemmas\<close>

lemma check_from_iff:
  "check_ascending_from (Some k) keys l = Inr () \<longleftrightarrow> sorted (k # keys)"
  "check_strictly_from (Some k) keys l = Inr () \<longleftrightarrow> sorted_wrt (<) (k # keys)"
  by (induction keys arbitrary: k) (auto dest: order_trans less_trans leD)

lemma check_ascending_iff:
  "check_ascending keys l = Inr () \<longleftrightarrow> sorted keys"
  "check_strictly_ascending keys l = Inr () \<longleftrightarrow> sorted_wrt (<) keys"
  by (cases keys; simp add: check_ascending_def check_strictly_ascending_def check_from_iff)+

lemma input_new_sorted:
  assumes "input_new dtstart kind rule additions exclusions overrides m = (Inr i, m')"
  shows "sorted_wrt (<) (in_additions i)" "sorted_wrt (<) (in_exclusions i)"
  using assms check_ascending_iff(2)
  by (auto simp: input_new_def elim!: and_then_InrE)

lemma os_new_sorted:
  "os_new entries m = (Inr s, m') \<Longrightarrow> sorted (map ov_recurrence_id (os_entries s)) \<and> os_entries s = entries"
  by (auto simp: os_new_def check_ascending_iff elim!: and_then_InrE split: sum.splits)

lemma bisect_found:
  assumes "sorted (map ov_recurrence_id es)" "hi \<le> length es"
    and "\<forall>i < length es. ov_recurrence_id (es ! i) = key \<longrightarrow> lo \<le> i \<and> i < hi"
  shows "case bisect es key lo hi of
      Some i \<Rightarrow> i < length es \<and> ov_recurrence_id (es ! i) = key
    | None \<Rightarrow> key \<notin> ov_recurrence_id ` set es"
  using assms
proof (induction es key lo hi rule: bisect.induct)
  case (1 es key lo hi)
  show ?case
  proof (cases "hi \<le> lo")
    case True
    then have "bisect es key lo hi = None" by (subst bisect.simps) simp
    moreover have "\<not> (i < length es \<and> ov_recurrence_id (es ! i) = key)" for i
      using 1(5) True by fastforce
    then have "key \<notin> ov_recurrence_id ` set es" by (metis imageE in_set_conv_nth)
    ultimately show ?thesis by simp
  next
    case False
    define mid where "mid = (lo + hi) div 2"
    have mid: "mid < hi" "mid < length es" using False 1(4) by (auto simp: mid_def)
    have mono: "ov_recurrence_id (es ! i) \<le> ov_recurrence_id (es ! j)" if "i \<le> j" "j < length es" for i j
      using that sorted_nth_mono [OF 1(3), of i j] by simp
    have unfold: "bisect es key lo hi =
        (if ov_recurrence_id (es ! mid) = key then Some mid
         else if ov_recurrence_id (es ! mid) < key then bisect es key (mid + 1) hi
         else bisect es key lo mid)"
      using False by (subst bisect.simps) (simp add: mid_def Let_def)
    consider "ov_recurrence_id (es ! mid) = key" | "ov_recurrence_id (es ! mid) < key"
      | "key < ov_recurrence_id (es ! mid)" by (rule linorder_cases [of "ov_recurrence_id (es ! mid)" key]) auto
    then show ?thesis
    proof cases
      case 1
      then show ?thesis using mid unfold by simp
    next
      case 2
      then have "mid + 1 \<le> i" if "i < length es" "ov_recurrence_id (es ! i) = key" for i
        using that mono [of i mid] mid by (metis leD not_less_eq_eq Suc_eq_plus1)
      then show ?thesis
        using "1.IH"(1) [OF False mid_def refl] 2 1(3-5) unfold by auto
    next
      case 3
      then have "i < mid" if "i < length es" "ov_recurrence_id (es ! i) = key" for i
        using that mono [of mid i] by (metis leD not_le)
      then show ?thesis
        using "1.IH"(2) [OF False mid_def refl] 3 1(3-5) mid unfold by auto
    qed
  qed
qed

lemma first_of_equal_parts:
  assumes "i < length es"
  shows "first_of_equal es key i \<le> i"
    "\<forall>j. first_of_equal es key i \<le> j \<and> j < i \<longrightarrow> ov_recurrence_id (es ! j) = key"
    "first_of_equal es key i = 0 \<or> ov_recurrence_id (es ! (first_of_equal es key i - 1)) \<noteq> key"
  using assms by (induction i) (auto simp: less_Suc_eq)

text \<open>The override for a key is the first entry that names it, whichever one the bisection met.\<close>

lemma exact_match_first:
  assumes "sorted (map ov_recurrence_id (os_entries s))"
  shows "exact_match s key = find (\<lambda>e. ov_recurrence_id e = key) (os_entries s)"
proof -
  let ?es = "os_entries s"
  note b = bisect_found [OF assms order_refl, of key 0]
  show ?thesis
  proof (cases "bisect ?es key 0 (length ?es)")
    case None
    then have "find (\<lambda>e. ov_recurrence_id e = key) ?es = None"
      using b by (auto simp: find_None_iff)
    with None show ?thesis by (simp add: exact_match_def)
  next
    case (Some i)
    then have i: "i < length ?es" "ov_recurrence_id (?es ! i) = key" using b by auto
    define f where "f = first_of_equal ?es key i"
    note f = first_of_equal_parts [OF i(1), of key, folded f_def]
    have key: "ov_recurrence_id (?es ! f) = key" using f(1,2) i(2) by (cases "f = i") auto
    have "ov_recurrence_id (?es ! j) \<noteq> key" if "j < f" for j
    proof
      assume "ov_recurrence_id (?es ! j) = key"
      moreover have "ov_recurrence_id (?es ! j) \<le> ov_recurrence_id (?es ! (f - 1))"
        "ov_recurrence_id (?es ! (f - 1)) \<le> ov_recurrence_id (?es ! f)"
        using that f(1) i(1) sorted_nth_mono [OF assms, of j "f - 1"] sorted_nth_mono [OF assms, of "f - 1" f]
        by simp_all
      ultimately show False using f(3) that key by auto
    qed
    then have "find (\<lambda>e. ov_recurrence_id e = key) ?es = Some (?es ! f)"
      using key f(1) i(1) by (auto simp: find_Some_iff intro!: exI [of _ f])
    with Some f(1) i(1) show ?thesis by (simp add: exact_match_def f_def Let_def)
  qed
qed

text \<open>What the anchor iterator yields, all at once.\<close>

fun applied_all :: "nat \<Rightarrow> applied_diffs \<Rightarrow> override list" where
  "applied_all 0 a = []"
| "applied_all (Suc n) a =
     (case applied_next a of (Some o', a') \<Rightarrow> o' # applied_all n a' | (None, a') \<Rightarrow> [])"

lemma applied_next_result:
  assumes "sorted (map ov_recurrence_id (ad_entries a))"
  shows "case applied_next a of
      (Some o', a') \<Rightarrow> ad_entries a' = ad_entries a \<and> ad_key a' = ad_key a
        \<and> filter (\<lambda>e. ov_is_anchor e \<and> ov_recurrence_id e \<le> ad_key a)
            (drop (ad_position a) (ad_entries a))
          = o' # filter (\<lambda>e. ov_is_anchor e \<and> ov_recurrence_id e \<le> ad_key a)
            (drop (ad_position a') (ad_entries a))
    | (None, a') \<Rightarrow> filter (\<lambda>e. ov_is_anchor e \<and> ov_recurrence_id e \<le> ad_key a)
            (drop (ad_position a) (ad_entries a)) = []"
  using assms
proof (induction a rule: applied_next.induct)
  case (1 a)
  note prems = "1.prems" and IH = "1.IH"
  let ?es = "ad_entries a" and ?i = "ad_position a"
  show ?case
  proof (cases "?i < length ?es")
    case True
    then have drop: "drop ?i ?es = ?es ! ?i # drop (?i + 1) ?es" by (simp add: Cons_nth_drop_Suc)
    let ?a' = "a\<lparr>ad_position := ?i + 1\<rparr>"
    consider "ad_key a < ov_recurrence_id (?es ! ?i)"
      | "\<not> ad_key a < ov_recurrence_id (?es ! ?i)" "ov_is_anchor (?es ! ?i)"
      | "\<not> ad_key a < ov_recurrence_id (?es ! ?i)" "\<not> ov_is_anchor (?es ! ?i)" by blast
    then show ?thesis
    proof cases
      case 1
      have "sorted (map ov_recurrence_id (?es ! ?i # drop (?i + 1) ?es))"
        using sorted_wrt_drop [OF prems, of ?i] unfolding drop_map drop .
      then have "ad_key a < ov_recurrence_id e" if "e \<in> set (drop ?i ?es)" for e
        using that 1 unfolding drop by auto
      then have "filter (\<lambda>e. ov_is_anchor e \<and> ov_recurrence_id e \<le> ad_key a) (drop ?i ?es) = []"
        by (fastforce simp: filter_empty_conv)
      then show ?thesis
        using True 1 by (subst applied_next.simps) (simp add: Let_def)
    next
      case 2
      then show ?thesis
        using True 2 by (subst applied_next.simps) (simp add: Let_def drop not_less)
    next
      case 3
      have next': "applied_next a = applied_next ?a'"
        using True 3 by (subst applied_next.simps) (simp add: Let_def)
      have rest: "filter (\<lambda>e. ov_is_anchor e \<and> ov_recurrence_id e \<le> ad_key a) (drop ?i ?es)
          = filter (\<lambda>e. ov_is_anchor e \<and> ov_recurrence_id e \<le> ad_key a) (drop (?i + 1) ?es)"
        unfolding drop using 3 by simp
      show ?thesis
        unfolding next' rest using IH [OF True refl refl] 3 prems
        by (cases "applied_next ?a'"; cases "fst (applied_next ?a')") auto
    qed
  next
    case False
    then show ?thesis by (subst applied_next.simps) simp
  qed
qed

lemma applied_all_anchors:
  assumes "sorted (map ov_recurrence_id (os_entries s))" "length (os_entries s) \<le> n"
  shows "applied_all n (anchors_before s key)
    = filter (\<lambda>e. ov_is_anchor e \<and> ov_recurrence_id e \<le> key) (os_entries s)"
proof -
  have "applied_all n a = filter (\<lambda>e. ov_is_anchor e \<and> ov_recurrence_id e \<le> ad_key a)
      (drop (ad_position a) (ad_entries a))"
    if "sorted (map ov_recurrence_id (ad_entries a))"
      "length (filter (\<lambda>e. ov_is_anchor e \<and> ov_recurrence_id e \<le> ad_key a)
        (drop (ad_position a) (ad_entries a))) \<le> n" for a n
    using that
  proof (induction n arbitrary: a)
    case (Suc n)
    obtain r a' where r: "applied_next a = (r, a')" by fastforce
    show ?case
    proof (cases r)
      case None
      then show ?thesis using applied_next_result [OF Suc.prems(1)] r by simp
    next
      case (Some e)
      then show ?thesis
        using applied_next_result [OF Suc.prems(1)] Suc.IH [of a'] Suc.prems r by simp
    qed
  qed simp
  moreover have "length (filter (\<lambda>e. ov_is_anchor e \<and> ov_recurrence_id e \<le> key) (os_entries s)) \<le> n"
    using assms(2) length_filter_le le_trans by blast
  ultimately show ?thesis using assms(1) by (simp add: anchors_before_def)
qed

end
