(* ===== verification/Recur_Merge.thy ===== *)
theory Recur_Merge
  imports Recur_Input
begin

text \<open>
  The values a search answers with (\<open>recur/search.rs\<close>) and the merge of a rule's cadence keys with
  the added instants, the excluded ones and the overrides (\<open>recur/merge.rs\<close>): three cursors that
  only move forward, and one candidate per step.
\<close>

section \<open>Windows, occurrences and outcomes\<close>

record window =
  w_start :: instant
  w_end :: instant

definition window_new :: "instant \<Rightarrow> instant \<Rightarrow> window option" where
  "window_new s e = (if s < e then Some \<lparr>w_start = s, w_end = e\<rparr> else None)"

definition window_contains :: "window \<Rightarrow> instant \<Rightarrow> bool" where
  "window_contains w at \<longleftrightarrow> w_start w \<le> at \<and> at < w_end w"

definition window_widened :: "window \<Rightarrow> int \<Rightarrow> int \<Rightarrow> window option" where
  "window_widened w before after = do {
     back \<leftarrow> sub64 0 before;
     s \<leftarrow> instant_checked_add_seconds (w_start w) back;
     e \<leftarrow> instant_checked_add_seconds (w_end w) after;
     window_new s e
   }"

datatype override_provenance = ExactMatch | InForce instant | AddedByRdate

record occurrence =
  occ_key :: instant
  occ_start :: instant
  occ_provenance :: "override_provenance option"
  occ_exact :: "override option"
  occ_overrides :: override_set

definition occ_is_moved :: "occurrence \<Rightarrow> bool" where
  "occ_is_moved o' \<longleftrightarrow> occ_start o' \<noteq> occ_key o'"

definition occ_shift_seconds :: "occurrence \<Rightarrow> int option" where
  "occ_shift_seconds o' = do {
     shift \<leftarrow> instant_checked_seconds_until (occ_key o') (occ_start o');
     if shift \<noteq> 0 then Some shift else None
   }"

definition occ_starts_within :: "occurrence \<Rightarrow> window \<Rightarrow> bool" where
  "occ_starts_within o' w \<longleftrightarrow> window_contains w (occ_start o')"

definition occ_applied_anchors :: "occurrence \<Rightarrow> applied_diffs" where
  "occ_applied_anchors o' = anchors_before (occ_overrides o') (occ_key o')"

lemma applied_next_advances:
  "applied_next a = (Some o', a') \<Longrightarrow>
    ad_position a < ad_position a' \<and> ad_entries a' = ad_entries a \<and> ad_position a < length (ad_entries a)"
proof (induction a rule: applied_next.induct)
  case (1 a)
  show ?case
  proof (cases "ad_position a < length (ad_entries a)")
    case True
    then show ?thesis
      using "1.prems" "1.IH" [OF True refl refl] unfolding applied_next.simps [of a]
      by (auto simp: Let_def split: if_splits)
  next
    case False
    then show ?thesis using "1.prems" unfolding applied_next.simps [of a] by simp
  qed
qed

function last_anchor_change ::
  "applied_diffs \<Rightarrow> property_id \<Rightarrow> property_change option \<Rightarrow> property_change option" where
  "last_anchor_change a i winner =
     (case applied_next a of
        (None, a') \<Rightarrow> winner
      | (Some anchor, a') \<Rightarrow>
          last_anchor_change a' i
            (case diff_get (ov_diff anchor) i of Some c \<Rightarrow> Some c | None \<Rightarrow> winner))"
  by pat_completeness auto
termination
  by (relation "measure (\<lambda>(a, i, w). length (ad_entries a) - ad_position a)")
     (auto dest!: applied_next_advances [OF sym])

declare last_anchor_change.simps [simp del]

definition effective_change :: "occurrence \<Rightarrow> property_id \<Rightarrow> property_change option" where
  "effective_change o' i =
     (let winner = last_anchor_change (occ_applied_anchors o') i None in
      case Option.bind (occ_exact o') (\<lambda>e. diff_get (ov_diff e) i) of
        Some c \<Rightarrow> Some c
      | None \<Rightarrow> winner)"

record budget_exhausted =
  be_reached :: instant
  be_candidates_spent :: nat

datatype search_step = StepOccurrence occurrence | StepExhausted budget_exhausted

datatype search_outcome =
  OutcomePending
| OutcomeRuleEnded
| OutcomeWindowEnded
| OutcomeCalendarEnded
| OutcomeExhausted budget_exhausted

fun step_occurrence :: "search_step \<Rightarrow> occurrence option" where
  "step_occurrence (StepOccurrence o') = Some o'"
| "step_occurrence (StepExhausted b) = None"

fun outcome_is_complete :: "search_outcome \<Rightarrow> bool" where
  "outcome_is_complete OutcomeRuleEnded = True"
| "outcome_is_complete OutcomeWindowEnded = True"
| "outcome_is_complete OutcomeCalendarEnded = True"
| "outcome_is_complete OutcomePending = False"
| "outcome_is_complete (OutcomeExhausted b) = False"

section \<open>The merge\<close>

record merge_candidate =
  cand_key :: instant
  cand_added_by_rdate :: bool

record merge_state =
  mg_input :: recurrence_input
  mg_rdates_merged :: nat
  mg_exdates_passed :: nat
  mg_overrides_passed :: nat
  mg_nearest_anchor :: "instant option"
  mg_stated_shift :: "int option"

definition merge_new :: "recurrence_input \<Rightarrow> merge_state" where
  "merge_new i =
     \<lparr>mg_input = i, mg_rdates_merged = 0, mg_exdates_passed = 0, mg_overrides_passed = 0,
      mg_nearest_anchor = None, mg_stated_shift = None\<rparr>"

definition nth_opt :: "'a list \<Rightarrow> nat \<Rightarrow> 'a option" where
  "nth_opt xs i = (if i < length xs then Some (xs ! i) else None)"

definition pending_addition :: "merge_state \<Rightarrow> instant option" where
  "pending_addition g = nth_opt (in_additions (mg_input g)) (mg_rdates_merged g)"

definition takes_rule_key :: "merge_state \<Rightarrow> instant option \<Rightarrow> bool" where
  "takes_rule_key g next_rule_key =
     (case (next_rule_key, pending_addition g) of
        (Some generated, Some offered) \<Rightarrow> generated \<le> offered
      | (Some _, None) \<Rightarrow> True
      | (None, _) \<Rightarrow> False)"

definition is_drained :: "merge_state \<Rightarrow> instant option \<Rightarrow> bool" where
  "is_drained g next_rule_key \<longleftrightarrow> next_rule_key = None \<and> pending_addition g = None"

definition merge_take :: "merge_state \<Rightarrow> instant option \<Rightarrow> merge_candidate option \<times> merge_state" where
  "merge_take g next_rule_key =
     (let added = pending_addition g in
      case (case (next_rule_key, added) of
              (Some generated, Some offered) \<Rightarrow> Some (min generated offered)
            | (Some generated, None) \<Rightarrow> Some generated
            | (None, Some offered) \<Rightarrow> Some offered
            | (None, None) \<Rightarrow> None) of
        None \<Rightarrow> (None, g)
      | Some key \<Rightarrow>
          (Some \<lparr>cand_key = key, cand_added_by_rdate = next_rule_key \<noteq> Some key\<rparr>,
           if added = Some key then g\<lparr>mg_rdates_merged := mg_rdates_merged g + 1\<rparr> else g))"

function pass_overrides :: "override list \<Rightarrow> instant \<Rightarrow> merge_state \<Rightarrow> merge_state" where
  "pass_overrides entries key g =
     (if mg_overrides_passed g < length entries then
        (let entry = entries ! mg_overrides_passed g in
         if key < ov_recurrence_id entry then g
         else
           let g1 = (if ov_is_anchor entry
                     then (let g0 = g\<lparr>mg_nearest_anchor := Some (ov_recurrence_id entry)\<rparr> in
                           case ov_shift_seconds entry of
                             Some shift \<Rightarrow> g0\<lparr>mg_stated_shift := Some shift\<rparr>
                           | None \<Rightarrow> g0)
                     else g)
           in pass_overrides entries key (g1\<lparr>mg_overrides_passed := mg_overrides_passed g + 1\<rparr>))
      else g)"
  by pat_completeness auto
termination
  by (relation "measure (\<lambda>(es, k, g). length es - mg_overrides_passed g)") auto

declare pass_overrides.simps [simp del]

function pass_exdates :: "instant list \<Rightarrow> instant \<Rightarrow> nat \<Rightarrow> nat" where
  "pass_exdates exclusions key passed =
     (if passed < length exclusions \<and> exclusions ! passed < key
      then pass_exdates exclusions key (passed + 1) else passed)"
  by pat_completeness auto
termination by (relation "measure (\<lambda>(xs, k, p). length xs - p)") auto

declare pass_exdates.simps [simp del]

definition is_excluded :: "merge_state \<Rightarrow> instant \<Rightarrow> bool \<times> merge_state" where
  "is_excluded g key =
     (let exclusions = in_exclusions (mg_input g);
          passed = pass_exdates exclusions key (mg_exdates_passed g)
      in (nth_opt exclusions passed = Some key, g\<lparr>mg_exdates_passed := passed\<rparr>))"

definition report_shadowed_override ::
  "'k sink_push \<Rightarrow> merge_state \<Rightarrow> instant \<Rightarrow> 'k env \<Rightarrow> 'k env" where
  "report_shadowed_override push' g key env =
     (if exact_match (in_overrides (mg_input g)) key = None then env
      else report push' (diagnostic_at_instant (Expansion ExdateShadowsOverride) Note key) env)"

definition effective_start :: "merge_state \<Rightarrow> merge_candidate \<Rightarrow> override option \<Rightarrow> instant option" where
  "effective_start g c exact =
     (case Option.bind exact ov_moved_to of
        Some moved \<Rightarrow> Some moved
      | None \<Rightarrow>
          if cand_added_by_rdate c then Some (cand_key c)
          else (case mg_stated_shift g of
                  Some shift \<Rightarrow> instant_checked_add_seconds (cand_key c) shift
                | None \<Rightarrow> Some (cand_key c)))"

definition provenance_of ::
  "merge_state \<Rightarrow> merge_candidate \<Rightarrow> override option \<Rightarrow> override_provenance option" where
  "provenance_of g c exact =
     (if exact \<noteq> None then Some ExactMatch
      else case mg_nearest_anchor g of
        Some anchor \<Rightarrow> Some (InForce anchor)
      | None \<Rightarrow> if cand_added_by_rdate c then Some AddedByRdate else None)"

definition merge_step ::
  "'k sink_push \<Rightarrow> merge_state \<Rightarrow> instant option \<Rightarrow> 'k env
    \<Rightarrow> occurrence option \<times> merge_state \<times> 'k env" where
  "merge_step push' g next_rule_key env =
     (case merge_take g next_rule_key of
        (None, g1) \<Rightarrow> (None, g1, env)
      | (Some c, g1) \<Rightarrow>
          (let overrides = in_overrides (mg_input g1);
               g2 = pass_overrides (os_entries overrides) (cand_key c) g1;
               (excluded, g3) = is_excluded g2 (cand_key c)
           in if excluded then (None, g3, report_shadowed_override push' g3 (cand_key c) env)
              else
                let exact = exact_match overrides (cand_key c) in
                case effective_start g3 c exact of
                  None \<Rightarrow>
                    (None, g3,
                     report push' (diagnostic_at_instant (Expansion OverrideShiftNotRepresentable)
                       Violation (cand_key c)) env)
                | Some start \<Rightarrow>
                    (Some \<lparr>occ_key = cand_key c, occ_start = start,
                           occ_provenance = provenance_of g3 c exact, occ_exact = exact,
                           occ_overrides = overrides\<rparr>, g3, env)))"

fun keep_first_rule ::
  "'k sink_push \<Rightarrow> recurrence_rule list \<Rightarrow> instant \<Rightarrow> 'k env \<Rightarrow> recurrence_rule option \<times> 'k env" where
  "keep_first_rule push' [] at env = (None, env)"
| "keep_first_rule push' (first # extras) at env =
     (Some first,
      fold (\<lambda>_ env. report push' (diagnostic_at_instant (Expansion ExtraRecurrenceRuleIgnored)
              Violation at) env) extras env)"

section \<open>The reference\<close>

text \<open>What is in force at a key: the anchors at or before it.\<close>

definition anchors_at :: "override_set \<Rightarrow> instant \<Rightarrow> override list" where
  "anchors_at s key = filter (\<lambda>e. ov_is_anchor e \<and> ov_recurrence_id e \<le> key) (os_entries s)"

definition last_opt :: "'a list \<Rightarrow> 'a option" where
  "last_opt xs = (if xs = [] then None else Some (last xs))"

definition shift_at :: "override_set \<Rightarrow> instant \<Rightarrow> int option" where
  "shift_at s key = last_opt (List.map_filter ov_shift_seconds (anchors_at s key))"

text \<open>
  The occurrence one key makes, given whether the rule generated it: nothing for an excluded key,
  and otherwise what the override naming it, the literal instant or the cadence moved by the anchors
  in force says.
\<close>

definition merged :: "recurrence_input \<Rightarrow> bool \<Rightarrow> instant \<Rightarrow> occurrence option" where
  "merged i from_rule key =
     (let s = in_overrides i;
          exact = find (\<lambda>e. ov_recurrence_id e = key) (os_entries s);
          start = (case Option.bind exact ov_moved_to of
              Some moved \<Rightarrow> Some moved
            | None \<Rightarrow> if \<not> from_rule then Some key
                else (case shift_at s key of
                        Some shift \<Rightarrow> instant_checked_add_seconds key shift
                      | None \<Rightarrow> Some key));
          provenance = (if exact \<noteq> None then Some ExactMatch
            else case last_opt (anchors_at s key) of
              Some anchor \<Rightarrow> Some (InForce (ov_recurrence_id anchor))
            | None \<Rightarrow> if \<not> from_rule then Some AddedByRdate else None)
      in if key \<in> set (in_exclusions i) then None
         else map_option (\<lambda>at. \<lparr>occ_key = key, occ_start = at, occ_provenance = provenance,
                occ_exact = exact, occ_overrides = s\<rparr>) start)"

text \<open>A client that owns the rule's keys and turns the merge until it is drained.\<close>

fun merge_run ::
  "'k sink_push \<Rightarrow> nat \<Rightarrow> merge_state \<Rightarrow> instant list \<Rightarrow> 'k env \<Rightarrow> occurrence list" where
  "merge_run push' 0 g keys env = []"
| "merge_run push' (Suc n) g keys env =
     (let offered = nth_opt keys 0 in
      if is_drained g offered then []
      else case merge_step push' g offered env of
        (produced, g', env') \<Rightarrow>
          (case produced of Some o' \<Rightarrow> [o'] | None \<Rightarrow> [])
          @ merge_run push' n g' (if takes_rule_key g offered then drop 1 keys else keys) env')"

section \<open>The cursors\<close>

definition caught_up :: "override list \<Rightarrow> nat \<Rightarrow> merge_state \<Rightarrow> bool" where
  "caught_up es q g \<longleftrightarrow> mg_overrides_passed g = q \<and> q \<le> length es
     \<and> mg_nearest_anchor g = map_option ov_recurrence_id (last_opt (filter ov_is_anchor (take q es)))
     \<and> mg_stated_shift g = last_opt (List.map_filter ov_shift_seconds (filter ov_is_anchor (take q es)))"

definition same_rest :: "merge_state \<Rightarrow> merge_state \<Rightarrow> bool" where
  "same_rest g g' \<longleftrightarrow> mg_input g' = mg_input g \<and> mg_rdates_merged g' = mg_rdates_merged g
     \<and> mg_exdates_passed g' = mg_exdates_passed g"

lemma last_opt_snoc [simp]: "last_opt (xs @ [x]) = Some x"
  by (simp add: last_opt_def)

lemma caught_up_step:
  assumes "caught_up es q g" "q < length es"
  defines "e \<equiv> es ! q"
  defines "g1 \<equiv> (if ov_is_anchor e
     then (let g0 = g\<lparr>mg_nearest_anchor := Some (ov_recurrence_id e)\<rparr> in
           case ov_shift_seconds e of Some shift \<Rightarrow> g0\<lparr>mg_stated_shift := Some shift\<rparr> | None \<Rightarrow> g0)
     else g)"
  shows "caught_up es (Suc q) (g1\<lparr>mg_overrides_passed := mg_overrides_passed g + 1\<rparr>)"
    and "same_rest g (g1\<lparr>mg_overrides_passed := mg_overrides_passed g + 1\<rparr>)"
proof -
  have "take (Suc q) es = take q es @ [e]" using assms(2) by (simp add: take_Suc_conv_app_nth e_def)
  then show "caught_up es (Suc q) (g1\<lparr>mg_overrides_passed := mg_overrides_passed g + 1\<rparr>)"
    using assms(1,2)
    by (auto simp: caught_up_def g1_def Let_def map_filter_def split: option.splits)
  show "same_rest g (g1\<lparr>mg_overrides_passed := mg_overrides_passed g + 1\<rparr>)"
    by (auto simp: same_rest_def g1_def Let_def split: option.splits)
qed

lemma pass_overrides_result:
  assumes "caught_up es q g" "\<forall>e \<in> set (take q es). ov_recurrence_id e \<le> key"
    and "sorted (map ov_recurrence_id es)"
  shows "\<exists>q'. caught_up es q' (pass_overrides es key g) \<and> same_rest g (pass_overrides es key g)
    \<and> take q' es = filter (\<lambda>e. ov_recurrence_id e \<le> key) es"
  using assms
proof (induction es key g arbitrary: q rule: pass_overrides.induct)
  case (1 es key g)
  note IH = "1.IH" and prems = "1.prems"
  have q: "mg_overrides_passed g = q" "q \<le> length es" using prems(1) by (auto simp: caught_up_def)
  show ?case
  proof (cases "q < length es \<and> ov_recurrence_id (es ! q) \<le> key")
    case True
    define e where "e = es ! q"
    define g1 where "g1 = (if ov_is_anchor e
       then (let g0 = g\<lparr>mg_nearest_anchor := Some (ov_recurrence_id e)\<rparr> in
             case ov_shift_seconds e of Some shift \<Rightarrow> g0\<lparr>mg_stated_shift := Some shift\<rparr> | None \<Rightarrow> g0)
       else g)"
    define g2 where "g2 = g1\<lparr>mg_overrides_passed := mg_overrides_passed g + 1\<rparr>"
    have pass: "pass_overrides es key g = pass_overrides es key g2"
      using True q(1) leD [of "ov_recurrence_id e" key] unfolding pass_overrides.simps [of es key g]
      by (simp add: Let_def e_def [symmetric] g1_def g2_def)
    note step = caught_up_step [OF prems(1), folded e_def, folded g1_def, folded g2_def]
    have "\<forall>x \<in> set (take (Suc q) es). ov_recurrence_id x \<le> key"
      using True prems(2) by (auto simp: take_Suc_conv_app_nth)
    then obtain q' where "caught_up es q' (pass_overrides es key g2)"
      "same_rest g2 (pass_overrides es key g2)" "take q' es = filter (\<lambda>e. ov_recurrence_id e \<le> key) es"
      using IH [of e g1 "Suc q"] True q(1) step(1) prems(3)
      by (auto simp: e_def g1_def g2_def Let_def not_less)
    then show ?thesis using step(2) True unfolding pass by (auto simp: same_rest_def)
  next
    case False
    then have "pass_overrides es key g = g"
      using q(1) unfolding pass_overrides.simps [of es key g] by (auto simp: Let_def)
    moreover have "\<not> ov_recurrence_id e \<le> key" if "e \<in> set (drop q es)" for e
    proof (cases "q < length es")
      case True
      have "sorted (map ov_recurrence_id (drop q es))"
        using sorted_wrt_drop [OF prems(3), of q] by (simp add: drop_map)
      moreover have "drop q es = es ! q # drop (Suc q) es" using True by (simp add: Cons_nth_drop_Suc)
      ultimately have "ov_recurrence_id (es ! q) \<le> ov_recurrence_id e" using that by auto
      then show ?thesis using False True by auto
    qed (use that in simp)
    then have "filter (\<lambda>e. ov_recurrence_id e \<le> key) (take q es @ drop q es) = take q es"
      unfolding filter_append using prems(2) by (simp add: filter_empty_conv filter_id_conv)
    ultimately show ?thesis using prems(1) by (intro exI [of _ q]) (simp add: same_rest_def)
  qed
qed

lemma pass_exdates_result:
  assumes "sorted_wrt (<) xs" "p \<le> length xs" "\<forall>x \<in> set (take p xs). x < key"
  shows "pass_exdates xs key p \<le> length xs" "\<forall>x \<in> set (take (pass_exdates xs key p) xs). x < key"
    "nth_opt xs (pass_exdates xs key p) = Some key \<longleftrightarrow> key \<in> set xs"
proof -
  have "pass_exdates xs key p \<le> length xs \<and> (\<forall>x \<in> set (take (pass_exdates xs key p) xs). x < key)
      \<and> (pass_exdates xs key p < length xs \<longrightarrow> key \<le> xs ! pass_exdates xs key p)"
    using assms(2,3)
  proof (induction xs key p rule: pass_exdates.induct)
    case (1 xs key p)
    show ?case
    proof (cases "p < length xs \<and> xs ! p < key")
      case True
      then have "pass_exdates xs key p = pass_exdates xs key (p + 1)"
        unfolding pass_exdates.simps [of xs key p] by simp
      moreover have "\<forall>x \<in> set (take (p + 1) xs). x < key"
        using True "1.prems"(2) by (auto simp: take_Suc_conv_app_nth)
      ultimately show ?thesis using "1.IH" [OF True] True by simp
    next
      case False
      then show ?thesis using "1.prems" unfolding pass_exdates.simps [of xs key p] by auto
    qed
  qed
  then show b: "pass_exdates xs key p \<le> length xs" "\<forall>x \<in> set (take (pass_exdates xs key p) xs). x < key"
    and "nth_opt xs (pass_exdates xs key p) = Some key \<longleftrightarrow> key \<in> set xs"
  proof -
    let ?p = "pass_exdates xs key p"
    assume a: "?p \<le> length xs \<and> (\<forall>x \<in> set (take ?p xs). x < key) \<and> (?p < length xs \<longrightarrow> key \<le> xs ! ?p)"
    then show "?p \<le> length xs" "\<forall>x \<in> set (take ?p xs). x < key" by auto
    show "nth_opt xs ?p = Some key \<longleftrightarrow> key \<in> set xs"
    proof
      assume "key \<in> set xs"
      then obtain j where j: "j < length xs" "xs ! j = key" by (auto simp: in_set_conv_nth)
      have "\<not> j < ?p" using a j by (force simp: in_set_conv_nth)
      moreover have "\<not> ?p < j" using a j sorted_wrt_nth_less [OF assms(1), of ?p j] by auto
      ultimately show "nth_opt xs ?p = Some key" using j by (simp add: nth_opt_def)
    qed (auto simp: nth_opt_def in_set_conv_nth split: if_splits)
  qed
qed

text \<open>The state of a merge whose remaining candidates are all in a set.\<close>

definition merge_inv :: "recurrence_input \<Rightarrow> instant set \<Rightarrow> merge_state \<Rightarrow> bool" where
  "merge_inv i ahead g \<longleftrightarrow> mg_input g = i
     \<and> (\<exists>q. caught_up (os_entries (in_overrides i)) q g
         \<and> (\<forall>e \<in> set (take q (os_entries (in_overrides i))). \<forall>k \<in> ahead. ov_recurrence_id e \<le> k))
     \<and> mg_exdates_passed g \<le> length (in_exclusions i)
     \<and> (\<forall>x \<in> set (take (mg_exdates_passed g) (in_exclusions i)). \<forall>k \<in> ahead. x < k)"

definition input_sorted :: "recurrence_input \<Rightarrow> bool" where
  "input_sorted i \<longleftrightarrow> sorted_wrt (<) (in_additions i) \<and> sorted_wrt (<) (in_exclusions i)
     \<and> sorted (map ov_recurrence_id (os_entries (in_overrides i)))"

lemma merge_inv_new: "merge_inv i ahead (merge_new i)"
  by (auto simp: merge_inv_def merge_new_def caught_up_def last_opt_def map_filter_def
      intro!: exI [of _ 0])

text \<open>One step, at the least of the remaining candidates.\<close>

lemma merge_step_result:
  assumes "input_sorted i" "merge_inv i (insert key ahead) g" "\<forall>k \<in> ahead. key \<le> k"
    and "merge_take g offered = (Some \<lparr>cand_key = key, cand_added_by_rdate = \<not> from_rule\<rparr>, g1)"
    and "merge_inv i (insert key ahead) g1"
  shows "\<exists>g' env'. merge_step push' g offered env = (merged i from_rule key, g', env')
    \<and> merge_inv i ahead g' \<and> mg_rdates_merged g' = mg_rdates_merged g1"
proof -
  let ?es = "os_entries (in_overrides i)"
  let ?c = "\<lparr>cand_key = key, cand_added_by_rdate = \<not> from_rule\<rparr>"
  have in1: "mg_input g1 = i" using assms(5) by (simp add: merge_inv_def)
  obtain q where q: "caught_up ?es q g1" "\<forall>e \<in> set (take q ?es). ov_recurrence_id e \<le> key"
    using assms(5) by (auto simp: merge_inv_def)
  define g2 where "g2 = pass_overrides ?es key g1"
  obtain q' where q': "caught_up ?es q' g2" "same_rest g1 g2"
    "take q' ?es = filter (\<lambda>e. ov_recurrence_id e \<le> key) ?es"
    using pass_overrides_result [OF q] assms(1) unfolding g2_def input_sorted_def by blast
  define p where "p = pass_exdates (in_exclusions i) key (mg_exdates_passed g2)"
  have "mg_exdates_passed g2 \<le> length (in_exclusions i)"
    "\<forall>x \<in> set (take (mg_exdates_passed g2) (in_exclusions i)). x < key"
    using q'(2) assms(5) by (auto simp: same_rest_def merge_inv_def)
  with assms(1) have p: "p \<le> length (in_exclusions i)" "\<forall>x \<in> set (take p (in_exclusions i)). x < key"
    "nth_opt (in_exclusions i) p = Some key \<longleftrightarrow> key \<in> set (in_exclusions i)"
    using pass_exdates_result [of "in_exclusions i" "mg_exdates_passed g2" key]
    by (auto simp: p_def input_sorted_def)
  define g3 where "g3 = g2\<lparr>mg_exdates_passed := p\<rparr>"
  have in2: "mg_input g2 = i" using q'(2) in1 by (simp add: same_rest_def)
  have excl: "is_excluded g2 key = (key \<in> set (in_exclusions i), g3)"
    using p(3) by (simp add: is_excluded_def in2 Let_def g3_def flip: p_def)
  have anchors: "filter ov_is_anchor (take q' ?es) = anchors_at (in_overrides i) key"
    by (simp add: q'(3) anchors_at_def conj_commute)
  have st: "mg_nearest_anchor g3 = map_option ov_recurrence_id (last_opt (anchors_at (in_overrides i) key))"
    "mg_stated_shift g3 = shift_at (in_overrides i) key"
    using q'(1) by (simp_all add: g3_def caught_up_def anchors shift_at_def)
  have exact: "exact_match (in_overrides i) key = find (\<lambda>e. ov_recurrence_id e = key) ?es"
    using assms(1) by (intro exact_match_first) (simp add: input_sorted_def)
  have "merge_inv i ahead g3"
    unfolding merge_inv_def
  proof (intro conjI exI [of _ q'])
    show "mg_input g3 = i" by (simp add: g3_def in2)
    show "caught_up ?es q' g3" using q'(1) by (simp add: caught_up_def g3_def)
    show "\<forall>e \<in> set (take q' ?es). \<forall>k \<in> ahead. ov_recurrence_id e \<le> k"
      using assms(3) by (auto simp: q'(3))
    show "mg_exdates_passed g3 \<le> length (in_exclusions i)" using p(1) by (simp add: g3_def)
    show "\<forall>x \<in> set (take (mg_exdates_passed g3) (in_exclusions i)). \<forall>k \<in> ahead. x < k"
      using p(2) assms(3) by (auto simp: g3_def intro: less_le_trans)
  qed
  moreover have "mg_rdates_merged g3 = mg_rdates_merged g1"
    using q'(2) by (simp add: g3_def same_rest_def)
  moreover have "\<exists>env'. merge_step push' g offered env = (merged i from_rule key, g3, env')"
  proof -
    define ex where "ex = find (\<lambda>e. ov_recurrence_id e = key) ?es"
    define sv where "sv = (case Option.bind ex ov_moved_to of
              Some moved \<Rightarrow> Some moved
            | None \<Rightarrow> if \<not> from_rule then Some key
                else (case shift_at (in_overrides i) key of
                        Some shift \<Rightarrow> instant_checked_add_seconds key shift
                      | None \<Rightarrow> Some key))"
    define pv where "pv = (if ex \<noteq> None then Some ExactMatch
            else case last_opt (anchors_at (in_overrides i) key) of
              Some anchor \<Rightarrow> Some (InForce (ov_recurrence_id anchor))
            | None \<Rightarrow> if \<not> from_rule then Some AddedByRdate else None)"
    have start: "effective_start g3 ?c ex = sv"
      unfolding effective_start_def st merge_candidate.select_convs sv_def by (rule refl)
    have prov: "provenance_of g3 ?c ex = pv"
      by (simp add: provenance_of_def st pv_def split: option.splits)
    have mg: "merged i from_rule key = (if key \<in> set (in_exclusions i) then None
        else map_option (\<lambda>at. \<lparr>occ_key = key, occ_start = at, occ_provenance = pv,
                occ_exact = ex, occ_overrides = in_overrides i\<rparr>) sv)"
      unfolding merged_def Let_def ex_def [symmetric] sv_def pv_def by (rule refl)
    show ?thesis
      unfolding merge_step_def assms(4) prod.case option.case Let_def in1 merge_candidate.select_convs
        g2_def [symmetric] excl exact ex_def [symmetric] start prov mg
      by (cases sv) simp_all
  qed
  ultimately show ?thesis by blast
qed

section \<open>The whole merge\<close>

lemma sorted_list_of_set_least:
  assumes "finite A" "\<forall>x \<in> A. (k :: 'a :: linorder) < x"
  shows "sorted_list_of_set (insert k A) = k # sorted_list_of_set A"
proof (rule sorted_distinct_set_unique)
  show "sorted (sorted_list_of_set (insert k A))" "distinct (sorted_list_of_set (insert k A))"
    by (rule sorted_sorted_list_of_set, rule distinct_sorted_list_of_set)
  show "sorted (k # sorted_list_of_set A)" "distinct (k # sorted_list_of_set A)"
    using assms by (auto simp: less_imp_le)
  have "set (sorted_list_of_set (insert k A)) = insert k A"
    using assms(1) by (intro set_sorted_list_of_set) simp
  then show "set (sorted_list_of_set (insert k A)) = set (k # sorted_list_of_set A)"
    using assms(1) by simp
qed

lemma map_filter_cong:
  "(\<And>x. x \<in> set xs \<Longrightarrow> f x = g x) \<Longrightarrow> List.map_filter f xs = List.map_filter g xs"
  by (induction xs) (auto split: option.splits)

definition additions_left :: "merge_state \<Rightarrow> instant list" where
  "additions_left g = drop (mg_rdates_merged g) (in_additions (mg_input g))"

lemma pending_addition_left:
  "pending_addition g = (case additions_left g of [] \<Rightarrow> None | x # xs \<Rightarrow> Some x)"
  by (auto simp: pending_addition_def nth_opt_def additions_left_def Cons_nth_drop_Suc [symmetric]
      split: list.splits)

lemma additions_left_next:
  "additions_left (g\<lparr>mg_rdates_merged := Suc (mg_rdates_merged g)\<rparr>) = drop 1 (additions_left g)"
  by (simp add: additions_left_def)

lemma merge_inv_merged [simp]:
  "merge_inv i ahead (g\<lparr>mg_rdates_merged := n\<rparr>) \<longleftrightarrow> merge_inv i ahead g"
  by (simp add: merge_inv_def caught_up_def)

text \<open>
  The next candidate: the least of what is left, consumed from each of the two lists that names it.
\<close>

lemma merge_take_result:
  assumes "sorted_wrt (<) keys" "sorted_wrt (<) (additions_left g)"
    and "set keys \<union> set (additions_left g) \<noteq> {}"
  shows "\<exists>key g1. merge_take g (nth_opt keys 0)
      = (Some \<lparr>cand_key = key, cand_added_by_rdate = key \<notin> set keys\<rparr>, g1)
    \<and> (g1 = g \<or> g1 = g\<lparr>mg_rdates_merged := mg_rdates_merged g + 1\<rparr>)
    \<and> (let keys' = (if takes_rule_key g (nth_opt keys 0) then drop 1 keys else keys);
          left' = additions_left g1 in
        set keys \<union> set (additions_left g) = insert key (set keys' \<union> set left')
        \<and> (\<forall>k \<in> set keys' \<union> set left'. key < k)
        \<and> set keys' = set keys - {key}
        \<and> length keys' + length left' < length keys + length (additions_left g)
        \<and> sorted_wrt (<) keys' \<and> sorted_wrt (<) left')"
proof (cases keys)
  case Nil
  then obtain a as where "additions_left g = a # as" using assms(3) by (cases "additions_left g") auto
  then show ?thesis
    using assms Nil
    by (auto simp: merge_take_def pending_addition_left nth_opt_def takes_rule_key_def additions_left_next
        Let_def)
next
  case (Cons k ks)
  show ?thesis
  proof (cases "additions_left g")
    case Nil
    then show ?thesis
      using assms Cons
      by (auto simp: merge_take_def pending_addition_left nth_opt_def takes_rule_key_def Let_def)
  next
    case (Cons a as)
    note keys = \<open>keys = k # ks\<close>
    consider "k < a" | "k = a" | "a < k" by (rule linorder_cases)
    then show ?thesis
    proof cases
      case 1
      then show ?thesis
        using assms keys Cons
        by (auto simp: merge_take_def pending_addition_left nth_opt_def takes_rule_key_def Let_def min_def
            intro: less_trans)
    next
      case 2
      then show ?thesis
        using assms keys Cons
        by (auto simp: merge_take_def pending_addition_left nth_opt_def takes_rule_key_def Let_def
            additions_left_next)
    next
      case 3
      then show ?thesis
        using assms keys Cons
        by (auto simp: merge_take_def pending_addition_left nth_opt_def takes_rule_key_def Let_def min_def
            additions_left_next intro: less_trans)
    qed
  qed
qed

lemma merge_run_result:
  assumes "input_sorted i" "merge_inv i (set keys \<union> set (additions_left g)) g"
    and "sorted_wrt (<) keys" "sorted_wrt (<) (additions_left g)"
    and "length keys + length (additions_left g) \<le> n"
  shows "merge_run push' n g keys env =
    List.map_filter (\<lambda>k. merged i (k \<in> set keys) k)
      (sorted_list_of_set (set keys \<union> set (additions_left g)))"
  using assms(2-)
proof (induction n arbitrary: g keys env)
  case 0
  then show ?case by (simp add: map_filter_def)
next
  case (Suc n)
  let ?all = "set keys \<union> set (additions_left g)"
  show ?case
  proof (cases "?all = {}")
    case True
    then show ?thesis
      by (simp add: Let_def is_drained_def nth_opt_def pending_addition_left map_filter_def)
  next
    case False
    from merge_take_result [OF Suc.prems(2,3) this] obtain key g1 where t:
      "merge_take g (nth_opt keys 0) = (Some \<lparr>cand_key = key, cand_added_by_rdate = key \<notin> set keys\<rparr>, g1)"
      "g1 = g \<or> g1 = g\<lparr>mg_rdates_merged := mg_rdates_merged g + 1\<rparr>"
      and left: "let keys' = (if takes_rule_key g (nth_opt keys 0) then drop 1 keys else keys);
            left' = additions_left g1 in
          ?all = insert key (set keys' \<union> set left')
          \<and> (\<forall>k \<in> set keys' \<union> set left'. key < k)
          \<and> set keys' = set keys - {key}
          \<and> length keys' + length left' < length keys + length (additions_left g)
          \<and> sorted_wrt (<) keys' \<and> sorted_wrt (<) left'" by blast
    define keys' where "keys' = (if takes_rule_key g (nth_opt keys 0) then drop 1 keys else keys)"
    define ahead where "ahead = set keys' \<union> set (additions_left g1)"
    have l: "?all = insert key ahead" "\<forall>k \<in> ahead. key < k" "set keys' = set keys - {key}"
      "length keys' + length (additions_left g1) < length keys + length (additions_left g)"
      "sorted_wrt (<) keys'" "sorted_wrt (<) (additions_left g1)"
      using left by (simp_all add: Let_def keys'_def ahead_def)
    have "\<not> is_drained g (nth_opt keys 0)"
      using False by (auto simp: is_drained_def nth_opt_def pending_addition_left split: list.splits)
    moreover have inv: "merge_inv i (insert key ahead) g" using Suc.prems(1) l(1) by simp
    moreover have "merge_inv i (insert key ahead) g1" using t(2) inv by auto
    ultimately obtain g' env' where step:
      "merge_step push' g (nth_opt keys 0) env = (merged i (key \<in> set keys) key, g', env')"
      "merge_inv i ahead g'" "mg_rdates_merged g' = mg_rdates_merged g1"
      using merge_step_result [OF assms(1) inv, of "nth_opt keys 0" "key \<in> set keys" g1 push' env] t(1) l(2)
      by (auto simp: less_imp_le)
    have "mg_input g' = mg_input g1" using step(2) \<open>merge_inv i (insert key ahead) g1\<close>
      by (simp add: merge_inv_def)
    then have same: "additions_left g' = additions_left g1" using step(3) by (simp add: additions_left_def)
    have "merge_run push' n g' keys' env' = List.map_filter (\<lambda>k. merged i (k \<in> set keys') k)
        (sorted_list_of_set ahead)"
      using Suc.IH [of keys' g' env'] step(2) l Suc.prems(4) by (simp add: same ahead_def)
    also have "\<dots> = List.map_filter (\<lambda>k. merged i (k \<in> set keys) k) (sorted_list_of_set ahead)"
    proof (rule map_filter_cong)
      fix k assume "k \<in> set (sorted_list_of_set ahead)"
      then have "k \<noteq> key" using l(2) by (auto simp: ahead_def)
      then show "merged i (k \<in> set keys') k = merged i (k \<in> set keys) k" by (simp add: l(3))
    qed
    finally have rest: "merge_run push' n g' keys' env'
        = List.map_filter (\<lambda>k. merged i (k \<in> set keys) k) (sorted_list_of_set ahead)" .
    have "sorted_list_of_set ?all = key # sorted_list_of_set ahead"
      unfolding l(1) using l(2) by (intro sorted_list_of_set_least) (simp_all add: ahead_def)
    then show ?thesis
      using \<open>\<not> is_drained g (nth_opt keys 0)\<close> step(1) rest
      by (simp add: Let_def keys'_def map_filter_simps split: option.splits)
  qed
qed

section \<open>Property\<close>



end
