(* ===== verification/Recur_Engine.thy ===== *)
theory Recur_Engine
  imports Recur_Select Recur_Merge
begin

text \<open>
  The search of \<open>recur/engine.rs\<close> with the accounting of \<open>recur/accounting.rs\<close>: a stream that walks
  periods, expands each and offers its selected candidates as cadence keys, and a loop that merges
  the keys with the caller's lists, filters by the window and charges what it emits.  The two
  \<open>loop\<close>s are total functions; their termination proofs are the measures below.
\<close>

section \<open>Accounting\<close>

definition max_absolute_shift :: "override_set \<Rightarrow> int" where
  "max_absolute_shift s =
     (let widest = fold max (map (\<lambda>shift. \<bar>shift\<bar>) (List.map_filter ov_shift_seconds (os_entries s))) 0
      in if widest \<le> 9223372036854775807 then widest else 9223372036854775807)"

definition generation_window :: "window \<Rightarrow> override_set \<Rightarrow> window option" where
  "generation_window asked s =
     (let widest = max_absolute_shift s in
      if widest = 0 then Some asked else window_widened asked widest widest)"

record charges =
  ch_reached :: instant
  ch_opened_at :: nat
  ch_periods :: nat
  ch_terminal :: "budget_exhausted option"

definition charges_new :: "instant \<Rightarrow> meter \<Rightarrow> charges" where
  "charges_new origin m =
     \<lparr>ch_reached = origin, ch_opened_at = m_candidates_charged m, ch_periods = 0, ch_terminal = None\<rparr>"

definition mark_reached :: "charges \<Rightarrow> instant \<Rightarrow> charges" where
  "mark_reached c at = c\<lparr>ch_reached := at\<rparr>"

definition charges_open_period :: "charges \<Rightarrow> meter \<Rightarrow> charges \<times> meter" where
  "charges_open_period c m = (c\<lparr>ch_periods := sat_add u64_max (ch_periods c) 1\<rparr>, open_period m)"

definition charges_spent :: "charges \<Rightarrow> meter \<Rightarrow> nat" where
  "charges_spent c m = m_candidates_charged m - ch_opened_at c"

definition charges_latch :: "charges \<Rightarrow> meter \<Rightarrow> budget_exhausted \<times> charges" where
  "charges_latch c m =
     (let terminal = \<lparr>be_reached = ch_reached c, be_candidates_spent = charges_spent c m\<rparr>
      in (terminal, c\<lparr>ch_terminal := Some terminal\<rparr>))"

definition charges_candidate :: "charges \<Rightarrow> meter \<Rightarrow> (budget_exhausted + unit) \<times> charges \<times> meter" where
  "charges_candidate c m =
     (case ch_terminal c of
        Some terminal \<Rightarrow> (Inl terminal, c, m)
      | None \<Rightarrow>
          (case try_charge_candidate m of
             (Inl _, m') \<Rightarrow> (case charges_latch c m' of (terminal, c') \<Rightarrow> (Inl terminal, c', m'))
           | (Inr _, m') \<Rightarrow> (Inr (), c, m')))"

fun charges_candidates :: "nat \<Rightarrow> charges \<Rightarrow> meter \<Rightarrow> (budget_exhausted + unit) \<times> charges \<times> meter" where
  "charges_candidates 0 c m = (Inr (), c, m)"
| "charges_candidates (Suc n) c m =
     (case charges_candidate c m of
        (Inl terminal, c', m') \<Rightarrow> (Inl terminal, c', m')
      | (Inr _, c', m') \<Rightarrow> charges_candidates n c' m')"

definition charges_occurrence :: "charges \<Rightarrow> meter \<Rightarrow> (budget_exhausted + unit) \<times> charges \<times> meter" where
  "charges_occurrence c m =
     (case ch_terminal c of
        Some terminal \<Rightarrow> (Inl terminal, c, m)
      | None \<Rightarrow>
          (case try_charge_occurrence m of
             (Inl _, m') \<Rightarrow> (case charges_latch c m' of (terminal, c') \<Rightarrow> (Inl terminal, c', m'))
           | (Inr _, m') \<Rightarrow> (Inr (), c, m')))"

definition admit :: "'k sink_push \<Rightarrow> window \<Rightarrow> occurrence \<Rightarrow> 'k env \<Rightarrow> bool \<times> 'k env" where
  "admit push' asked o' env =
     (if occ_starts_within o' asked then (True, env)
      else (False,
        if window_contains asked (occ_key o')
        then report push' (diagnostic_at_instant (Expansion OverrideLeftWindow) Note (occ_key o')) env
        else env))"

section \<open>The rule stream\<close>

record rule_cursor_state =
  rc_period_index :: nat

record search_cursor =
  sc_resume_after :: instant
  sc_occurrences_emitted :: nat
  sc_rule_cursor :: rule_cursor_state

record cadence_walk =
  cw_rule :: recurrence_rule
  cw_dtstart :: civil_datetime
  cw_walk :: period_walk

definition cadence_open :: "recurrence_input \<Rightarrow> search_cursor option \<Rightarrow> cadence_walk option" where
  "cadence_open i cursor = do {
     r \<leftarrow> in_rule i;
     dtstart \<leftarrow> from_instant (in_dtstart i) UTC;
     let walk = (case cursor of
                   Some held \<Rightarrow> resume_at dtstart r (rc_period_index (sc_rule_cursor held))
                 | None \<Rightarrow> walk_new dtstart r);
     Some \<lparr>cw_rule = r, cw_dtstart = dtstart, cw_walk = walk\<rparr>
   }"

datatype rule_key =
  KeyNext instant
| KeyRuleEnded
| KeyWindowEnded
| KeyCalendarEnded
| KeyExhausted

record rule_stream =
  rs_cadence :: "cadence_walk option"
  rs_selected :: "selected_candidates option"
  rs_position :: nat
  rs_produced :: nat
  rs_begins_at :: instant
  rs_resume_after :: "instant option"
  rs_ended :: bool
  rs_input :: recurrence_input

definition rule_stream_new :: "recurrence_input \<Rightarrow> search_cursor option \<Rightarrow> rule_stream" where
  "rule_stream_new i cursor =
     \<lparr>rs_cadence = cadence_open i cursor, rs_selected = None, rs_position = 0,
      rs_produced = (case cursor of Some c \<Rightarrow> sc_occurrences_emitted c | None \<Rightarrow> 0),
      rs_begins_at = in_dtstart i, rs_resume_after = map_option sc_resume_after cursor,
      rs_ended = False, rs_input = i\<rparr>"

text \<open>The candidates of the open period, and how many of them are unread.\<close>

definition open_candidates :: "rule_stream \<Rightarrow> civil_datetime list" where
  "open_candidates s = (case rs_selected s of Some c \<Rightarrow> chosen c | None \<Rightarrow> [])"

function take_candidate :: "rule_stream \<Rightarrow> instant option \<times> rule_stream" where
  "take_candidate s =
     (case nth_opt (open_candidates s) (rs_position s) of
        None \<Rightarrow> (None, s)
      | Some at \<Rightarrow>
          (let s' = s\<lparr>rs_position := rs_position s + 1\<rparr> in
           case at_offset at UTC of
             Some key \<Rightarrow> (Some key, s')
           | None \<Rightarrow> take_candidate s'))"
  by pat_completeness auto
termination
  by (relation "measure (\<lambda>s. length (open_candidates s) - rs_position s)")
     (auto simp: nth_opt_def open_candidates_def split: if_splits)

declare take_candidate.simps [simp del]

definition has_ended_at :: "rule_stream \<Rightarrow> instant \<Rightarrow> bool" where
  "has_ended_at s key \<longleftrightarrow>
     (case map_option (\<lambda>c. rule_limited (cw_rule c)) (rs_cadence s) of
        Some (CountLimit count) \<Rightarrow> count \<le> rs_produced s
      | Some (UntilLimit at _ _) \<Rightarrow> at < key
      | Some Infinite \<Rightarrow> False
      | None \<Rightarrow> False)"

definition weigh :: "rule_stream \<Rightarrow> instant \<Rightarrow> window \<Rightarrow> rule_key option \<times> rule_stream" where
  "weigh s key generation =
     (if key < rs_begins_at s then (None, s)
      else if (case rs_resume_after s of Some after \<Rightarrow> key \<le> after | None \<Rightarrow> False) then (None, s)
      else if has_ended_at s key then (Some KeyRuleEnded, s\<lparr>rs_ended := True\<rparr>)
      else if w_end generation \<le> key then (Some KeyWindowEnded, s)
      else if \<not> in_admits (rs_input s) key then (None, s)
      else (Some (KeyNext key), s\<lparr>rs_produced := sat_add u32_max (rs_produced s) 1\<rparr>))"

definition advance_walk :: "rule_stream \<Rightarrow> (rule_key + period \<times> instant) \<times> rule_stream" where
  "advance_walk s =
     (case rs_cadence s of
        None \<Rightarrow> (Inl KeyRuleEnded, s)
      | Some c \<Rightarrow>
          (case walk_next_period (cw_walk c) of
             (r, w') \<Rightarrow>
               (let s' = s\<lparr>rs_cadence := Some (c\<lparr>cw_walk := w'\<rparr>)\<rparr> in
                case r of
                  None \<Rightarrow> (Inl KeyCalendarEnded, s')
                | Some p \<Rightarrow>
                    (case at_offset (period_anchor p) UTC of
                       Some anchor \<Rightarrow> (Inr (p, anchor), s')
                     | None \<Rightarrow> (Inl KeyCalendarEnded, s')))))"

definition expand_into :: "'k sink_push \<Rightarrow> period \<Rightarrow> rule_stream \<Rightarrow> charges \<Rightarrow> 'k env
    \<Rightarrow> rule_key option \<times> rule_stream \<times> charges \<times> 'k env" where
  "expand_into push' p s ch env =
     (case rs_cadence s of
        None \<Rightarrow> (Some KeyRuleEnded, s\<lparr>rs_ended := True\<rparr>, ch, env)
      | Some c \<Rightarrow>
          (let (ch', m) = charges_open_period ch (snd env) in
           case expand_period push' p (cw_rule c) (cw_dtstart c) (fst env, m) of
             (Inl _, env') \<Rightarrow> (Some KeyExhausted, s, ch', env')
           | (Inr cs, env') \<Rightarrow>
               (None,
                s\<lparr>rs_selected := Some (select cs (by_set_pos (cw_rule c))), rs_position := 0\<rparr>,
                ch', env')))"

definition open_next_period :: "'k sink_push \<Rightarrow> window \<Rightarrow> rule_stream \<Rightarrow> charges \<Rightarrow> 'k env
    \<Rightarrow> rule_key option \<times> rule_stream \<times> charges \<times> 'k env" where
  "open_next_period push' generation s ch env =
     (case advance_walk s of
        (Inl stop, s') \<Rightarrow> (Some stop, s'\<lparr>rs_ended := True\<rparr>, ch, env)
      | (Inr (p, anchor), s') \<Rightarrow>
          if w_end generation \<le> anchor then (Some KeyWindowEnded, s', ch, env)
          else expand_into push' p s' ch env)"

subsection \<open>What is left of a stream\<close>

definition walk_left :: "period_walk \<Rightarrow> nat" where
  "walk_left w = (if walk_finished w then 0 else Suc (u64_max - walk_index w))"

definition stream_left :: "rule_stream \<Rightarrow> nat \<times> nat" where
  "stream_left s =
     (case rs_cadence s of None \<Rightarrow> 0 | Some c \<Rightarrow> walk_left (cw_walk c),
      length (open_candidates s) - rs_position s)"

lemma take_candidate_left:
  "take_candidate s = (r, s') \<Longrightarrow>
    s' = s\<lparr>rs_position := rs_position s'\<rparr> \<and> rs_position s \<le> rs_position s'
    \<and> (r \<noteq> None \<longrightarrow> stream_left s' < stream_left s) \<and> stream_left s' \<le> stream_left s"
proof (induction s rule: take_candidate.induct)
  case (1 s)
  show ?case
  proof (cases "nth_opt (open_candidates s) (rs_position s)")
    case None
    then show ?thesis using "1.prems" unfolding take_candidate.simps [of s] by auto
  next
    case (Some at)
    let ?s = "s\<lparr>rs_position := rs_position s + 1\<rparr>"
    have less: "stream_left ?s < stream_left s"
      using Some by (auto simp: stream_left_def open_candidates_def nth_opt_def split: if_splits)
    show ?thesis
    proof (cases "at_offset at UTC")
      case None
      then have "take_candidate ?s = (r, s')"
        using "1.prems" Some unfolding take_candidate.simps [of s] by (simp add: Let_def)
      with "1.IH" [OF Some refl None] less show ?thesis
        by (cases s') (auto dest: less_imp_le)
    next
      case key: (Some key)
      then have "r = Some key" "s' = ?s"
        using "1.prems" Some unfolding take_candidate.simps [of s] by (auto simp: Let_def)
      then show ?thesis using less by (auto dest: less_imp_le)
    qed
  qed
qed

lemma weigh_left: "weigh s key gen = (r, s') \<Longrightarrow> stream_left s' = stream_left s"
  by (auto simp: weigh_def stream_left_def open_candidates_def split: if_splits option.splits)

lemma walk_next_left:
  "walk_next_period w = (Some p, w') \<Longrightarrow> walk_left w' < walk_left w"
  "walk_next_period w = (r, w') \<Longrightarrow> walk_left w' \<le> walk_left w"
  by (auto simp: walk_next_period_def walk_left_def split: if_splits option.splits)

lemma open_next_period_left:
  assumes "open_next_period push' gen s ch env = (r, s', ch', env')"
  shows "stream_left s' \<le> stream_left s" "r = None \<Longrightarrow> stream_left s' < stream_left s"
proof -
  have "stream_left s' \<le> stream_left s \<and> (r = None \<longrightarrow> stream_left s' < stream_left s)"
  proof (cases "rs_cadence s")
    case None
    then show ?thesis
      using assms by (auto simp: open_next_period_def advance_walk_def stream_left_def open_candidates_def)
  next
    case (Some c)
    obtain q w' where w: "walk_next_period (cw_walk c) = (q, w')" by fastforce
    show ?thesis
      using assms Some walk_next_left(2) [OF w] walk_next_left(1) [of "cw_walk c" _ w'] w
      by (fastforce simp: open_next_period_def advance_walk_def expand_into_def stream_left_def
          open_candidates_def Let_def charges_open_period_def less_eq_prod_def
          split: option.splits sum.splits prod.splits if_splits)
  qed
  then show "stream_left s' \<le> stream_left s" "r = None \<Longrightarrow> stream_left s' < stream_left s" by auto
qed

lemma weighed_left:
  assumes "take_candidate s = (Some key, s1)" "weigh s1 key gen = (r, s2)"
  shows "stream_left s2 < stream_left s"
  using take_candidate_left [OF assms(1)] weigh_left [OF assms(2)] by simp

lemma opened_left:
  assumes "take_candidate s = (None, s1)" "open_next_period push' gen s1 ch env = (None, s2, ch', env')"
  shows "stream_left s2 < stream_left s"
  using take_candidate_left [OF assms(1)] open_next_period_left(2) [OF assms(2) refl]
  by (auto intro: less_le_trans)

function next_key :: "'k sink_push \<Rightarrow> window \<Rightarrow> rule_stream \<Rightarrow> charges \<Rightarrow> 'k env
    \<Rightarrow> rule_key \<times> rule_stream \<times> charges \<times> 'k env" where
  "next_key push' generation s ch env =
     (if rs_ended s then (KeyRuleEnded, s, ch, env)
      else case take_candidate s of
        (Some key, s1) \<Rightarrow>
          (case weigh s1 key generation of
             (Some stop, s2) \<Rightarrow> (stop, s2, ch, env)
           | (None, s2) \<Rightarrow> next_key push' generation s2 ch env)
      | (None, s1) \<Rightarrow>
          (case open_next_period push' generation s1 ch env of
             (Some stop, s2, ch2, env2) \<Rightarrow> (stop, s2, ch2, env2)
           | (None, s2, ch2, env2) \<Rightarrow> next_key push' generation s2 ch2 env2))"
  by pat_completeness auto
termination
proof (relation "inv_image {(x, y). (x :: nat \<times> nat) < y} (\<lambda>(p, g, s, ch, env). stream_left s)", goal_cases)
  case 1
  show ?case by (rule wf_inv_image) (rule wf)
next
  case 2
  then show ?case by (auto intro: opened_left [OF sym sym])
next
  case 3
  then show ?case by (auto intro: weighed_left [OF sym sym])
qed

declare next_key.simps [simp del]

definition cursor_state :: "rule_stream \<Rightarrow> rule_cursor_state" where
  "cursor_state s =
     \<lparr>rc_period_index = (case rs_cadence s of Some c \<Rightarrow> walk_index (cw_walk c) - 1 | None \<Rightarrow> 0)\<rparr>"

section \<open>The search\<close>

datatype progress =
  ProgressEmit occurrence
| ProgressRetry
| ProgressStop
| ProgressExhausted budget_exhausted

record search =
  se_asked :: window
  se_generation :: window
  se_charges :: charges
  se_stream :: rule_stream
  se_merge :: merge_state
  se_offered :: "instant option"
  se_stream_done :: bool
  se_resume_after :: "instant option"
  se_reached :: instant
  se_outcome :: search_outcome
  se_finished :: bool

definition widen_window ::
  "'k sink_push \<Rightarrow> window \<Rightarrow> recurrence_input \<Rightarrow> 'k env \<Rightarrow> window \<times> 'k env" where
  "widen_window push' asked i env =
     (case generation_window asked (in_overrides i) of
        Some widened \<Rightarrow> (widened, env)
      | None \<Rightarrow>
          (asked, report push' (diagnostic_at_instant (Expansion OverrideLeftWindow) Note (w_start asked)) env))"

definition search_start ::
  "'k sink_push \<Rightarrow> recurrence_input \<Rightarrow> search_cursor option \<Rightarrow> window \<Rightarrow> 'k env \<Rightarrow> search \<times> 'k env" where
  "search_start push' i cursor asked env =
     (let env1 = (if \<not> until_value_type_agrees i
                  then report push' (diagnostic_at_instant (Expansion RecurrenceUntilValueTypeMismatch)
                         Violation (in_dtstart i)) env
                  else env);
          (generation, env2) = widen_window push' asked i env1;
          origin = (case cursor of Some c \<Rightarrow> sc_resume_after c | None \<Rightarrow> in_dtstart i)
      in (\<lparr>se_asked = asked, se_generation = generation,
           se_charges = charges_new origin (snd env2), se_stream = rule_stream_new i cursor,
           se_merge = merge_new i, se_offered = None, se_stream_done = False,
           se_resume_after = map_option sc_resume_after cursor, se_reached = origin,
           se_outcome = OutcomePending, se_finished = False\<rparr>, env2))"

definition search_cursor_of :: "search \<Rightarrow> search_cursor" where
  "search_cursor_of e =
     \<lparr>sc_resume_after = se_reached e, sc_occurrences_emitted = rs_produced (se_stream e),
      sc_rule_cursor = cursor_state (se_stream e)\<rparr>"

definition record_outcome :: "search_outcome \<Rightarrow> search \<Rightarrow> search" where
  "record_outcome oc e = (if se_outcome e = OutcomePending then e\<lparr>se_outcome := oc\<rparr> else e)"

definition search_exhausted ::
  "'k sink_push \<Rightarrow> search \<Rightarrow> 'k env \<Rightarrow> budget_exhausted \<times> search \<times> 'k env" where
  "search_exhausted push' e env =
     (let terminal = \<lparr>be_reached = se_reached e,
                      be_candidates_spent = charges_spent (se_charges e) (snd env)\<rparr>
      in (terminal, e\<lparr>se_outcome := OutcomeExhausted terminal\<rparr>,
          report push' (diagnostic_at_instant (Expansion RecurrenceBudgetExhausted) LimitReached
            (se_reached e)) env))"

definition report_calendar_end :: "'k sink_push \<Rightarrow> search \<Rightarrow> 'k env \<Rightarrow> 'k env" where
  "report_calendar_end push' e env =
     report push' (diagnostic_at_instant (Expansion RecurrenceCalendarEnded) Note (se_reached e)) env"

definition fill_offer ::
  "'k sink_push \<Rightarrow> search \<Rightarrow> 'k env \<Rightarrow> progress option \<times> search \<times> 'k env" where
  "fill_offer push' e env =
     (if se_offered e \<noteq> None \<or> se_stream_done e then (None, e, env)
      else case next_key push' (se_generation e) (se_stream e) (se_charges e) env of
        (answer, s, ch, env1) \<Rightarrow>
          (let e1 = e\<lparr>se_stream := s, se_charges := ch\<rparr> in
           case answer of
             KeyNext key \<Rightarrow>
               (None, e1\<lparr>se_reached := key, se_charges := mark_reached ch key,
                         se_offered := Some key\<rparr>, env1)
           | KeyRuleEnded \<Rightarrow>
               (None, record_outcome OutcomeRuleEnded (e1\<lparr>se_stream_done := True\<rparr>), env1)
           | KeyWindowEnded \<Rightarrow>
               (None, record_outcome OutcomeWindowEnded (e1\<lparr>se_stream_done := True\<rparr>), env1)
           | KeyCalendarEnded \<Rightarrow>
               (let e2 = record_outcome OutcomeCalendarEnded (e1\<lparr>se_stream_done := True\<rparr>)
                in (None, e2, report_calendar_end push' e2 env1))
           | KeyExhausted \<Rightarrow>
               (case search_exhausted push' e1 env1 of
                  (terminal, e2, env2) \<Rightarrow> (Some (ProgressExhausted terminal), e2, env2))))"

definition search_admits :: "'k sink_push \<Rightarrow> search \<Rightarrow> occurrence \<Rightarrow> 'k env \<Rightarrow> bool \<times> 'k env" where
  "search_admits push' e o' env =
     (if (case se_resume_after e of Some after \<Rightarrow> occ_key o' \<le> after | None \<Rightarrow> False)
      then (False, env)
      else
        let by_key = window_contains (se_asked e) (occ_key o');
            by_start = occ_starts_within o' (se_asked e)
        in (by_key \<or> by_start,
            if by_key \<and> \<not> by_start
            then report push' (diagnostic_at_instant (Expansion OverrideLeftWindow) Note (occ_key o')) env
            else env))"

definition deliver ::
  "'k sink_push \<Rightarrow> search \<Rightarrow> occurrence \<Rightarrow> 'k env \<Rightarrow> progress \<times> search \<times> 'k env" where
  "deliver push' e o' env =
     (if w_end (se_generation e) \<le> occ_key o'
      then (ProgressStop, record_outcome OutcomeWindowEnded e, env)
      else case search_admits push' e o' env of
        (False, env1) \<Rightarrow> (ProgressRetry, e, env1)
      | (True, env1) \<Rightarrow>
          (case charges_occurrence (se_charges e) (snd env1) of
             (Inl _, ch, m) \<Rightarrow>
               (case search_exhausted push' (e\<lparr>se_charges := ch\<rparr>) (fst env1, m) of
                  (terminal, e2, env2) \<Rightarrow> (ProgressExhausted terminal, e2, env2))
           | (Inr _, ch, m) \<Rightarrow>
               (ProgressEmit o',
                (if se_reached e < occ_key o' then e\<lparr>se_charges := ch, se_reached := occ_key o'\<rparr>
                 else e\<lparr>se_charges := ch\<rparr>),
                (fst env1, m))))"

definition search_advance ::
  "'k sink_push \<Rightarrow> search \<Rightarrow> 'k env \<Rightarrow> progress \<times> search \<times> 'k env" where
  "search_advance push' e env =
     (case fill_offer push' e env of
        (Some stop, e1, env1) \<Rightarrow> (stop, e1, env1)
      | (None, e1, env1) \<Rightarrow>
          (let offered = se_offered e1 in
           if is_drained (se_merge e1) offered then (ProgressStop, e1, env1)
           else
             let consumes_offer = takes_rule_key (se_merge e1) offered in
             case merge_step push' (se_merge e1) offered env1 of
               (produced, g, env2) \<Rightarrow>
                 (let e2 = e1\<lparr>se_merge := g\<rparr>;
                      e3 = (if consumes_offer then e2\<lparr>se_offered := None\<rparr> else e2)
                  in case produced of
                       None \<Rightarrow> (ProgressRetry, e3, env2)
                     | Some o' \<Rightarrow> deliver push' e3 o' env2)))"

subsection \<open>What is left of a search\<close>

text \<open>
  A turn either shortens the stream or consumes the key on offer or one added instant.
\<close>

definition merge_left :: "search \<Rightarrow> nat" where
  "merge_left e =
     (if se_offered e = None then 0 else 1)
     + (length (in_additions (mg_input (se_merge e))) - mg_rdates_merged (se_merge e))"

definition search_left :: "search \<Rightarrow> (nat \<times> nat) \<times> nat" where
  "search_left e = (stream_left (se_stream e), merge_left e)"

lemma next_key_left:
  "next_key push' gen s ch env = (answer, s', ch', env') \<Longrightarrow>
    stream_left s' \<le> stream_left s \<and> (\<forall>key. answer = KeyNext key \<longrightarrow> stream_left s' < stream_left s)"
proof (induction push' gen s ch env rule: next_key.induct)
  case (1 push' gen s ch env)
  show ?case
  proof (cases "rs_ended s")
    case True
    then show ?thesis using "1.prems" unfolding next_key.simps [of push' gen s] by auto
  next
    case False
    obtain r s1 where t: "take_candidate s = (r, s1)" by fastforce
    show ?thesis
    proof (cases r)
      case (Some key)
      obtain q s2 where w: "weigh s1 key gen = (q, s2)" by fastforce
      have less: "stream_left s2 < stream_left s" using weighed_left t w Some by simp
      show ?thesis
      proof (cases q)
        case None
        have "next_key push' gen s2 ch env = (answer, s', ch', env')"
          using "1.prems" False t w Some None unfolding next_key.simps [of push' gen s] by simp
        from "1.IH"(2) [OF False t [symmetric] Some w [symmetric] None this] less show ?thesis
          by (auto intro: less_imp_le)
      next
        case (Some stop)
        then have "s' = s2"
          using "1.prems" False t w \<open>r = Some key\<close> unfolding next_key.simps [of push' gen s] by simp
        with less show ?thesis by auto
      qed
    next
      case None
      obtain q s2 ch2 env2 where o': "open_next_period push' gen s1 ch env = (q, s2, ch2, env2)"
        by (rule prod_cases4)
      note le = open_next_period_left [OF o'] take_candidate_left [OF t]
      show ?thesis
      proof (cases q)
        case q: None
        have "next_key push' gen s2 ch2 env2 = (answer, s', ch', env')"
          using "1.prems" False t o' None q unfolding next_key.simps [of push' gen s] by simp
        from "1.IH"(1) [OF False t [symmetric] None o' [symmetric] q refl refl this] le q show ?thesis
          by (auto intro: order_trans)
      next
        case (Some stop)
        then have "s' = s2" "answer = stop"
          using "1.prems" False t o' None unfolding next_key.simps [of push' gen s] by simp_all
        moreover have "stop \<noteq> KeyNext key" for key
          using o' Some by (auto simp: open_next_period_def advance_walk_def expand_into_def Let_def
              split: option.splits sum.splits prod.splits if_splits)
        ultimately show ?thesis using le by auto
      qed
    qed
  qed
qed

lemma merge_step_left:
  assumes "merge_step push' g offered env = (r, g', env')" "\<not> is_drained g offered"
  shows "mg_input g' = mg_input g"
    "mg_rdates_merged g' = mg_rdates_merged g \<and> takes_rule_key g offered \<and> offered \<noteq> None
     \<or> mg_rdates_merged g' = Suc (mg_rdates_merged g)
       \<and> mg_rdates_merged g < length (in_additions (mg_input g))"
proof -
  obtain q g1 where t: "merge_take g offered = (q, g1)" by fastforce
  have take': "mg_input g1 = mg_input g \<and> q \<noteq> None
    \<and> (mg_rdates_merged g1 = mg_rdates_merged g \<and> takes_rule_key g offered \<and> offered \<noteq> None
     \<or> mg_rdates_merged g1 = Suc (mg_rdates_merged g)
       \<and> mg_rdates_merged g < length (in_additions (mg_input g)))"
    using t assms(2)
    by (auto simp: merge_take_def is_drained_def takes_rule_key_def Let_def min_def pending_addition_def
        nth_opt_def split: option.splits if_splits)
  then obtain c where c: "q = Some c" by auto
  have pass: "mg_input (pass_overrides es key h) = mg_input h
      \<and> mg_rdates_merged (pass_overrides es key h) = mg_rdates_merged h" for es key h
  proof (induction es key h rule: pass_overrides.induct)
    case (1 es key h)
    then show ?case
      unfolding pass_overrides.simps [of es key h] by (auto simp: Let_def split: option.splits)
  qed
  have "mg_input g' = mg_input g1 \<and> mg_rdates_merged g' = mg_rdates_merged g1"
    using assms(1) pass [of "os_entries (in_overrides (mg_input g1))" "cand_key c" g1]
    unfolding merge_step_def t c
    by (auto simp: Let_def is_excluded_def split: if_splits option.splits)
  with take' show "mg_input g' = mg_input g"
    "mg_rdates_merged g' = mg_rdates_merged g \<and> takes_rule_key g offered \<and> offered \<noteq> None
     \<or> mg_rdates_merged g' = Suc (mg_rdates_merged g)
       \<and> mg_rdates_merged g < length (in_additions (mg_input g))" by auto
qed

lemma record_outcome_fields [simp]:
  "se_asked (record_outcome oc e) = se_asked e" "se_generation (record_outcome oc e) = se_generation e"
  "se_charges (record_outcome oc e) = se_charges e" "se_stream (record_outcome oc e) = se_stream e"
  "se_merge (record_outcome oc e) = se_merge e" "se_offered (record_outcome oc e) = se_offered e"
  "se_stream_done (record_outcome oc e) = se_stream_done e"
  "se_resume_after (record_outcome oc e) = se_resume_after e"
  "se_reached (record_outcome oc e) = se_reached e" "se_finished (record_outcome oc e) = se_finished e"
  by (simp_all add: record_outcome_def)

lemma search_left_record [simp]: "search_left (record_outcome oc e) = search_left e"
  by (simp add: search_left_def merge_left_def)

text \<open>What filling the offer leaves: a key on offer, bought with part of the stream, or none.\<close>

lemma fill_offer_left:
  assumes "fill_offer push' e env = (r, e1, env1)"
  shows "se_merge e1 = se_merge e"
    "stream_left (se_stream e1) < stream_left (se_stream e)
     \<or> stream_left (se_stream e1) = stream_left (se_stream e) \<and> se_offered e1 = se_offered e"
proof -
  have "se_merge e1 = se_merge e \<and> (stream_left (se_stream e1) < stream_left (se_stream e)
     \<or> stream_left (se_stream e1) = stream_left (se_stream e) \<and> se_offered e1 = se_offered e)"
  proof (cases "se_offered e \<noteq> None \<or> se_stream_done e")
    case True
    then show ?thesis using assms by (auto simp: fill_offer_def)
  next
    case False
    obtain answer s ch env2 where k:
      "next_key push' (se_generation e) (se_stream e) (se_charges e) env = (answer, s, ch, env2)"
      by (rule prod_cases4)
    show ?thesis
      using assms False next_key_left [OF k] k
      by (cases answer) (auto simp: fill_offer_def Let_def search_exhausted_def order_le_less)
  qed
  then show "se_merge e1 = se_merge e"
    "stream_left (se_stream e1) < stream_left (se_stream e)
     \<or> stream_left (se_stream e1) = stream_left (se_stream e) \<and> se_offered e1 = se_offered e" by auto
qed

lemma deliver_left:
  "deliver push' e o' env = (p, e', env') \<Longrightarrow> search_left e' = search_left e"
  by (auto simp: deliver_def search_left_def merge_left_def search_exhausted_def Let_def
      split: if_splits prod.splits bool.splits sum.splits)

lemma search_advance_left:
  assumes "search_advance push' e env = (p, e', env')" "p = ProgressRetry \<or> (\<exists>o'. p = ProgressEmit o')"
  shows "search_left e' < search_left e"
proof -
  obtain r e1 env1 where f: "fill_offer push' e env = (r, e1, env1)" by (rule prod_cases3)
  have r: "r = None"
    using assms f by (auto simp: search_advance_def fill_offer_def Let_def search_exhausted_def
        split: option.splits prod.splits rule_key.splits if_splits)
  note fl = fill_offer_left [OF f]
  have drained: "\<not> is_drained (se_merge e1) (se_offered e1)"
    using assms f r by (auto simp: search_advance_def Let_def)
  obtain q g env2 where m: "merge_step push' (se_merge e1) (se_offered e1) env1 = (q, g, env2)"
    by (rule prod_cases3)
  define e3 where "e3 = (if takes_rule_key (se_merge e1) (se_offered e1)
    then e1\<lparr>se_merge := g, se_offered := None\<rparr> else e1\<lparr>se_merge := g\<rparr>)"
  have "search_left e' = search_left e3"
    using assms(1) f r drained m deliver_left [of push' e3 _ env2 p e' env']
    by (cases q) (auto simp: search_advance_def Let_def e3_def split: if_splits)
  moreover have "stream_left (se_stream e3) = stream_left (se_stream e1)" by (simp add: e3_def)
  moreover have "merge_left e3 < merge_left e1"
    using merge_step_left [OF m drained] by (auto simp: merge_left_def e3_def)
  moreover have "stream_left (se_stream e1) < stream_left (se_stream e)
      \<or> stream_left (se_stream e1) = stream_left (se_stream e) \<and> merge_left e1 = merge_left e"
    using fl by (auto simp: merge_left_def)
  ultimately show ?thesis by (auto simp: search_left_def)
qed

function search_next ::
  "'k sink_push \<Rightarrow> search \<Rightarrow> 'k env \<Rightarrow> search_step option \<times> search \<times> 'k env" where
  "search_next push' e env =
     (if se_finished e then (None, e, env)
      else case search_advance push' e env of
        (ProgressEmit o', e1, env1) \<Rightarrow> (Some (StepOccurrence o'), e1, env1)
      | (ProgressRetry, e1, env1) \<Rightarrow> search_next push' e1 env1
      | (ProgressStop, e1, env1) \<Rightarrow> (None, e1\<lparr>se_finished := True\<rparr>, env1)
      | (ProgressExhausted terminal, e1, env1) \<Rightarrow>
          (Some (StepExhausted terminal), e1\<lparr>se_finished := True\<rparr>, env1))"
  by pat_completeness auto
termination
proof (relation "inv_image {(x, y). (x :: (nat \<times> nat) \<times> nat) < y} (\<lambda>(p, e, env). search_left e)", goal_cases)
  case 1
  show ?case by (rule wf_inv_image) (rule wf)
next
  case 2
  then show ?case by (auto intro: search_advance_left [OF sym])
qed

declare search_next.simps [simp del]

end
