(* ===== verification/Recur_Search.thy ===== *)
theory Recur_Search
  imports Recur_Engine
begin

text \<open>
  What a search promises its caller, whatever the rule, the lists, the sink and the budget: it ends
  and says why, and no key it generates leaves the bounds the rule, the window, the cursor and the
  caller's gate set.
\<close>

section \<open>Running a search to its end\<close>

fun search_collect ::
  "'k sink_push \<Rightarrow> nat \<Rightarrow> search \<Rightarrow> 'k env \<Rightarrow> search_step list \<times> bool \<times> search \<times> 'k env" where
  "search_collect push' 0 e env = ([], False, e, env)"
| "search_collect push' (Suc n) e env =
     (case search_next push' e env of
        (None, e1, env1) \<Rightarrow> ([], True, e1, env1)
      | (Some st, e1, env1) \<Rightarrow>
          (case search_collect push' n e1 env1 of (sts, ended, e2, env2) \<Rightarrow> (st # sts, ended, e2, env2)))"

text \<open>
  A search under way: nothing terminal has happened, and a stream that is done has said why.
\<close>

definition under_way :: "search \<Rightarrow> bool" where
  "under_way e \<longleftrightarrow> \<not> se_finished e \<and> ch_terminal (se_charges e) = None
     \<and> (\<forall>b. se_outcome e \<noteq> OutcomeExhausted b)
     \<and> (se_stream_done e \<longrightarrow> se_outcome e \<noteq> OutcomePending)"

lemma report_keeps_latch [simp]: "m_exhausted (snd (report push' d env)) = m_exhausted (snd env)"
  by (auto simp: report_def report_diagnostic_def note_dropped_diagnostic_def
      split: prod.splits sink_outcome.splits)

lemma next_key_latches:
  "next_key push' gen s ch env = (answer, s', ch', env') \<Longrightarrow>
    (answer = KeyExhausted \<longrightarrow> m_exhausted (snd env')) \<and> ch_terminal ch' = ch_terminal ch"
proof (induction push' gen s ch env rule: next_key.induct)
  case (1 push' gen s ch env)
  show ?case
  proof (cases "rs_ended s")
    case True
    then show ?thesis using "1.prems" unfolding next_key.simps [of push' gen s] by auto
  next
    case False
    obtain r s1 where t: "take_candidate s = (r, s1)" by fastforce
    show ?thesis
    proof (cases r)
      case (Some key)
      obtain q s2 where w: "weigh s1 key gen = (q, s2)" by fastforce
      show ?thesis
      proof (cases q)
        case None
        have "next_key push' gen s2 ch env = (answer, s', ch', env')"
          using "1.prems" False t w Some None unfolding next_key.simps [of push' gen s] by simp
        from "1.IH"(2) [OF False t [symmetric] Some w [symmetric] None this] show ?thesis .
      next
        case (Some stop)
        then show ?thesis
          using "1.prems" False t w \<open>r = Some key\<close> unfolding next_key.simps [of push' gen s]
          by (auto simp: weigh_def split: if_splits)
      qed
    next
      case None
      obtain q s2 ch2 env2 where o': "open_next_period push' gen s1 ch env = (q, s2, ch2, env2)"
        by (rule prod_cases4)
      have opened: "(q = Some KeyExhausted \<longrightarrow> m_exhausted (snd env2)) \<and> ch_terminal ch2 = ch_terminal ch"
      proof -
        have latch: "m_exhausted (snd env2)"
          if "expand_period push' p r' dt (fst env, m) = (Inl x, env2)" for p r' dt m x
          using latched_expand_period [of push' p r' dt "(fst env, m)"] that by (simp add: latched_def)
        show ?thesis
          using o' latch
          by (auto simp: open_next_period_def advance_walk_def expand_into_def Let_def
              charges_open_period_def split: option.splits sum.splits prod.splits if_splits)
      qed
      show ?thesis
      proof (cases q)
        case q: None
        have "next_key push' gen s2 ch2 env2 = (answer, s', ch', env')"
          using "1.prems" False t o' None q unfolding next_key.simps [of push' gen s] by simp
        from "1.IH"(1) [OF False t [symmetric] None o' [symmetric] q refl refl this] opened
        show ?thesis by simp
      next
        case (Some stop)
        then show ?thesis
          using "1.prems" False t o' None opened unfolding next_key.simps [of push' gen s] by auto
      qed
    qed
  qed
qed

definition finished_well :: "search_step option \<Rightarrow> search \<Rightarrow> 'k env \<Rightarrow> bool" where
  "finished_well st e env \<longleftrightarrow> se_finished e
     \<and> (case st of
          None \<Rightarrow> outcome_is_complete (se_outcome e)
        | Some (StepExhausted b) \<Rightarrow> se_outcome e = OutcomeExhausted b \<and> m_exhausted (snd env)
        | Some (StepOccurrence o') \<Rightarrow> False)"

lemma outcome_complete_iff:
  "outcome_is_complete oc \<longleftrightarrow> oc \<noteq> OutcomePending \<and> (\<forall>b. oc \<noteq> OutcomeExhausted b)"
  by (cases oc) auto

lemma fill_offer_under_way:
  assumes "under_way e" "fill_offer push' e env = (r, e1, env1)"
  shows "case r of
      None \<Rightarrow> under_way e1 \<and> (se_offered e1 = None \<longrightarrow> se_stream_done e1)
    | Some p \<Rightarrow> (\<exists>b. p = ProgressExhausted b \<and> se_outcome e1 = OutcomeExhausted b)
        \<and> \<not> se_finished e1 \<and> m_exhausted (snd env1)"
proof (cases "se_offered e \<noteq> None \<or> se_stream_done e")
  case True
  then show ?thesis using assms by (auto simp: fill_offer_def)
next
  case False
  obtain answer s ch env2 where k:
    "next_key push' (se_generation e) (se_stream e) (se_charges e) env = (answer, s, ch, env2)"
    by (rule prod_cases4)
  show ?thesis
    using assms False next_key_latches [OF k] k
    by (cases answer)
       (auto simp: fill_offer_def Let_def search_exhausted_def under_way_def record_outcome_def
         mark_reached_def split: if_splits)
qed

lemma deliver_under_way:
  assumes "under_way e" "deliver push' e o' env = (p, e', env')"
  shows "case p of
      ProgressEmit x \<Rightarrow> x = o' \<and> under_way e'
    | ProgressRetry \<Rightarrow> under_way e'
    | ProgressStop \<Rightarrow> \<not> se_finished e' \<and> outcome_is_complete (se_outcome e')
    | ProgressExhausted b \<Rightarrow> se_outcome e' = OutcomeExhausted b \<and> m_exhausted (snd env')"
  using assms
  by (auto simp: deliver_def search_admits_def under_way_def record_outcome_def outcome_complete_iff
      charges_occurrence_def charges_latch_def search_exhausted_def Let_def try_charge_occurrence_def
      split: if_splits prod.splits bool.splits sum.splits option.splits)

lemma search_advance_under_way:
  assumes "under_way e" "search_advance push' e env = (p, e', env')"
  shows "case p of
      ProgressEmit x \<Rightarrow> under_way e'
    | ProgressRetry \<Rightarrow> under_way e'
    | ProgressStop \<Rightarrow> outcome_is_complete (se_outcome e')
    | ProgressExhausted b \<Rightarrow> se_outcome e' = OutcomeExhausted b \<and> m_exhausted (snd env')"
proof -
  obtain r e1 env1 where f: "fill_offer push' e env = (r, e1, env1)" by (rule prod_cases3)
  note fu = fill_offer_under_way [OF assms(1) f]
  show ?thesis
  proof (cases r)
    case (Some q)
    then show ?thesis using assms(2) f fu by (auto simp: search_advance_def)
  next
    case None
    then have u: "under_way e1" "se_offered e1 = None \<longrightarrow> se_stream_done e1" using fu by auto
    show ?thesis
    proof (cases "is_drained (se_merge e1) (se_offered e1)")
      case True
      then show ?thesis
        using assms(2) f None u
        by (auto simp: search_advance_def Let_def is_drained_def under_way_def outcome_complete_iff)
    next
      case False
      obtain q g env2 where m: "merge_step push' (se_merge e1) (se_offered e1) env1 = (q, g, env2)"
        by (rule prod_cases3)
      define e3 where "e3 = (if takes_rule_key (se_merge e1) (se_offered e1)
        then e1\<lparr>se_merge := g, se_offered := None\<rparr> else e1\<lparr>se_merge := g\<rparr>)"
      have u3: "under_way e3" using u(1) by (simp add: e3_def under_way_def)
      have adv: "search_advance push' e env
          = (case q of None \<Rightarrow> (ProgressRetry, e3, env2) | Some o' \<Rightarrow> deliver push' e3 o' env2)"
        using f None False m
        by (cases q) (auto simp: search_advance_def Let_def e3_def)
      show ?thesis
      proof (cases q)
        case None
        then show ?thesis using adv assms(2) u3 by auto
      next
        case (Some o')
        then show ?thesis
          using adv assms(2) deliver_under_way [OF u3, of push' o' env2 p e' env']
          by (auto split: progress.splits)
      qed
    qed
  qed
qed

lemma search_next_under_way:
  "search_next push' e env = (st, e', env') \<Longrightarrow> under_way e \<Longrightarrow>
    (case st of
       Some (StepOccurrence o') \<Rightarrow> under_way e' \<and> search_left e' < search_left e
     | _ \<Rightarrow> finished_well st e' env')"
proof (induction push' e env rule: search_next.induct)
  case (1 push' e env)
  obtain p e1 env1 where a: "search_advance push' e env = (p, e1, env1)" by (rule prod_cases3)
  note u = search_advance_under_way [OF "1.prems"(2) a]
  have "\<not> se_finished e" using "1.prems"(2) by (simp add: under_way_def)
  then have eq: "search_next push' e env = (case p of
        ProgressEmit o' \<Rightarrow> (Some (StepOccurrence o'), e1, env1)
      | ProgressRetry \<Rightarrow> search_next push' e1 env1
      | ProgressStop \<Rightarrow> (None, e1\<lparr>se_finished := True\<rparr>, env1)
      | ProgressExhausted terminal \<Rightarrow>
          (Some (StepExhausted terminal), e1\<lparr>se_finished := True\<rparr>, env1))"
    using a unfolding search_next.simps [of push' e env] by (simp split: progress.splits)
  show ?case
  proof (cases p)
    case (ProgressEmit o')
    then show ?thesis using "1.prems"(1) eq u search_advance_left [OF a] by auto
  next
    case ProgressRetry
    then have "search_next push' e1 env1 = (st, e', env')" "under_way e1"
      using "1.prems"(1) eq u by auto
    from "1.IH" [OF \<open>\<not> se_finished e\<close> a [symmetric] ProgressRetry refl this]
    have "case st of
       Some (StepOccurrence o') \<Rightarrow> under_way e' \<and> search_left e' < search_left e1
     | _ \<Rightarrow> finished_well st e' env'" .
    moreover have "search_left e1 < search_left e"
      using search_advance_left [OF a] ProgressRetry by simp
    ultimately show ?thesis by (auto split: option.splits search_step.splits)
  next
    case ProgressStop
    then show ?thesis using "1.prems"(1) eq u by (auto simp: finished_well_def)
  next
    case (ProgressExhausted b)
    then show ?thesis using "1.prems"(1) eq u by (auto simp: finished_well_def)
  qed
qed

lemma search_next_finished: "se_finished e \<Longrightarrow> search_next push' e env = (None, e, env)"
  by (simp add: search_next.simps)

lemma search_collect_ends:
  assumes "under_way e"
  shows "\<exists>n sts e' env'. search_collect push' n e env = (sts, True, e', env')
    \<and> se_finished e'
    \<and> (\<forall>st \<in> set (butlast sts). \<exists>o'. st = StepOccurrence o')
    \<and> (outcome_is_complete (se_outcome e') \<and> (\<forall>st \<in> set sts. \<exists>o'. st = StepOccurrence o')
       \<or> (\<exists>b. sts \<noteq> [] \<and> last sts = StepExhausted b \<and> se_outcome e' = OutcomeExhausted b
            \<and> m_exhausted (snd env')))"
  using assms
proof (induction "search_left e" arbitrary: e env rule: less_induct)
  case less
  obtain st e1 env1 where s: "search_next push' e env = (st, e1, env1)" by (rule prod_cases3)
  note u = search_next_under_way [OF s less.prems]
  show ?case
  proof (cases st)
    case None
    then have "search_collect push' (Suc 0) e env = ([], True, e1, env1)" using s by simp
    then show ?thesis
      using u None
      by (intro exI [of _ "Suc 0"] exI [of _ "[]"] exI [of _ e1] exI [of _ env1])
         (simp add: finished_well_def)
  next
    case (Some x)
    show ?thesis
    proof (cases x)
      case (StepOccurrence o')
      then have "under_way e1" "search_left e1 < search_left e" using u Some by auto
      from less.hyps [OF this(2,1), of env1] obtain n sts e' env' where
        "search_collect push' n e1 env1 = (sts, True, e', env')" and r: "se_finished e'"
        "\<forall>st \<in> set (butlast sts). \<exists>o'. st = StepOccurrence o'"
        "outcome_is_complete (se_outcome e') \<and> (\<forall>st \<in> set sts. \<exists>o'. st = StepOccurrence o')
         \<or> (\<exists>b. sts \<noteq> [] \<and> last sts = StepExhausted b \<and> se_outcome e' = OutcomeExhausted b
            \<and> m_exhausted (snd env'))" by blast
      then have "search_collect push' (Suc n) e env = (x # sts, True, e', env')"
        using s Some by simp
      with r StepOccurrence show ?thesis
        by (intro exI [of _ "Suc n"] exI [of _ "x # sts"] exI [of _ e'] exI [of _ env'])
           (cases "sts = []"; simp)
    next
      case (StepExhausted b)
      then have w: "finished_well st e1 env1" using u Some by simp
      then have "search_collect push' (Suc (Suc 0)) e env = ([x], True, e1, env1)"
        using s Some by (simp add: search_next_finished finished_well_def)
      then show ?thesis
        using w Some StepExhausted
        by (intro exI [of _ "Suc (Suc 0)"] exI [of _ "[x]"] exI [of _ e1] exI [of _ env1])
           (simp add: finished_well_def)
    qed
  qed
qed

lemma search_start_under_way: "under_way (fst (search_start push' i cursor asked env))"
  by (simp add: search_start_def under_way_def charges_new_def Let_def split: prod.splits)

section \<open>What the keys keep to\<close>

fun stream_keys ::
  "'k sink_push \<Rightarrow> nat \<Rightarrow> window \<Rightarrow> rule_stream \<Rightarrow> charges \<Rightarrow> 'k env \<Rightarrow> instant list" where
  "stream_keys push' 0 gen s ch env = []"
| "stream_keys push' (Suc n) gen s ch env =
     (case next_key push' gen s ch env of
        (KeyNext key, s', ch', env') \<Rightarrow> key # stream_keys push' n gen s' ch' env'
      | _ \<Rightarrow> [])"

text \<open>What a stream keeps fixed, and what it takes to offer a key.\<close>

definition same_terms :: "rule_stream \<Rightarrow> rule_stream \<Rightarrow> bool" where
  "same_terms s s' \<longleftrightarrow> rs_begins_at s' = rs_begins_at s \<and> rs_resume_after s' = rs_resume_after s
     \<and> rs_input s' = rs_input s
     \<and> map_option (\<lambda>c. rule_limited (cw_rule c)) (rs_cadence s')
       = map_option (\<lambda>c. rule_limited (cw_rule c)) (rs_cadence s)"

definition offerable :: "rule_stream \<Rightarrow> window \<Rightarrow> instant \<Rightarrow> bool" where
  "offerable s gen key \<longleftrightarrow> rs_begins_at s \<le> key
     \<and> (\<forall>after. rs_resume_after s = Some after \<longrightarrow> after < key)
     \<and> key < w_end gen \<and> in_admits (rs_input s) key
     \<and> (case map_option (\<lambda>c. rule_limited (cw_rule c)) (rs_cadence s) of
          Some (UntilLimit at k c) \<Rightarrow> key \<le> at
        | Some (CountLimit n) \<Rightarrow> rs_produced s < n
        | _ \<Rightarrow> True)"

lemma same_terms_refl [simp]: "same_terms s s"
  by (simp add: same_terms_def)

lemma same_terms_trans: "same_terms s s' \<Longrightarrow> same_terms s' s'' \<Longrightarrow> same_terms s s''"
  by (simp add: same_terms_def)

lemma take_candidate_terms:
  "take_candidate s = (r, s') \<Longrightarrow> same_terms s s' \<and> rs_produced s' = rs_produced s"
  using take_candidate_left [of s r s'] by (metis (no_types, lifting) rule_stream.select_convs
      rule_stream.surjective rule_stream.update_convs(3) same_terms_def)

lemma weigh_terms:
  assumes "weigh s key gen = (r, s')"
  shows "same_terms s s'"
    "r = Some (KeyNext k) \<Longrightarrow> k = key \<and> offerable s gen key \<and> rs_produced s' = sat_add u32_max (rs_produced s) 1"
    "r = None \<Longrightarrow> rs_produced s' = rs_produced s"
  using assms
  by (auto simp: weigh_def same_terms_def offerable_def has_ended_at_def not_le not_less
      split: if_splits option.splits rule_limit.splits)

lemma open_next_period_terms:
  assumes "open_next_period push' gen s ch env = (r, s', ch', env')"
  shows "same_terms s s'" "rs_produced s' = rs_produced s" "r \<noteq> Some (KeyNext k)"
  using assms
  by (auto simp: open_next_period_def advance_walk_def expand_into_def same_terms_def Let_def
      split: option.splits sum.splits prod.splits if_splits)

lemma offerable_cong:
  "same_terms s s' \<Longrightarrow> rs_produced s' = rs_produced s \<Longrightarrow> offerable s' gen key = offerable s gen key"
  by (cases "rs_cadence s"; cases "rs_cadence s'") (auto simp: offerable_def same_terms_def split: rule_limit.splits)

lemma next_key_terms:
  "next_key push' gen s ch env = (answer, s', ch', env') \<Longrightarrow>
    same_terms s s' \<and> (\<forall>k. answer = KeyNext k \<longrightarrow>
      offerable s gen k \<and> rs_produced s' = sat_add u32_max (rs_produced s) 1)"
proof (induction push' gen s ch env rule: next_key.induct)
  case (1 push' gen s ch env)
  show ?case
  proof (cases "rs_ended s")
    case True
    then show ?thesis using "1.prems" unfolding next_key.simps [of push' gen s] by auto
  next
    case False
    obtain r s1 where t: "take_candidate s = (r, s1)" by fastforce
    note tt = take_candidate_terms [OF t]
    show ?thesis
    proof (cases r)
      case (Some key)
      obtain q s2 where w: "weigh s1 key gen = (q, s2)" by fastforce
      show ?thesis
      proof (cases q)
        case None
        have "next_key push' gen s2 ch env = (answer, s', ch', env')"
          using "1.prems" False t w Some None unfolding next_key.simps [of push' gen s] by simp
        from "1.IH"(2) [OF False t [symmetric] Some w [symmetric] None this]
        show ?thesis
          using tt weigh_terms(1,3) [OF w] None offerable_cong [of s s2]
          by (auto intro: same_terms_trans)
      next
        case (Some stop)
        then show ?thesis
          using "1.prems" False t w \<open>r = Some key\<close> tt weigh_terms(1,2) [OF w] offerable_cong [of s s1]
          unfolding next_key.simps [of push' gen s] by (auto intro: same_terms_trans)
      qed
    next
      case None
      obtain q s2 ch2 env2 where o': "open_next_period push' gen s1 ch env = (q, s2, ch2, env2)"
        by (rule prod_cases4)
      note ot = open_next_period_terms [OF o']
      show ?thesis
      proof (cases q)
        case q: None
        have "next_key push' gen s2 ch2 env2 = (answer, s', ch', env')"
          using "1.prems" False t o' None q unfolding next_key.simps [of push' gen s] by simp
        from "1.IH"(1) [OF False t [symmetric] None o' [symmetric] q refl refl this]
        show ?thesis
          using tt ot(1,2) offerable_cong [of s s2] by (auto intro: same_terms_trans)
      next
        case (Some stop)
        then show ?thesis
          using "1.prems" False t o' None tt ot unfolding next_key.simps [of push' gen s]
          by (auto intro: same_terms_trans)
      qed
    qed
  qed
qed

lemma stream_keys_terms:
  "key \<in> set (stream_keys push' n gen s ch env) \<Longrightarrow> rs_begins_at s \<le> key
     \<and> (\<forall>after. rs_resume_after s = Some after \<longrightarrow> after < key)
     \<and> key < w_end gen \<and> in_admits (rs_input s) key
     \<and> (case map_option (\<lambda>c. rule_limited (cw_rule c)) (rs_cadence s) of
          Some (UntilLimit at k c) \<Rightarrow> key \<le> at
        | _ \<Rightarrow> True)"
proof (induction n arbitrary: s ch env)
  case 0
  then show ?case by simp
next
  case (Suc n)
  obtain answer s' ch' env' where k: "next_key push' gen s ch env = (answer, s', ch', env')"
    by (rule prod_cases4)
  note t = next_key_terms [OF k]
  from Suc.prems k obtain first where a: "answer = KeyNext first"
    and "key = first \<or> key \<in> set (stream_keys push' n gen s' ch' env')"
    by (cases answer) auto
  then consider "key = first" | "key \<in> set (stream_keys push' n gen s' ch' env')" by blast
  then show ?case
  proof cases
    case 1
    then show ?thesis
      using t a by (auto simp: offerable_def split: option.splits rule_limit.splits)
  next
    case 2
    from Suc.IH [OF this] t show ?thesis
      by (cases "rs_cadence s"; cases "rs_cadence s'")
         (auto simp: same_terms_def split: rule_limit.splits)
  qed
qed

lemma stream_keys_count:
  "map_option (\<lambda>c. rule_limited (cw_rule c)) (rs_cadence s) = Some (CountLimit count) \<Longrightarrow>
    count \<le> u32_max \<Longrightarrow>
    length (stream_keys push' n gen s ch env) \<le> count - rs_produced s"
proof (induction n arbitrary: s ch env)
  case 0
  then show ?case by simp
next
  case (Suc n)
  obtain answer s' ch' env' where k: "next_key push' gen s ch env = (answer, s', ch', env')"
    by (rule prod_cases4)
  note t = next_key_terms [OF k]
  show ?case
  proof (cases answer)
    case (KeyNext first)
    then have o': "rs_produced s < count" "rs_produced s' = sat_add u32_max (rs_produced s) 1"
      using t Suc.prems(1) by (auto simp: offerable_def)
    have "map_option (\<lambda>c. rule_limited (cw_rule c)) (rs_cadence s') = Some (CountLimit count)"
      using t Suc.prems(1) by (simp add: same_terms_def)
    from Suc.IH [OF this Suc.prems(2), of ch' env'] show ?thesis
      using k KeyNext o' Suc.prems(2) by (auto simp: sat_add_def)
  qed (use k in auto)
qed

text \<open>A stream with no rule to walk has no key to give.\<close>

lemma stream_keys_without_rule:
  assumes "rs_cadence s = None" "rs_selected s = None"
  shows "stream_keys push' n gen s ch env = []"
proof -
  have "take_candidate s = (None, s)"
    using assms(2) unfolding take_candidate.simps [of s] by (simp add: open_candidates_def nth_opt_def)
  then have "fst (next_key push' gen s ch env) = KeyRuleEnded"
    using assms(1) unfolding next_key.simps [of push' gen s]
    by (auto simp: open_next_period_def advance_walk_def)
  then show ?thesis by (cases n) (auto split: prod.splits rule_key.splits)
qed

section \<open>Properties\<close>

text \<open>
  C12. Every search comes to an end, whatever the rule, the lists, the cursor, the window, the sink
  and the budget: after finitely many calls it answers that it is over, having produced occurrences
  only and said that the rule, the window or the calendar ended, or having produced one last step
  that says the budget ran out, with the meter latched.
\<close>

theorem search_ends:
  "\<exists>n found e' env'.
      search_collect push' n (fst (search_start push' i cursor asked env))
        (snd (search_start push' i cursor asked env)) = (map StepOccurrence found, True, e', env')
      \<and> se_finished e' \<and> outcome_is_complete (se_outcome e')
    \<or> (\<exists>b. search_collect push' n (fst (search_start push' i cursor asked env))
        (snd (search_start push' i cursor asked env))
          = (map StepOccurrence found @ [StepExhausted b], True, e', env')
      \<and> se_finished e' \<and> se_outcome e' = OutcomeExhausted b \<and> m_exhausted (snd env'))"
proof -
  have collected: "\<exists>found. sts = map StepOccurrence found"
    if "\<forall>st \<in> set sts. \<exists>o'. st = StepOccurrence o'" for sts :: "search_step list"
    using that by (induction sts) (auto intro: exI [of _ "_ # _"] simp: Cons_eq_map_conv)
  obtain n sts e' env' where c: "search_collect push' n (fst (search_start push' i cursor asked env))
        (snd (search_start push' i cursor asked env)) = (sts, True, e', env')"
    and f: "se_finished e'" and b: "\<forall>st \<in> set (butlast sts). \<exists>o'. st = StepOccurrence o'"
    and how: "outcome_is_complete (se_outcome e') \<and> (\<forall>st \<in> set sts. \<exists>o'. st = StepOccurrence o')
       \<or> (\<exists>b. sts \<noteq> [] \<and> last sts = StepExhausted b \<and> se_outcome e' = OutcomeExhausted b
            \<and> m_exhausted (snd env'))"
    using search_collect_ends [OF search_start_under_way [of push' i cursor asked env],
        of push' "snd (search_start push' i cursor asked env)"] by blast
  from how show ?thesis
  proof (elim disjE conjE exE)
    assume o': "outcome_is_complete (se_outcome e')"
      and "\<forall>st \<in> set sts. \<exists>o'. st = StepOccurrence o'"
    with collected obtain found where "sts = map StepOccurrence found" by blast
    then show ?thesis
      using c f o'
      by (intro exI [of _ n] exI [of _ found] exI [of _ e'] exI [of _ env'] disjI1) simp
  next
    fix b' assume l: "sts \<noteq> []" "last sts = StepExhausted b'" "se_outcome e' = OutcomeExhausted b'"
      "m_exhausted (snd env')"
    obtain found where "butlast sts = map StepOccurrence found" using collected [OF b] by blast
    then have "sts = map StepOccurrence found @ [StepExhausted b']"
      using l(1,2) append_butlast_last_id by metis
    then show ?thesis
      using c f l(3,4)
      by (intro exI [of _ n] exI [of _ found] exI [of _ e'] exI [of _ env'] disjI2 exI [of _ b']) simp
  qed
qed

text \<open>
  C13. Whatever the state of the caller's window, cursor, gate, sink and budget, every key a rule's
  stream generates is at or after \<open>DTSTART\<close>, after the instant the cursor resumes from, before the
  window's end and admitted by the gate, none is later than \<open>UNTIL\<close>, and no more keys are generated
  than \<open>COUNT\<close> leaves after what the cursor says was emitted before.
\<close>

theorem generated_keys_keep_limits:
  fixes push' :: "'k sink_push" and env :: "'k env"
  assumes "in_rule i = Some r" "rule_in_width r"
  shows "let keys = stream_keys push' n gen (rule_stream_new i cursor) ch env in
    list_all (\<lambda>key. in_dtstart i \<le> key \<and> key < w_end gen \<and> in_admits i key) keys
    \<and> (case cursor of Some c \<Rightarrow> list_all (\<lambda>key. sc_resume_after c < key) keys | None \<Rightarrow> True)
    \<and> (case rule_limited r of
         UntilLimit at k c \<Rightarrow> list_all (\<lambda>key. key \<le> at) keys
       | CountLimit count \<Rightarrow>
           length keys \<le> count - (case cursor of Some c \<Rightarrow> sc_occurrences_emitted c | None \<Rightarrow> 0)
       | Infinite \<Rightarrow> True)"
proof (cases "cadence_open i cursor")
  case None
  define keys where "keys = stream_keys push' n gen (rule_stream_new i cursor) ch env"
  from None have "keys = []" unfolding keys_def by (simp add: rule_stream_new_def stream_keys_without_rule)
  then show ?thesis by (simp add: keys_def [symmetric] Let_def split: option.splits rule_limit.splits)
next
  case (Some c)
  define keys where "keys = stream_keys push' n gen (rule_stream_new i cursor) ch env"
  from Some have r: "cw_rule c = r"
    using assms(1) by (auto simp: cadence_open_def Option.bind_eq_Some_conv Let_def)
  let ?s = "rule_stream_new i cursor"
  have s: "rs_cadence ?s = Some c" "rs_begins_at ?s = in_dtstart i" "rs_input ?s = i"
    "rs_resume_after ?s = map_option sc_resume_after cursor"
    "rs_produced ?s = (case cursor of Some c \<Rightarrow> sc_occurrences_emitted c | None \<Rightarrow> 0)"
    using Some by (simp_all add: rule_stream_new_def)
  have each: "in_dtstart i \<le> key \<and> key < w_end gen \<and> in_admits i key
      \<and> (case cursor of Some c \<Rightarrow> sc_resume_after c < key | None \<Rightarrow> True)
      \<and> (case rule_limited r of UntilLimit at k c \<Rightarrow> key \<le> at | _ \<Rightarrow> True)"
    if "key \<in> set keys" for key
    using stream_keys_terms [OF that [unfolded keys_def]] s r
    by (auto split: option.splits rule_limit.splits)
  have "length keys \<le> count - (case cursor of Some c \<Rightarrow> sc_occurrences_emitted c | None \<Rightarrow> 0)"
    if "rule_limited r = CountLimit count" for count
    using stream_keys_count [of ?s count push' n gen ch env] that assms(2) s r
    by (simp add: keys_def rule_in_width_def)
  with each show ?thesis
    by (auto simp: list_all_iff keys_def [symmetric] Let_def split: option.splits rule_limit.splits)
qed

theorem generated_keys_keep_limits_witness:
  "length (stream_keys vec_push 9 \<lparr>w_start = \<lparr>unix_seconds = 0\<rparr>, w_end = \<lparr>unix_seconds = 900000\<rparr>\<rparr>
      (rule_stream_new \<lparr>in_dtstart = \<lparr>unix_seconds = 1\<rparr>, in_dtstart_kind = KindDateTime,
        in_rule = Some ((rule_new Daily)\<lparr>rule_limited := CountLimit 3\<rparr>),
        in_additions = [], in_exclusions = [], in_overrides = \<lparr>os_entries = []\<rparr>, in_admission = None\<rparr>
        (Some \<lparr>sc_resume_after = \<lparr>unix_seconds = 1\<rparr>, sc_occurrences_emitted = 1,
               sc_rule_cursor = \<lparr>rc_period_index = 0\<rparr>\<rparr>))
      (charges_new \<lparr>unix_seconds = 1\<rparr> (meter_new LIMITS_DEFAULT)) ([], meter_new LIMITS_DEFAULT)) \<le> 2"
proof -
  let ?r = "(rule_new Daily)\<lparr>rule_limited := CountLimit 3\<rparr>"
  let ?i = "\<lparr>in_dtstart = \<lparr>unix_seconds = 1\<rparr>, in_dtstart_kind = KindDateTime, in_rule = Some ?r,
        in_additions = [], in_exclusions = [], in_overrides = \<lparr>os_entries = []\<rparr>, in_admission = None\<rparr>"
  have "in_rule ?i = Some ?r" "rule_in_width ?r"
    by (simp_all add: rule_in_width_def rule_new_def DEFAULT_INTERVAL_def u32_max_def)
  from generated_keys_keep_limits [OF this, of vec_push 9
      "\<lparr>w_start = \<lparr>unix_seconds = 0\<rparr>, w_end = \<lparr>unix_seconds = 900000\<rparr>\<rparr>"
      "Some \<lparr>sc_resume_after = \<lparr>unix_seconds = 1\<rparr>, sc_occurrences_emitted = 1,
               sc_rule_cursor = \<lparr>rc_period_index = 0\<rparr>\<rparr>" "charges_new \<lparr>unix_seconds = 1\<rparr> (meter_new LIMITS_DEFAULT)" "([], meter_new LIMITS_DEFAULT)"]
  show ?thesis by (simp add: Let_def)
qed

end
