(* ===== verification/Codec_Text.thy ===== *)
theory Codec_Text
  imports Component_Tree
begin

text \<open>
  The octet reading and number writing every value codec of \<open>core/codec.rs\<close> is made of: decimal
  runs, fields, signs, designators, and the formatted decimals \<open>{}\<close> and \<open>{:0w}\<close> the encoders write
  into a \<open>ValueBuf\<close>, with the lemmas that reading undoes writing.
\<close>

section \<open>Unsigned 64-bit steps\<close>

definition checked_u64 :: "nat \<Rightarrow> nat option" where
  "checked_u64 x = (if x \<le> u64_max then Some x else None)"

definition addu64 :: "nat \<Rightarrow> nat \<Rightarrow> nat option" where
  "addu64 a b = checked_u64 (a + b)"

definition mulu64 :: "nat \<Rightarrow> nat \<Rightarrow> nat option" where
  "mulu64 a b = checked_u64 (a * b)"

lemmas u64_defs = addu64_def mulu64_def checked_u64_def

text \<open>\<open>i64::try_from\<close>, \<open>i32::try_from\<close>, \<open>u16::try_from\<close> and \<open>u8::try_from\<close> on a \<open>u64\<close>.\<close>

definition i64_of_u64 :: "nat \<Rightarrow> int option" where
  "i64_of_u64 x = checked_i64 (int x)"

definition i32_of_u64 :: "nat \<Rightarrow> int option" where
  "i32_of_u64 x = checked_i32 (int x)"

definition u16_of_u64 :: "nat \<Rightarrow> nat option" where
  "u16_of_u64 x = (if x \<le> u16_max then Some x else None)"

definition u8_of_u64 :: "nat \<Rightarrow> nat option" where
  "u8_of_u64 x = (if x \<le> u8_max then Some x else None)"

section \<open>Reading\<close>

definition is_ascii_digit :: "octet \<Rightarrow> bool" where
  "is_ascii_digit b \<longleftrightarrow> 0x30 \<le> b \<and> b \<le> 0x39"

fun decimal_from :: "nat \<Rightarrow> octets \<Rightarrow> nat option" where
  "decimal_from t [] = Some t"
| "decimal_from t (octet # rest) =
     (if \<not> is_ascii_digit octet then None
      else do {
        scaled \<leftarrow> mulu64 t 10;
        t' \<leftarrow> addu64 scaled (unat (octet - 0x30));
        decimal_from t' rest
      })"

definition decimal :: "octets \<Rightarrow> nat option" where
  "decimal bytes = (if bytes = [] then None else decimal_from 0 bytes)"

text \<open>\<open>slice::get(start..end)\<close>.\<close>

definition get_range :: "octets \<Rightarrow> nat \<Rightarrow> nat \<Rightarrow> octets option" where
  "get_range bytes start end' =
     (if start \<le> end' \<and> end' \<le> length bytes then Some (take (end' - start) (drop start bytes)) else None)"

definition field :: "octets \<Rightarrow> nat \<Rightarrow> nat \<Rightarrow> nat option" where
  "field bytes start end' = Option.bind (get_range bytes start end') decimal"

fun split_sign :: "octets \<Rightarrow> bool \<times> octets" where
  "split_sign [] = (False, [])"
| "split_sign (b # tail) =
     (if b = 0x2D then (True, tail) else if b = 0x2B then (False, tail) else (False, b # tail))"

fun after :: "octets \<Rightarrow> octet \<Rightarrow> octets option" where
  "after [] designator = None"
| "after (first # tail) designator = (if first = designator then Some tail else None)"

definition split_digits :: "octets \<Rightarrow> (nat \<times> octets) option" where
  "split_digits bytes =
     (case (takeWhile is_ascii_digit bytes, dropWhile is_ascii_digit bytes) of
        (digits, rest) \<Rightarrow> map_option (\<lambda>n. (n, rest)) (decimal digits))"

definition take_term :: "octets \<Rightarrow> octet \<Rightarrow> (nat \<times> octets) option" where
  "take_term bytes designator =
     (case split_digits bytes of
        None \<Rightarrow> None
      | Some (counted, rest) \<Rightarrow> map_option (\<lambda>tail. (counted, tail)) (after rest designator))"

definition split_clock :: "nat \<Rightarrow> nat \<times> nat \<times> nat" where
  "split_clock secs = (secs div 3600, secs mod 3600 div 60, secs mod 60)"

definition is_forbidden_control :: "octet \<Rightarrow> bool" where
  "is_forbidden_control octet \<longleftrightarrow> octet \<le> 0x08 \<or> (0x0A \<le> octet \<and> octet \<le> 0x1F) \<or> octet = 0x7F"

definition all_digits :: "octets \<Rightarrow> bool" where
  "all_digits bytes \<longleftrightarrow> bytes \<noteq> [] \<and> list_all is_ascii_digit bytes"

text \<open>\<open>position\<close> of an octet, and the two sides of its first occurrence.\<close>

fun split_at_octet :: "octet \<Rightarrow> octets \<Rightarrow> (octets \<times> octets) option" where
  "split_at_octet sep [] = None"
| "split_at_octet sep (b # rest) =
     (if b = sep then Some ([], rest)
      else map_option (\<lambda>(head, tail). (b # head, tail)) (split_at_octet sep rest))"

section \<open>Writing\<close>

text \<open>The octets \<open>write!\<close> appends for \<open>{}\<close> and \<open>{:0w}\<close> on an unsigned number.\<close>

definition digit_octet :: "nat \<Rightarrow> octet" where
  "digit_octet d = of_nat (48 + d)"

fun shown :: "nat \<Rightarrow> octets" where
  "shown n = (if n < 10 then [digit_octet n] else shown (n div 10) @ [digit_octet (n mod 10)])"

declare shown.simps [simp del]

definition shown_wide :: "nat \<Rightarrow> nat \<Rightarrow> octets" where
  "shown_wide w n = replicate (w - length (shown n)) 0x30 @ shown n"

text \<open>\<open>{}\<close> on a signed number.\<close>

definition shown_int :: "int \<Rightarrow> octets" where
  "shown_int x = (if x < 0 then [0x2D] else []) @ shown (nat \<bar>x\<bar>)"

datatype mutation_error =
  MutAbsent
| MutIllegalControlCharacter
| MutMalformedReplacement
| MutNotRepresentable
| MutComponentBoundary
| MutValueTooLarge nat

type_synonym encoding = "(mutation_error + unit) \<times> octets"

text \<open>A formatted write: a \<open>ValueBuf\<close> takes every octet, so the error arm is never taken.\<close>

definition write_formatted :: "octets \<Rightarrow> octets \<Rightarrow> encoding" where
  "write_formatted out formatted = (Inr (), out @ formatted)"

section \<open>Digits\<close>

lemma is_ascii_digit_value: "is_ascii_digit b \<longleftrightarrow> 48 \<le> unat b \<and> unat b \<le> 57"
  by (simp add: is_ascii_digit_def word_le_nat_alt)

lemma unat_digit_octet [simp]: "d < 10 \<Longrightarrow> unat (digit_octet d) = 48 + d"
  unfolding digit_octet_def by (subst unat_of_nat) simp

lemma digit_octet_is_digit [simp]: "d < 10 \<Longrightarrow> is_ascii_digit (digit_octet d)"
  by (simp add: is_ascii_digit_value)

lemma digit_octet_read [simp]: "d < 10 \<Longrightarrow> unat (digit_octet d - 0x30) = d"
  by (simp add: digit_octet_def of_nat_add unat_of_nat)

lemma digit_value_less: "is_ascii_digit b \<Longrightarrow> unat (b - 0x30) < 10"
proof -
  assume d: "is_ascii_digit b"
  then have "(0x30 :: octet) \<le> b" by (simp add: is_ascii_digit_def)
  then have "unat (b - 0x30) = unat b - 48" by (simp add: unat_sub)
  moreover have "unat b \<le> 57" using d by (simp add: is_ascii_digit_value)
  ultimately show ?thesis by simp
qed

lemma digit_octet_of_value: "is_ascii_digit b \<Longrightarrow> digit_octet (unat (b - 0x30)) = b"
proof -
  assume d: "is_ascii_digit b"
  then have "(0x30 :: octet) \<le> b" by (simp add: is_ascii_digit_def)
  then have "unat (b - 0x30) = unat b - 48" by (simp add: unat_sub)
  then show ?thesis using d by (simp add: is_ascii_digit_value digit_octet_def)
qed

text \<open>The number a run of digits writes, with no bound on it.\<close>

definition run_value :: "octets \<Rightarrow> nat" where
  "run_value bs = foldl (\<lambda>n b. n * 10 + unat (b - 0x30)) 0 bs"

lemma foldl_run: "foldl (\<lambda>n b. n * 10 + unat (b - 0x30 :: octet)) t bs = t * 10 ^ length bs + run_value bs"
proof (induction bs arbitrary: t)
  case Nil
  show ?case by (simp add: run_value_def)
next
  case (Cons b bs)
  show ?case
    using Cons [of "t * 10 + unat (b - 0x30)"] Cons [of "unat (b - 0x30)"]
    by (simp add: run_value_def algebra_simps)
qed

lemma run_value_simps [simp]:
  "run_value [] = 0" "run_value (b # bs) = unat (b - 0x30) * 10 ^ length bs + run_value bs"
  using foldl_run [of "unat (b - 0x30)" bs] by (simp_all add: run_value_def)

lemma run_value_append: "run_value (as @ bs) = run_value as * 10 ^ length bs + run_value bs"
  using foldl_run [of "run_value as" bs] by (simp add: run_value_def)

lemma decimal_from_iff:
  "t \<le> u64_max \<Longrightarrow> decimal_from t bs = Some n \<longleftrightarrow>
     list_all is_ascii_digit bs \<and> n = t * 10 ^ length bs + run_value bs \<and> n \<le> u64_max"
proof (induction bs arbitrary: t)
  case Nil
  then show ?case by auto
next
  case (Cons b bs)
  let ?d = "unat (b - 0x30)"
  show ?case
  proof (cases "is_ascii_digit b \<and> t * 10 + ?d \<le> u64_max")
    case True
    then show ?thesis using Cons.IH [of "t * 10 + ?d"] by (auto simp: u64_defs algebra_simps)
  next
    case False
    have "t * 10 + ?d \<le> t * 10 ^ length (b # bs) + run_value (b # bs)"
    proof -
      have "1 \<le> (10 :: nat) ^ length bs" by simp
      then have "(t * 10 + ?d) * 1 \<le> (t * 10 + ?d) * 10 ^ length bs" by (rule mult_le_mono2)
      then show ?thesis by (simp add: algebra_simps)
    qed
    then show ?thesis using False by (auto simp: u64_defs bind_eq_Some_conv)
  qed
qed

lemma decimal_iff:
  "decimal bs = Some n \<longleftrightarrow> all_digits bs \<and> n = run_value bs \<and> n \<le> u64_max"
  using decimal_from_iff [of 0 bs n] by (auto simp: decimal_def all_digits_def)

lemma run_value_less: "list_all is_ascii_digit bs \<Longrightarrow> run_value bs < 10 ^ length bs"
proof (induction bs)
  case (Cons b bs)
  then have "unat (b - 0x30) \<le> 9" "run_value bs < 10 ^ length bs"
    using digit_value_less [of b] by auto
  then have "unat (b - 0x30) * 10 ^ length bs \<le> 9 * 10 ^ length bs" by (intro mult_le_mono1)
  then have "unat (b - 0x30) * 10 ^ length bs + run_value bs < 10 * 10 ^ length bs"
    using \<open>run_value bs < _\<close> by linarith
  then show ?case by simp
qed simp

section \<open>Written numbers are read back\<close>

lemma shown_digits: "all_digits (shown n)"
  by (induction n rule: shown.induct) (subst shown.simps, auto simp: all_digits_def)

lemma shown_not_Nil [simp]: "shown n \<noteq> []"
  using shown_digits [of n] by (simp add: all_digits_def)

lemma shown_list_all [simp]: "list_all is_ascii_digit (shown n)"
  using shown_digits [of n] by (simp add: all_digits_def)

lemma run_value_shown [simp]: "run_value (shown n) = n"
proof (induction n rule: shown.induct)
  case (1 n)
  show ?case
    by (subst shown.simps) (use 1 in \<open>auto simp: run_value_append\<close>)
qed

lemma length_shown: "0 < w \<Longrightarrow> n < 10 ^ w \<Longrightarrow> length (shown n) \<le> w"
proof (induction n arbitrary: w rule: shown.induct)
  case (1 n)
  show ?case
  proof (cases "n < 10")
    case True
    then show ?thesis using 1 by (subst shown.simps) simp
  next
    case False
    then obtain v where v: "w = Suc v" "0 < v"
      using 1(2,3) by (cases w; cases "w - 1") auto
    then have "n div 10 < 10 ^ v" using 1(3) by (simp add: less_mult_imp_div_less)
    then show ?thesis using 1(1) [OF False v(2)] False v by (subst shown.simps) simp
  qed
qed

lemma shown_wide_digits [simp]: "list_all is_ascii_digit (shown_wide w n)"
  by (auto simp: shown_wide_def list_all_iff is_ascii_digit_def
      dest: shown_list_all [unfolded list_all_iff, rule_format])

lemma length_shown_wide [simp]: "0 < w \<Longrightarrow> n < 10 ^ w \<Longrightarrow> length (shown_wide w n) = w"
  using length_shown [of w n] by (simp add: shown_wide_def)

lemma run_value_zeros [simp]: "run_value (replicate k 0x30) = 0"
  by (induction k) auto

lemma run_value_shown_wide [simp]: "run_value (shown_wide w n) = n"
  by (simp add: shown_wide_def run_value_append)

lemma shown_wide_not_Nil [simp]: "shown_wide w n \<noteq> []"
  by (simp add: shown_wide_def)

lemma decimal_shown: "n \<le> u64_max \<Longrightarrow> decimal (shown n) = Some n"
  by (simp add: decimal_iff shown_digits)

lemma decimal_shown_wide: "n \<le> u64_max \<Longrightarrow> decimal (shown_wide w n) = Some n"
  by (simp add: decimal_iff all_digits_def)

lemma split_digits_run:
  assumes "all_digits bs" "rest = [] \<or> \<not> is_ascii_digit (hd rest)"
  shows "split_digits (bs @ rest) = map_option (\<lambda>n. (n, rest)) (decimal bs)"
proof -
  have all: "\<And>x. x \<in> set bs \<Longrightarrow> is_ascii_digit x" using assms(1) by (auto simp: all_digits_def list_all_iff)
  have "takeWhile is_ascii_digit (bs @ rest) = bs" "dropWhile is_ascii_digit (bs @ rest) = rest"
    using assms(2) all by (cases rest; simp)+
  then show ?thesis by (simp add: split_digits_def)
qed

lemma take_term_shown:
  assumes "n \<le> u64_max" "\<not> is_ascii_digit c"
  shows "take_term (shown n @ c # rest) d = (if c = d then Some (n, rest) else None)"
  using split_digits_run [OF shown_digits, of "c # rest" n] assms
  by (simp add: take_term_def decimal_shown)

lemma take_term_no_digit:
  "bs = [] \<or> \<not> is_ascii_digit (hd bs) \<Longrightarrow> take_term bs d = None"
  by (cases bs) (auto simp: take_term_def split_digits_def decimal_def)

lemma split_at_octet_Some: "split_at_octet sep bs = Some (head, tail) \<Longrightarrow> bs = head @ sep # tail \<and> sep \<notin> set head"
  by (induction bs arbitrary: head) (auto split: if_splits)

lemma split_at_octet_append: "sep \<notin> set head \<Longrightarrow> split_at_octet sep (head @ sep # tail) = Some (head, tail)"
  by (induction head) auto

lemma split_at_octet_iff:
  "split_at_octet sep bs = Some (head, tail) \<longleftrightarrow> bs = head @ sep # tail \<and> sep \<notin> set head"
  using split_at_octet_Some split_at_octet_append by metis

lemma split_at_octet_None: "split_at_octet sep bs = None \<longleftrightarrow> sep \<notin> set bs"
  by (induction bs) auto

lemma split_clock_value:
  assumes "split_clock n = (h, m, s)"
  shows "n = h * 3600 + m * 60 + s \<and> m < 60 \<and> s < 60"
proof -
  have e: "h = n div 3600" "m = n mod 3600 div 60" "s = n mod 60"
    using assms by (simp_all add: split_clock_def)
  have "n mod 3600 mod 60 = n mod 60" by (simp add: mod_mod_cancel)
  then have "n mod 3600 = n mod 3600 div 60 * 60 + n mod 60"
    using div_mult_mod_eq [of "n mod 3600" 60] by simp
  moreover have "n = n div 3600 * 3600 + n mod 3600" by simp
  moreover have "m < 60" "s < 60" by (simp_all add: e less_mult_imp_div_less)
  ultimately show ?thesis unfolding e by linarith
qed

end
