(* ===== verification/Codec_Values.thy ===== *)
theory Codec_Values
  imports Codec_Text Gregorian Caret "HOL-Library.Signed_Division"
begin

text \<open>
  The value codecs of \<open>core/codec.rs\<close> with the value types of \<open>core/view.rs\<close> and the parameter edits
  of \<open>core/change.rs\<close>: one decoder and one encoder per value type of RFC 5545 section 3.3, and the
  parameters a written value implies.  A decoder that answers a \<open>DiagnosticCode\<close> is a sum; the
  private readers that answer an \<open>Option\<close> are options.  An encoder appends to the buffer it is
  given and says whether it refused.
\<close>

section \<open>Parameter edits\<close>

record parameter_edit =
  ed_name :: octets
  ed_value :: "octets option"

definition edit_set :: "octets \<Rightarrow> octets \<Rightarrow> parameter_edit" where
  "edit_set name v = \<lparr>ed_name = name, ed_value = Some v\<rparr>"

definition edit_remove :: "octets \<Rightarrow> parameter_edit" where
  "edit_remove name = \<lparr>ed_name = name, ed_value = None\<rparr>"

section \<open>Value types\<close>

datatype value_type =
  TyBinary | TyBoolean | TyCalAddress | TyDate | TyDateTime | TyDuration | TyFloat | TyInteger
| TyPeriod | TyRecur | TyText | TyTime | TyUri | TyUtcOffset

fun value_type_as_bytes :: "value_type \<Rightarrow> octets" where
  "value_type_as_bytes TyBinary = ascii ''BINARY''"
| "value_type_as_bytes TyBoolean = ascii ''BOOLEAN''"
| "value_type_as_bytes TyCalAddress = ascii ''CAL-ADDRESS''"
| "value_type_as_bytes TyDate = ascii ''DATE''"
| "value_type_as_bytes TyDateTime = ascii ''DATE-TIME''"
| "value_type_as_bytes TyDuration = ascii ''DURATION''"
| "value_type_as_bytes TyFloat = ascii ''FLOAT''"
| "value_type_as_bytes TyInteger = ascii ''INTEGER''"
| "value_type_as_bytes TyPeriod = ascii ''PERIOD''"
| "value_type_as_bytes TyRecur = ascii ''RECUR''"
| "value_type_as_bytes TyText = ascii ''TEXT''"
| "value_type_as_bytes TyTime = ascii ''TIME''"
| "value_type_as_bytes TyUri = ascii ''URI''"
| "value_type_as_bytes TyUtcOffset = ascii ''UTC-OFFSET''"

definition VALUE_TYPE_SPELLINGS :: "(value_type \<times> octets) list" where
  "VALUE_TYPE_SPELLINGS =
     [(TyBinary, ascii ''BINARY''), (TyBoolean, ascii ''BOOLEAN''),
      (TyCalAddress, ascii ''CAL-ADDRESS''), (TyDate, ascii ''DATE''),
      (TyDateTime, ascii ''DATE-TIME''), (TyDuration, ascii ''DURATION''),
      (TyFloat, ascii ''FLOAT''), (TyInteger, ascii ''INTEGER''), (TyPeriod, ascii ''PERIOD''),
      (TyRecur, ascii ''RECUR''), (TyText, ascii ''TEXT''), (TyTime, ascii ''TIME''),
      (TyUri, ascii ''URI''), (TyUtcOffset, ascii ''UTC-OFFSET'')]"

definition value_type_from_name :: "octets \<Rightarrow> value_type option" where
  "value_type_from_name name =
     map_option fst (find (\<lambda>(_, spelling). eq_ignore_ascii_case spelling name) VALUE_TYPE_SPELLINGS)"

section \<open>Dates and times\<close>

definition DATE_LEN :: nat where "DATE_LEN = 8"
definition TIME_LEN :: nat where "TIME_LEN = 6"
definition DATE_TIME_LEN :: nat where "DATE_TIME_LEN = 15"
definition UTC_DATE_TIME_LEN :: nat where "UTC_DATE_TIME_LEN = 16"

lemmas length_consts = DATE_LEN_def TIME_LEN_def DATE_TIME_LEN_def UTC_DATE_TIME_LEN_def

definition decode_date :: "octets \<Rightarrow> civil_date option" where
  "decode_date bytes =
     (if length bytes \<noteq> DATE_LEN then None
      else do {
        y' \<leftarrow> field bytes 0 4; y \<leftarrow> u16_of_u64 y';
        m' \<leftarrow> field bytes 4 6; m \<leftarrow> u8_of_u64 m';
        d' \<leftarrow> field bytes 6 8; d \<leftarrow> u8_of_u64 d';
        date_from_ymd y m d
      })"

definition decode_time :: "octets \<Rightarrow> civil_time option" where
  "decode_time bytes =
     (if length bytes \<noteq> TIME_LEN then None
      else do {
        h' \<leftarrow> field bytes 0 2; h \<leftarrow> u8_of_u64 h';
        m' \<leftarrow> field bytes 2 4; m \<leftarrow> u8_of_u64 m';
        s' \<leftarrow> field bytes 4 6; s \<leftarrow> u8_of_u64 s';
        time_from_hms h m s
      })"

definition decode_date_time :: "octets \<Rightarrow> civil_datetime option" where
  "decode_date_time bytes =
     (if length bytes \<noteq> DATE_TIME_LEN then None
      else do {
        head \<leftarrow> get_range bytes 0 DATE_LEN;
        d \<leftarrow> decode_date head;
        tail \<leftarrow> get_range bytes DATE_LEN (length bytes);
        rest \<leftarrow> after tail (oct CHR ''T'');
        t \<leftarrow> decode_time rest;
        Some \<lparr>date_part = d, time_part = t\<rparr>
      })"

definition decode_date_time_value :: "octets \<Rightarrow> datetime_value option" where
  "decode_date_time_value bytes =
     (if length bytes = DATE_LEN then map_option VDate (decode_date bytes)
      else if length bytes = DATE_TIME_LEN then map_option VLocal (decode_date_time bytes)
      else if length bytes = UTC_DATE_TIME_LEN \<and> bytes \<noteq> [] \<and> last bytes = oct CHR ''Z''
        then do {
          head \<leftarrow> get_range bytes 0 DATE_TIME_LEN;
          map_option VUtc (decode_date_time head)
        }
      else None)"

definition encode_date :: "civil_date \<Rightarrow> octets \<Rightarrow> encoding" where
  "encode_date d out =
     write_formatted out (shown_wide 4 (year d) @ shown_wide 2 (month d) @ shown_wide 2 (day d))"

definition encode_time :: "civil_time \<Rightarrow> octets \<Rightarrow> encoding" where
  "encode_time t out =
     write_formatted out (shown_wide 2 (hour t) @ shown_wide 2 (minute t) @ shown_wide 2 (second t))"

definition or_code :: "diagnostic_code \<Rightarrow> 'a option \<Rightarrow> diagnostic_code + 'a" where
  "or_code code r = (case r of Some v \<Rightarrow> Inr v | None \<Rightarrow> Inl code)"

definition date_decode_value :: "octets \<Rightarrow> diagnostic_code + civil_date" where
  "date_decode_value bytes = or_code (Reading MalformedDate) (decode_date bytes)"

definition time_decode_value :: "octets \<Rightarrow> diagnostic_code + civil_time" where
  "time_decode_value bytes = or_code (Reading MalformedTime) (decode_time bytes)"

definition datetime_decode_value :: "octets \<Rightarrow> diagnostic_code + civil_datetime" where
  "datetime_decode_value bytes = or_code (Reading MalformedDateTime) (decode_date_time bytes)"

definition dtv_decode_value :: "octets \<Rightarrow> diagnostic_code + datetime_value" where
  "dtv_decode_value bytes = or_code (Reading MalformedDateTime) (decode_date_time_value bytes)"

fun names_a_writable_zone :: "datetime_value \<Rightarrow> bool" where
  "names_a_writable_zone (VZoned _ tzid) = (tzid \<noteq> [])"
| "names_a_writable_zone _ = True"

definition push_octet :: "octets \<Rightarrow> octet \<Rightarrow> octets" where
  "push_octet out b = out @ [b]"

definition encode_stamp :: "civil_datetime \<Rightarrow> octets \<Rightarrow> encoding" where
  "encode_stamp stamp out =
     and_then (encode_date (date_part stamp) out) (\<lambda>_ out.
       encode_time (time_part stamp) (push_octet out (oct CHR ''T'')))"

definition dtv_encode_value :: "datetime_value \<Rightarrow> octets \<Rightarrow> encoding" where
  "dtv_encode_value v out =
     (if \<not> names_a_writable_zone v then (Inl MutNotRepresentable, out)
      else case v of
        VDate d \<Rightarrow> encode_date d out
      | VLocal stamp \<Rightarrow> encode_stamp stamp out
      | VZoned stamp _ \<Rightarrow> encode_stamp stamp out
      | VUtc stamp \<Rightarrow>
          and_then (encode_stamp stamp out) (\<lambda>_ out. (Inr (), push_octet out (oct CHR ''Z''))))"

definition VALUE_name :: octets where "VALUE_name = ascii ''VALUE''"
definition TZID_name :: octets where "TZID_name = ascii ''TZID''"
definition ENCODING_name :: octets where "ENCODING_name = ascii ''ENCODING''"

fun dtv_coupled_parameters :: "datetime_value \<Rightarrow> parameter_edit list" where
  "dtv_coupled_parameters (VDate _) =
     [edit_set VALUE_name (value_type_as_bytes TyDate), edit_remove TZID_name]"
| "dtv_coupled_parameters (VLocal _) = [edit_remove VALUE_name, edit_remove TZID_name]"
| "dtv_coupled_parameters (VUtc _) = [edit_remove VALUE_name, edit_remove TZID_name]"
| "dtv_coupled_parameters (VZoned _ tzid) = [edit_remove VALUE_name, edit_set TZID_name tzid]"

section \<open>Durations\<close>

definition SECONDS_PER_DAY :: int where "SECONDS_PER_DAY = 86400"
definition DAYS_PER_WEEK_u64 :: nat where "DAYS_PER_WEEK_u64 = 7"

fun duration_terms ::
  "(octet \<times> nat) list \<Rightarrow> octets \<Rightarrow> nat \<Rightarrow> bool \<Rightarrow> (nat \<times> octets \<times> bool) option" where
  "duration_terms [] rest secs saw_term = Some (secs, rest, saw_term)"
| "duration_terms ((designator, scale) # more') rest secs saw_term =
     (case take_term rest designator of
        Some (counted, tail) \<Rightarrow> do {
          scaled \<leftarrow> mulu64 counted scale;
          secs' \<leftarrow> addu64 secs scaled;
          duration_terms more' tail secs' True
        }
      | None \<Rightarrow> duration_terms more' rest secs saw_term)"

definition duration_time :: "octets \<Rightarrow> nat option" where
  "duration_time bytes =
     (case duration_terms [(oct CHR ''H'', 3600), (oct CHR ''M'', 60), (oct CHR ''S'', 1)] bytes 0 False of
        None \<Rightarrow> None
      | Some (secs, rest, saw_term) \<Rightarrow> if \<not> saw_term \<or> rest \<noteq> [] then None else Some secs)"

definition duration_body :: "octets \<Rightarrow> (nat \<times> nat) option" where
  "duration_body bytes =
     (case take_term bytes (oct CHR ''W'') of
        Some (weeks, rest) \<Rightarrow>
          if rest \<noteq> [] then None else map_option (\<lambda>days. (days, 0)) (mulu64 weeks DAYS_PER_WEEK_u64)
      | None \<Rightarrow>
          (let (days, rest, dated) = (case take_term bytes (oct CHR ''D'') of
                 Some (days, rest) \<Rightarrow> (days, rest, True)
               | None \<Rightarrow> (0, bytes, False))
           in case after rest (oct CHR ''T'') of
                Some clock \<Rightarrow> map_option (\<lambda>secs. (days, secs)) (duration_time clock)
              | None \<Rightarrow> if dated \<and> rest = [] then Some (days, 0) else None))"

definition decode_duration :: "octets \<Rightarrow> duration option" where
  "decode_duration bytes =
     (case split_sign bytes of
        (negative, digits) \<Rightarrow> do {
          body \<leftarrow> after digits (oct CHR ''P'');
          (days', seconds') \<leftarrow> duration_body body;
          days \<leftarrow> i64_of_u64 days';
          secs \<leftarrow> i64_of_u64 seconds';
          (if negative then do {
             days \<leftarrow> sub64 0 days;
             secs \<leftarrow> sub64 0 secs;
             Some \<lparr>span_days = days, span_seconds = secs\<rparr>
           }
           else Some \<lparr>span_days = days, span_seconds = secs\<rparr>)
        })"

definition single_signed :: "duration \<Rightarrow> (int \<times> int) option" where
  "single_signed v =
     (let days = span_days v; secs = span_seconds v in
      if (0 \<le> days) = (0 \<le> secs) then Some (days, secs)
      else do {
        scaled \<leftarrow> mul64 days SECONDS_PER_DAY;
        total' \<leftarrow> add64 scaled secs;
        Some (total' sdiv SECONDS_PER_DAY, total' smod SECONDS_PER_DAY)
      })"

definition encode_duration_time :: "nat \<Rightarrow> octets \<Rightarrow> encoding" where
  "encode_duration_time secs out =
     (case split_clock secs of
        (h, m, s) \<Rightarrow> write_formatted out
          ([oct CHR ''T''] @ shown h @ [oct CHR ''H''] @ shown m @ [oct CHR ''M''] @ shown s
            @ [oct CHR ''S'']))"

definition I64_MIN :: int where "I64_MIN = - 9223372036854775808"

definition duration_decode_value :: "octets \<Rightarrow> diagnostic_code + duration" where
  "duration_decode_value bytes = or_code (Reading MalformedDuration) (decode_duration bytes)"

definition duration_encode_value :: "duration \<Rightarrow> octets \<Rightarrow> encoding" where
  "duration_encode_value v out =
     (case single_signed v of
        None \<Rightarrow> (Inl MutNotRepresentable, out)
      | Some (days, secs) \<Rightarrow>
          if days = I64_MIN \<or> secs = I64_MIN then (Inl MutNotRepresentable, out)
          else
            let out1 = (if days < 0 \<or> secs < 0 then push_octet out (oct CHR ''-'') else out);
                out2 = push_octet out1 (oct CHR ''P'')
            in and_then
                 (if days \<noteq> 0 then write_formatted out2 (shown (nat \<bar>days\<bar>) @ [oct CHR ''D''])
                  else (Inr (), out2))
                 (\<lambda>_ out. if secs \<noteq> 0 \<or> days = 0 then encode_duration_time (nat \<bar>secs\<bar>) out
                          else (Inr (), out)))"

definition duration_coupled_parameters :: "duration \<Rightarrow> parameter_edit list" where
  "duration_coupled_parameters v = [edit_remove VALUE_name]"

section \<open>Periods\<close>

datatype period_value =
  PExplicit datetime_value datetime_value
| PStarting datetime_value duration

fun period_value_start :: "period_value \<Rightarrow> datetime_value" where
  "period_value_start (PExplicit s _) = s"
| "period_value_start (PStarting s _) = s"

definition decode_period_bound :: "octets \<Rightarrow> datetime_value option" where
  "decode_period_bound bytes =
     (case decode_date_time_value bytes of
        Some (VLocal stamp) \<Rightarrow> Some (VLocal stamp)
      | Some (VUtc stamp) \<Rightarrow> Some (VUtc stamp)
      | _ \<Rightarrow> None)"

definition is_positive :: "duration \<Rightarrow> bool" where
  "is_positive span \<longleftrightarrow>
     (case single_signed span of Some (days, secs) \<Rightarrow> 0 < days \<or> 0 < secs | None \<Rightarrow> False)"

definition is_period_bound :: "datetime_value \<Rightarrow> bool" where
  "is_period_bound b \<longleftrightarrow> dtv_time b \<noteq> None \<and> names_a_writable_zone b"

definition zones_disagree :: "datetime_value \<Rightarrow> datetime_value \<Rightarrow> bool" where
  "zones_disagree s e \<longleftrightarrow>
     (case (dtv_tzid s, dtv_tzid e) of (Some a, Some b) \<Rightarrow> a \<noteq> b | _ \<Rightarrow> False)"

definition decode_period :: "octets \<Rightarrow> period_value option" where
  "decode_period bytes = do {
     (head, rest) \<leftarrow> split_at_octet (oct CHR ''/'') bytes;
     s \<leftarrow> decode_period_bound head;
     (case decode_period_bound rest of
        Some e \<Rightarrow> Some (PExplicit s e)
      | None \<Rightarrow> do {
          d \<leftarrow> decode_duration rest;
          (if \<not> is_positive d then None else Some (PStarting s d))
        })
   }"

fun under_zone :: "datetime_value \<Rightarrow> octets \<Rightarrow> datetime_value" where
  "under_zone (VLocal stamp) tzid = VZoned stamp tzid"
| "under_zone held tzid = held"

definition period_decode_value :: "octets \<Rightarrow> diagnostic_code + period_value" where
  "period_decode_value bytes = or_code (Reading MalformedPeriod) (decode_period bytes)"

fun period_encode_value :: "period_value \<Rightarrow> octets \<Rightarrow> encoding" where
  "period_encode_value (PExplicit s e) out =
     (if \<not> is_period_bound s \<or> \<not> is_period_bound e \<or> zones_disagree s e
      then (Inl MutNotRepresentable, out)
      else and_then (dtv_encode_value s out) (\<lambda>_ out.
             dtv_encode_value e (push_octet out (oct CHR ''/''))))"
| "period_encode_value (PStarting s d) out =
     (if \<not> is_period_bound s \<or> \<not> is_positive d then (Inl MutNotRepresentable, out)
      else and_then (dtv_encode_value s out) (\<lambda>_ out.
             duration_encode_value d (push_octet out (oct CHR ''/''))))"

fun period_zone :: "period_value \<Rightarrow> octets option" where
  "period_zone (PExplicit s e) = (case dtv_tzid s of Some tzid \<Rightarrow> Some tzid | None \<Rightarrow> dtv_tzid e)"
| "period_zone (PStarting s _) = dtv_tzid s"

definition period_coupled_parameters :: "period_value \<Rightarrow> parameter_edit list" where
  "period_coupled_parameters v =
     [edit_set VALUE_name (value_type_as_bytes TyPeriod),
      (case period_zone v of
         Some tzid \<Rightarrow> edit_set TZID_name tzid
       | None \<Rightarrow> edit_remove TZID_name)]"

section \<open>UTC offsets\<close>

definition decode_utc_offset :: "octets \<Rightarrow> utc_offset option" where
  "decode_utc_offset bytes = do {
     (negative, rest) \<leftarrow> (case bytes of
         [] \<Rightarrow> None
       | b # tail \<Rightarrow> if b = oct CHR ''-'' then Some (True, tail)
                     else if b = oct CHR ''+'' then Some (False, tail) else None);
     s \<leftarrow> (if length rest = 4 then Some 0 else if length rest = 6 then field rest 4 6 else None);
     h \<leftarrow> field rest 0 2;
     m \<leftarrow> field rest 2 4;
     (if h > 23 \<or> m > 59 \<or> s > 60 then None
      else do {
        hs \<leftarrow> mulu64 h 3600;
        ms \<leftarrow> mulu64 m 60;
        hms \<leftarrow> addu64 hs ms;
        total' \<leftarrow> addu64 hms s;
        magnitude \<leftarrow> i32_of_u64 total';
        (if negative \<and> magnitude = 0 then None
         else do {
           signed' \<leftarrow> (if negative then sub32 0 magnitude else Some magnitude);
           offset_from_seconds signed'
         })
      })
   }"

definition offset_decode_value :: "octets \<Rightarrow> diagnostic_code + utc_offset" where
  "offset_decode_value bytes = or_code (Reading MalformedUtcOffset) (decode_utc_offset bytes)"

definition offset_encode_value :: "utc_offset \<Rightarrow> octets \<Rightarrow> encoding" where
  "offset_encode_value u out =
     (let total' = offset_seconds u;
          out1 = push_octet out (if total' < 0 then oct CHR ''-'' else oct CHR ''+'')
      in case split_clock (nat \<bar>total'\<bar>) of
           (h, m, s) \<Rightarrow>
             if s = 0 then write_formatted out1 (shown_wide 2 h @ shown_wide 2 m)
             else write_formatted out1 (shown_wide 2 h @ shown_wide 2 m @ shown_wide 2 s))"

definition offset_coupled_parameters :: "utc_offset \<Rightarrow> parameter_edit list" where
  "offset_coupled_parameters u = []"

section \<open>Integers and booleans\<close>

definition decode_integer :: "octets \<Rightarrow> int option" where
  "decode_integer bytes =
     (case split_sign bytes of
        (negative, digits) \<Rightarrow> do {
          magnitude \<leftarrow> decimal digits;
          (if negative then do {
             wide \<leftarrow> i64_of_u64 magnitude;
             signed' \<leftarrow> sub64 0 wide;
             checked_i32 signed'
           }
           else i32_of_u64 magnitude)
        })"

definition integer_decode_value :: "octets \<Rightarrow> diagnostic_code + int" where
  "integer_decode_value bytes = or_code (Reading MalformedInteger) (decode_integer bytes)"

definition integer_encode_value :: "int \<Rightarrow> octets \<Rightarrow> encoding" where
  "integer_encode_value x out = write_formatted out (shown_int x)"

definition integer_coupled_parameters :: "int \<Rightarrow> parameter_edit list" where
  "integer_coupled_parameters x = [edit_remove VALUE_name]"

definition boolean_decode_value :: "octets \<Rightarrow> diagnostic_code + bool" where
  "boolean_decode_value bytes =
     (if eq_ignore_ascii_case bytes (ascii ''TRUE'') then Inr True
      else if eq_ignore_ascii_case bytes (ascii ''FALSE'') then Inr False
      else Inl (Reading MalformedBoolean))"

definition boolean_encode_value :: "bool \<Rightarrow> octets \<Rightarrow> encoding" where
  "boolean_encode_value b out = (Inr (), out @ (if b then ascii ''TRUE'' else ascii ''FALSE''))"

definition boolean_coupled_parameters :: "bool \<Rightarrow> parameter_edit list" where
  "boolean_coupled_parameters b = [edit_remove VALUE_name]"

end
