(* ===== verification/Codec_Round_Trip.thy ===== *)
theory Codec_Round_Trip
  imports Codec_Values
begin

text \<open>
  Reading undoes writing, for every value type an encoder exists for.  The contract of a codec is
  the locale \<open>value_codec\<close>: an encoder appends the text a value determines or refuses before it
  writes anything, the decoder reads that text back, and the text holds no octet a content line
  ends on.
\<close>

section \<open>The contract\<close>

definition is_ascii_control :: "octet \<Rightarrow> bool" where
  "is_ascii_control b \<longleftrightarrow> b \<le> 0x1F \<or> b = 0x7F"

definition plain :: "octets \<Rightarrow> bool" where
  "plain bs \<longleftrightarrow> list_all (\<lambda>b. \<not> is_ascii_control b) bs"

locale value_codec =
  fixes decode :: "octets \<Rightarrow> diagnostic_code + 'v"
    and encode :: "'v \<Rightarrow> octets \<Rightarrow> encoding"
    and writes :: "'v \<Rightarrow> octets option"
    and holds :: "'v \<Rightarrow> bool"
    and canon :: "'v \<Rightarrow> 'v"
  assumes encode_writes: "holds v \<Longrightarrow> encode v out =
      (case writes v of Some t \<Rightarrow> (Inr (), out @ t) | None \<Rightarrow> (Inl MutNotRepresentable, out))"
    and writes_read: "holds v \<Longrightarrow> writes v = Some t \<Longrightarrow> decode t = Inr (canon v)"
    and writes_plain: "holds v \<Longrightarrow> writes v = Some t \<Longrightarrow> plain t"
begin

lemma encoded_read:
  assumes "holds v" "encode v [] = (Inr (), t)"
  shows "decode t = Inr (canon v)" "plain t"
  using assms encode_writes [OF assms(1), of "[]"] writes_read writes_plain
  by (auto split: option.splits)

lemma refused_untouched:
  assumes "holds v" "encode v out = (Inl e, out')"
  shows "e = MutNotRepresentable \<and> out' = out"
  using assms encode_writes [OF assms(1), of out] by (auto split: option.splits)

lemma appended:
  assumes "holds v" "encode v [] = (Inr (), t)"
  shows "encode v out = (Inr (), out @ t)"
  using assms encode_writes [OF assms(1)] by (auto split: option.splits)

end

lemma digits_plain: "list_all is_ascii_digit bs \<Longrightarrow> plain bs"
  by (auto simp: plain_def list_all_iff is_ascii_digit_value is_ascii_control_def word_le_nat_alt
      dest!: bspec)

lemma plain_append [simp]: "plain (as @ bs) \<longleftrightarrow> plain as \<and> plain bs"
  by (simp add: plain_def)

lemma plain_Nil [simp]: "plain []"
  by (simp add: plain_def)

lemma plain_Cons [simp]: "plain (b # bs) \<longleftrightarrow> \<not> is_ascii_control b \<and> plain bs"
  by (simp add: plain_def)

lemma plain_shown [simp]: "plain (shown n)" "plain (shown_wide w n)"
  by (simp_all add: digits_plain)

section \<open>Fixed-width runs\<close>

lemma positional_unique:
  fixes a b n r s :: nat
  assumes "a * n + r = b * n + s" "r < n" "s < n"
  shows "a = b \<and> r = s"
proof -
  have "(a * n + r) div n = a" "(b * n + s) div n = b" using assms(2,3) by simp_all
  with assms(1) have "a = b" by simp
  with assms(1) show ?thesis by simp
qed

lemma run_value_inj:
  assumes "list_all is_ascii_digit as" "list_all is_ascii_digit bs" "length as = length bs"
    and "run_value as = run_value bs"
  shows "as = bs"
  using assms(3,1,2,4)
proof (induction as bs rule: list_induct2)
  case (Cons a as b bs)
  have d: "is_ascii_digit a" "list_all is_ascii_digit as" "is_ascii_digit b" "list_all is_ascii_digit bs"
    using Cons.prems by simp_all
  have eq: "unat (a - 0x30) * 10 ^ length as + run_value as = unat (b - 0x30) * 10 ^ length as + run_value bs"
    using Cons.prems(3) Cons.hyps by (simp only: run_value_simps)
  have "unat (a - 0x30) = unat (b - 0x30) \<and> run_value as = run_value bs"
    by (rule positional_unique [OF eq run_value_less [OF d(2)]])
       (use run_value_less [OF d(4)] Cons.hyps in simp)
  then have "a = b" "run_value as = run_value bs"
    using digit_octet_of_value [OF d(1)] digit_octet_of_value [OF d(3)] by metis+
  then show ?case using Cons.IH [OF d(2,4)] by blast
qed simp

lemma shown_wide_run:
  assumes "list_all is_ascii_digit bs" "bs \<noteq> []"
  shows "shown_wide (length bs) (run_value bs) = bs"
  using assms run_value_less [of bs] by (intro run_value_inj) auto

text \<open>A field of digits, read and written.\<close>

lemma field_iff:
  assumes "start < end'" "end' \<le> length bs" "end' - start \<le> 9"
  shows "field bs start end' = Some n \<longleftrightarrow>
    take (end' - start) (drop start bs) = shown_wide (end' - start) n \<and> n < 10 ^ (end' - start)"
proof -
  let ?f = "take (end' - start) (drop start bs)"
  have len: "length ?f = end' - start" "?f \<noteq> []" using assms by auto
  have small: "m \<le> u64_max" if "m < 10 ^ (end' - start)" for m :: nat
  proof -
    have "(10 :: nat) ^ (end' - start) \<le> 10 ^ 9" using assms by (intro power_increasing) auto
    with that show ?thesis by (simp add: u64_max_def)
  qed
  have "field bs start end' = decimal ?f" using assms by (simp add: field_def get_range_def)
  moreover have "decimal ?f = Some n \<longleftrightarrow> ?f = shown_wide (end' - start) n \<and> n < 10 ^ (end' - start)"
  proof
    assume "decimal ?f = Some n"
    then have "list_all is_ascii_digit ?f" "n = run_value ?f" by (auto simp: decimal_iff all_digits_def)
    then show "?f = shown_wide (end' - start) n \<and> n < 10 ^ (end' - start)"
      using shown_wide_run [of ?f] run_value_less [of ?f] len by simp
  next
    assume r: "?f = shown_wide (end' - start) n \<and> n < 10 ^ (end' - start)"
    then have "n \<le> u64_max" by (intro small) simp
    then show "decimal ?f = Some n" using r decimal_shown_wide [of n "end' - start"] by simp
  qed
  ultimately show ?thesis by simp
qed

section \<open>Dates and times\<close>

definition date_text :: "civil_date \<Rightarrow> octets" where
  "date_text d = shown_wide 4 (year d) @ shown_wide 2 (month d) @ shown_wide 2 (day d)"

definition time_text :: "civil_time \<Rightarrow> octets" where
  "time_text t = shown_wide 2 (hour t) @ shown_wide 2 (minute t) @ shown_wide 2 (second t)"

definition stamp_text :: "civil_datetime \<Rightarrow> octets" where
  "stamp_text s = date_text (date_part s) @ [oct CHR ''T''] @ time_text (time_part s)"

lemma plain_texts [simp]: "plain (date_text d)" "plain (time_text t)"
  by (simp_all add: date_text_def time_text_def)

lemma plain_stamp [simp]: "plain (stamp_text s)"
  by (simp add: stamp_text_def is_ascii_control_def)

lemma length_date_text: "valid_date d \<Longrightarrow> length (date_text d) = 8"
  using valid_date_bounds [of d] by (simp add: date_text_def)

lemma length_time_text: "valid_time t \<Longrightarrow> length (time_text t) = 6"
  by (simp add: time_text_def valid_time_def)

lemma length_stamp_text: "valid_datetime s \<Longrightarrow> length (stamp_text s) = 15"
  by (simp add: stamp_text_def valid_datetime_def length_date_text length_time_text)

lemma three_parts:
  assumes "length bs = a + b + c"
  shows "bs = take a bs @ take b (drop a bs) @ take c (drop (a + b) bs)"
proof -
  have "drop a bs = take b (drop a bs) @ drop (a + b) bs"
    by (metis add.commute append_take_drop_id drop_drop)
  moreover have "take c (drop (a + b) bs) = drop (a + b) bs" using assms by simp
  ultimately show ?thesis by (metis append_take_drop_id)
qed

lemma decode_date_iff: "decode_date bs = Some d \<longleftrightarrow> valid_date d \<and> bs = date_text d"
proof
  assume dec: "decode_date bs = Some d"
  then have len: "length bs = 8" by (auto simp: decode_date_def DATE_LEN_def split: if_splits)
  from dec obtain y m k where f: "field bs 0 4 = Some y" "field bs 4 6 = Some m" "field bs 6 8 = Some k"
    and d: "date_from_ymd y m k = Some d"
    by (auto simp: decode_date_def len DATE_LEN_def bind_eq_Some_conv u16_of_u64_def u8_of_u64_def
        split: if_splits)
  have "take 4 bs = shown_wide 4 y" "take 2 (drop 4 bs) = shown_wide 2 m" "take 2 (drop 6 bs) = shown_wide 2 k"
    using f field_iff [of 0 4 bs y] field_iff [of 4 6 bs m] field_iff [of 6 8 bs k] len by auto
  moreover have "bs = take 4 bs @ take 2 (drop 4 bs) @ take 2 (drop 6 bs)"
    using three_parts [of bs 4 2 2] len by simp
  ultimately show "valid_date d \<and> bs = date_text d"
    using d date_from_ymd_valid [OF d] by (auto simp: date_text_def date_from_ymd_Some_iff)
next
  assume r: "valid_date d \<and> bs = date_text d"
  then have v: "valid_date d" and bs: "bs = date_text d" by auto
  note b = valid_date_bounds [OF v]
  have len: "length bs = 8" using r by (simp add: length_date_text)
  have "field bs 0 4 = Some (year d)" "field bs 4 6 = Some (month d)" "field bs 6 8 = Some (day d)"
    using b len by (simp_all add: field_iff, simp_all add: bs date_text_def)
  then show "decode_date bs = Some d"
    using b v len
    by (simp add: decode_date_def DATE_LEN_def u16_of_u64_def u8_of_u64_def width_defs valid_date_def)
qed

lemma decode_time_iff: "decode_time bs = Some t \<longleftrightarrow> valid_time t \<and> bs = time_text t"
proof
  assume dec: "decode_time bs = Some t"
  then have len: "length bs = 6" by (auto simp: decode_time_def TIME_LEN_def split: if_splits)
  from dec obtain h m s where f: "field bs 0 2 = Some h" "field bs 2 4 = Some m" "field bs 4 6 = Some s"
    and t: "time_from_hms h m s = Some t"
    by (auto simp: decode_time_def len TIME_LEN_def bind_eq_Some_conv u8_of_u64_def split: if_splits)
  have "take 2 bs = shown_wide 2 h" "take 2 (drop 2 bs) = shown_wide 2 m" "take 2 (drop 4 bs) = shown_wide 2 s"
    using f field_iff [of 0 2 bs h] field_iff [of 2 4 bs m] field_iff [of 4 6 bs s] len by auto
  moreover have "bs = take 2 bs @ take 2 (drop 2 bs) @ take 2 (drop 4 bs)"
    using three_parts [of bs 2 2 2] len by simp
  ultimately show "valid_time t \<and> bs = time_text t"
    using t time_from_hms_valid [OF t] by (auto simp: time_text_def time_from_hms_Some_iff)
next
  assume r: "valid_time t \<and> bs = time_text t"
  then have v: "hour t \<le> 23" "minute t \<le> 59" "second t \<le> 60" and bs: "bs = time_text t"
    by (auto simp: valid_time_def)
  have len: "length bs = 6" using r by (simp add: length_time_text)
  have "field bs 0 2 = Some (hour t)" "field bs 2 4 = Some (minute t)" "field bs 4 6 = Some (second t)"
    using v len by (simp_all add: field_iff, simp_all add: bs time_text_def)
  then show "decode_time bs = Some t"
    using v len by (simp add: decode_time_def TIME_LEN_def u8_of_u64_def width_defs time_from_hms_def)
qed

lemma decode_date_time_iff: "decode_date_time bs = Some s \<longleftrightarrow> valid_datetime s \<and> bs = stamp_text s"
proof
  assume dec: "decode_date_time bs = Some s"
  then have len: "length bs = 15" by (auto simp: decode_date_time_def DATE_TIME_LEN_def split: if_splits)
  from dec obtain rest where d: "decode_date (take 8 bs) = Some (date_part s)"
    and t: "decode_time rest = Some (time_part s)" "after (drop 8 bs) (oct CHR ''T'') = Some rest"
    by (auto simp: decode_date_time_def len length_consts bind_eq_Some_conv get_range_def)
  have "drop 8 bs = oct CHR ''T'' # rest" using t(2) by (cases "drop 8 bs") (auto split: if_splits)
  then have "bs = take 8 bs @ oct CHR ''T'' # rest" by (metis append_take_drop_id)
  then show "valid_datetime s \<and> bs = stamp_text s"
    using d t(1) by (simp add: decode_date_iff decode_time_iff valid_datetime_def stamp_text_def)
next
  assume r: "valid_datetime s \<and> bs = stamp_text s"
  then have d: "decode_date (date_text (date_part s)) = Some (date_part s)"
    and t: "decode_time (time_text (time_part s)) = Some (time_part s)"
    and len: "length (date_text (date_part s)) = 8" "length (time_text (time_part s)) = 6"
    by (auto simp: decode_date_iff decode_time_iff valid_datetime_def length_date_text length_time_text)
  then show "decode_date_time bs = Some s"
    using r by (simp add: decode_date_time_def length_consts stamp_text_def get_range_def)
qed

fun valid_dtv :: "datetime_value \<Rightarrow> bool" where
  "valid_dtv (VDate d) = valid_date d"
| "valid_dtv (VLocal s) = valid_datetime s"
| "valid_dtv (VUtc s) = valid_datetime s"
| "valid_dtv (VZoned s tzid) = valid_datetime s"

text \<open>The text of a date-time value, and the value its octets alone stand for.\<close>

fun dtv_text :: "datetime_value \<Rightarrow> octets" where
  "dtv_text (VDate d) = date_text d"
| "dtv_text (VLocal s) = stamp_text s"
| "dtv_text (VUtc s) = stamp_text s @ [oct CHR ''Z'']"
| "dtv_text (VZoned s tzid) = stamp_text s"

fun unzoned :: "datetime_value \<Rightarrow> datetime_value" where
  "unzoned (VZoned s tzid) = VLocal s"
| "unzoned v = v"

definition dtv_writes :: "datetime_value \<Rightarrow> octets option" where
  "dtv_writes v = (if names_a_writable_zone v then Some (dtv_text v) else None)"

lemma decode_date_time_value_iff:
  "decode_date_time_value bs = Some v \<longleftrightarrow> valid_dtv v \<and> dtv_tzid v = None \<and> bs = dtv_text v"
proof
  assume "decode_date_time_value bs = Some v"
  then consider d where "decode_date bs = Some d" "v = VDate d"
    | s where "decode_date_time bs = Some s" "v = VLocal s"
    | s where "decode_date_time (take 15 bs) = Some s" "v = VUtc s" "bs \<noteq> []"
        "last bs = oct CHR ''Z''" "length bs = 16"
    by (auto simp: decode_date_time_value_def length_consts get_range_def split: if_splits)
  then show "valid_dtv v \<and> dtv_tzid v = None \<and> bs = dtv_text v"
  proof cases
    case 3
    then have "bs = take 15 bs @ [last bs]"
      by (metis append_butlast_last_id butlast_conv_take diff_Suc_1 numeral_eq_Suc pred_numeral_simps(2,3)
          semiring_norm(26,27,28))
    with 3 show ?thesis by (simp add: decode_date_time_iff)
  qed (auto simp: decode_date_iff decode_date_time_iff)
next
  assume r: "valid_dtv v \<and> dtv_tzid v = None \<and> bs = dtv_text v"
  show "decode_date_time_value bs = Some v"
  proof (cases v)
    case (VDate d)
    then show ?thesis
      using r decode_date_iff [of bs d] length_date_text [of d]
      by (simp add: decode_date_time_value_def length_consts)
  next
    case (VLocal s)
    then show ?thesis
      using r decode_date_time_iff [of bs s] length_stamp_text [of s]
      by (simp add: decode_date_time_value_def length_consts)
  next
    case (VUtc s)
    then show ?thesis
      using r decode_date_time_iff [of "stamp_text s" s] length_stamp_text [of s]
      by (simp add: decode_date_time_value_def length_consts get_range_def)
  qed (use r in simp)
qed

lemma encode_stamp_writes: "encode_stamp s out = (Inr (), out @ stamp_text s)"
  by (simp add: encode_stamp_def encode_date_def encode_time_def write_formatted_def push_octet_def
      stamp_text_def date_text_def time_text_def)

interpretation dtv: value_codec
  dtv_decode_value dtv_encode_value dtv_writes valid_dtv unzoned
proof unfold_locales
  fix v out assume "valid_dtv v"
  then show "dtv_encode_value v out =
      (case dtv_writes v of Some t \<Rightarrow> (Inr (), out @ t) | None \<Rightarrow> (Inl MutNotRepresentable, out))"
    by (cases v)
       (simp_all add: dtv_encode_value_def dtv_writes_def encode_stamp_writes push_octet_def
         encode_date_def write_formatted_def date_text_def)
next
  fix v t assume "valid_dtv v" "dtv_writes v = Some t"
  then have "valid_dtv (unzoned v)" "dtv_tzid (unzoned v) = None" "t = dtv_text (unzoned v)"
    by (cases v; auto simp: dtv_writes_def split: if_splits)+
  then show "dtv_decode_value t = Inr (unzoned v)"
    by (simp add: dtv_decode_value_def or_code_def decode_date_time_value_iff [THEN iffD2])
next
  fix v t assume "valid_dtv v" "dtv_writes v = Some t"
  then show "plain t"
    by (cases v) (auto simp: dtv_writes_def is_ascii_control_def split: if_splits)
qed

section \<open>Durations\<close>

definition clock_text :: "nat \<Rightarrow> octets" where
  "clock_text n = (case split_clock n of
     (h, m, s) \<Rightarrow> [oct CHR ''T''] @ shown h @ [oct CHR ''H''] @ shown m @ [oct CHR ''M''] @ shown s
       @ [oct CHR ''S''])"

definition duration_text :: "int \<Rightarrow> int \<Rightarrow> octets" where
  "duration_text days secs =
     (if days < 0 \<or> secs < 0 then [oct CHR ''-''] else []) @ [oct CHR ''P'']
     @ (if days \<noteq> 0 then shown (nat \<bar>days\<bar>) @ [oct CHR ''D''] else [])
     @ (if secs \<noteq> 0 \<or> days = 0 then clock_text (nat \<bar>secs\<bar>) else [])"

definition duration_writes :: "duration \<Rightarrow> octets option" where
  "duration_writes v =
     (case single_signed v of
        None \<Rightarrow> None
      | Some (days, secs) \<Rightarrow>
          if days = I64_MIN \<or> secs = I64_MIN then None else Some (duration_text days secs))"

text \<open>The span a duration is written as: both fields agree in sign, and it lasts as long.\<close>

definition reconciled :: "duration \<Rightarrow> duration" where
  "reconciled v = (case single_signed v of
     Some (days, secs) \<Rightarrow> \<lparr>span_days = days, span_seconds = secs\<rparr> | None \<Rightarrow> v)"

lemma sdiv_smod_day:
  fixes t :: int
  shows "t sdiv 86400 * 86400 + t smod 86400 = t" "\<bar>t sdiv 86400\<bar> \<le> \<bar>t\<bar>" "\<bar>t smod 86400\<bar> < 86400"
    "0 \<le> t \<Longrightarrow> 0 \<le> t sdiv 86400 \<and> 0 \<le> t smod 86400"
    "t \<le> 0 \<Longrightarrow> t sdiv 86400 \<le> 0 \<and> t smod 86400 \<le> 0"
proof -
  define q where "q = \<bar>t\<bar> div 86400"
  define r where "r = \<bar>t\<bar> mod 86400"
  have "\<bar>t\<bar> = q * 86400 + r" by (simp add: q_def r_def)
  moreover have "0 \<le> r" "r < 86400" "0 \<le> q" by (simp_all add: q_def r_def)
  moreover have "t sdiv 86400 = (if t < 0 then - q else q)" "t smod 86400 = (if t < 0 then - r else r)"
    by (auto simp: signed_divide_int_def signed_modulo_int_def sgn_if q_def r_def)
  ultimately show "t sdiv 86400 * 86400 + t smod 86400 = t" "\<bar>t sdiv 86400\<bar> \<le> \<bar>t\<bar>"
    "\<bar>t smod 86400\<bar> < 86400" "0 \<le> t \<Longrightarrow> 0 \<le> t sdiv 86400 \<and> 0 \<le> t smod 86400"
    "t \<le> 0 \<Longrightarrow> t sdiv 86400 \<le> 0 \<and> t smod 86400 \<le> 0"
    by (auto split: if_splits)
qed

lemma single_signed_facts:
  assumes "single_signed v = Some (days, secs)" "valid_duration v"
  shows "days * 86400 + secs = span_days v * 86400 + span_seconds v"
    "in_i64 days" "in_i64 secs" "days < 0 \<or> secs < 0 \<Longrightarrow> days \<le> 0 \<and> secs \<le> 0"
proof -
  have "days * 86400 + secs = span_days v * 86400 + span_seconds v \<and> in_i64 days \<and> in_i64 secs
      \<and> (days < 0 \<or> secs < 0 \<longrightarrow> days \<le> 0 \<and> secs \<le> 0)"
  proof (cases "(0 \<le> span_days v) = (0 \<le> span_seconds v)")
    case True
    then show ?thesis using assms by (auto simp: single_signed_def Let_def valid_duration_def)
  next
    case False
    define t where "t = span_days v * 86400 + span_seconds v"
    have e: "days = t sdiv 86400" "secs = t smod 86400" "in_i64 t"
      using assms(1) False
      by (auto simp: single_signed_def Let_def t_def SECONDS_PER_DAY_def bind_eq_Some_conv checked_defs
          split: if_splits)
    have "\<bar>days\<bar> \<le> \<bar>t\<bar>" "\<bar>secs\<bar> < 86400" "t \<le> 0 \<longrightarrow> days \<le> 0"
      using sdiv_smod_day(2,3,5) [of t] e by simp_all
    then have "in_i64 days" "in_i64 secs"
      using e(3) by (auto simp: in_i64_def abs_if split: if_splits)
    moreover have "days < 0 \<or> secs < 0 \<longrightarrow> days \<le> 0 \<and> secs \<le> 0"
      using sdiv_smod_day(4,5) [of t] unfolding e by linarith
    ultimately show ?thesis using sdiv_smod_day(1) [of t] e by (simp add: t_def)
  qed
  then show "days * 86400 + secs = span_days v * 86400 + span_seconds v"
    "in_i64 days" "in_i64 secs" "days < 0 \<or> secs < 0 \<Longrightarrow> days \<le> 0 \<and> secs \<le> 0" by auto
qed

text \<open>The designators are neither digits nor control characters.\<close>

lemma designators_not_digits [simp]:
  "\<not> is_ascii_digit 0x54" "\<not> is_ascii_digit 0x48" "\<not> is_ascii_digit 0x4D" "\<not> is_ascii_digit 0x53" "\<not> is_ascii_digit 0x44" "\<not> is_ascii_digit 0x57" "\<not> is_ascii_digit 0x50" "\<not> is_ascii_digit 0x2D" "\<not> is_ascii_digit 0x2B" "\<not> is_ascii_digit 0x2F"
  by (simp_all add: is_ascii_digit_def)

lemma designators_not_control [simp]:
  "\<not> is_ascii_control 0x54" "\<not> is_ascii_control 0x48" "\<not> is_ascii_control 0x4D"
  "\<not> is_ascii_control 0x53" "\<not> is_ascii_control 0x44" "\<not> is_ascii_control 0x57"
  "\<not> is_ascii_control 0x50" "\<not> is_ascii_control 0x2D" "\<not> is_ascii_control 0x2B"
  "\<not> is_ascii_control 0x2F" "\<not> is_ascii_control 0x5A"
  by (simp_all add: is_ascii_control_def)

lemma duration_time_clock:
  assumes "n \<le> u64_max"
  shows "\<exists>rest. clock_text n = oct CHR ''T'' # rest \<and> duration_time rest = Some n"
proof -
  obtain h m s where c: "split_clock n = (h, m, s)" by (rule prod_cases3)
  note v = split_clock_value [OF c]
  have small: "h \<le> u64_max" "m \<le> u64_max" "s \<le> u64_max" "h * 3600 \<le> u64_max" "m * 60 \<le> u64_max"
    "h * 3600 + m * 60 \<le> u64_max" "h * 3600 + m * 60 + s \<le> u64_max"
    using v assms by (auto simp: u64_max_def)
  let ?rest = "shown h @ oct CHR ''H'' # shown m @ oct CHR ''M'' # shown s @ [oct CHR ''S'']"
  have "duration_time ?rest = Some n"
    using small v by (simp add: duration_time_def take_term_shown u64_defs)
  then show ?thesis by (simp add: clock_text_def c)
qed

lemma duration_body_text:
  assumes "d \<le> u64_max" "s \<le> u64_max"
  shows "duration_body ((if d \<noteq> 0 then shown d @ [oct CHR ''D''] else [])
      @ (if s \<noteq> 0 \<or> d = 0 then clock_text s else [])) = Some (d, s)"
proof -
  obtain rest where r: "clock_text s = oct CHR ''T'' # rest" "duration_time rest = Some s"
    using duration_time_clock [OF assms(2)] by blast
  show ?thesis
  proof (cases "d = 0")
    case True
    then show ?thesis using r by (simp add: duration_body_def take_term_no_digit)
  next
    case False
    then show ?thesis
      using r assms take_term_shown [of d "oct CHR ''D''"]
      by (auto simp: duration_body_def)
  qed
qed

lemma i64_of_nat_abs: "in_i64 x \<Longrightarrow> x \<noteq> I64_MIN \<Longrightarrow> i64_of_u64 (nat \<bar>x\<bar>) = Some \<bar>x\<bar> \<and> nat \<bar>x\<bar> \<le> u64_max"
  by (auto simp: i64_of_u64_def checked_i64_def in_i64_def I64_MIN_def u64_max_def)

lemma decode_duration_text:
  assumes "in_i64 d" "in_i64 s" "d \<noteq> I64_MIN" "s \<noteq> I64_MIN" "d < 0 \<or> s < 0 \<Longrightarrow> d \<le> 0 \<and> s \<le> 0"
  shows "decode_duration (duration_text d s) = Some \<lparr>span_days = d, span_seconds = s\<rparr>"
proof -
  note nd = i64_of_nat_abs [OF assms(1,3)] and ns = i64_of_nat_abs [OF assms(2,4)]
  define body where "body = (if nat \<bar>d\<bar> \<noteq> 0 then shown (nat \<bar>d\<bar>) @ [oct CHR ''D''] else [])
    @ (if nat \<bar>s\<bar> \<noteq> 0 \<or> nat \<bar>d\<bar> = 0 then clock_text (nat \<bar>s\<bar>) else [])"
  have body: "duration_body body = Some (nat \<bar>d\<bar>, nat \<bar>s\<bar>)"
    unfolding body_def using nd ns by (intro duration_body_text) simp_all
  have whole: "duration_text d s = (if d < 0 \<or> s < 0 then [oct CHR ''-''] else []) @ oct CHR ''P'' # body"
    by (simp add: duration_text_def body_def)
  have neg: "sub64 0 \<bar>x\<bar> = Some (- \<bar>x\<bar>)" if "in_i64 x" for x :: int
    using that by (auto simp: checked_defs in_i64_def)
  show ?thesis
    using nd ns body neg [OF assms(1)] neg [OF assms(2)] assms(5)
    unfolding whole by (auto simp: decode_duration_def)
qed

lemma plain_clock [simp]: "plain (clock_text n)"
  by (simp add: clock_text_def split: prod.splits)

interpretation duration: value_codec
  duration_decode_value duration_encode_value duration_writes valid_duration reconciled
proof unfold_locales
  fix v out assume "valid_duration v"
  show "duration_encode_value v out =
      (case duration_writes v of Some t \<Rightarrow> (Inr (), out @ t) | None \<Rightarrow> (Inl MutNotRepresentable, out))"
    by (auto simp: duration_encode_value_def duration_writes_def duration_text_def Let_def push_octet_def
        write_formatted_def encode_duration_time_def clock_text_def split: option.splits prod.splits)
next
  fix v t assume v: "valid_duration v" "duration_writes v = Some t"
  then obtain d s where s: "single_signed v = Some (d, s)" "d \<noteq> I64_MIN" "s \<noteq> I64_MIN" "t = duration_text d s"
    by (auto simp: duration_writes_def split: option.splits if_splits)
  show "duration_decode_value t = Inr (reconciled v)"
    using decode_duration_text [OF single_signed_facts(2,3) [OF s(1) v(1)] s(2,3)
        single_signed_facts(4) [OF s(1) v(1)]] s
    by (simp add: duration_decode_value_def or_code_def reconciled_def)
next
  fix v t assume "valid_duration v" "duration_writes v = Some t"
  then show "plain t"
    by (auto simp: duration_writes_def duration_text_def split: option.splits if_splits)
qed

section \<open>UTC offsets, integers and booleans\<close>

definition offset_text :: "utc_offset \<Rightarrow> octets" where
  "offset_text u =
     (if offset_seconds u < 0 then oct CHR ''-'' else oct CHR ''+'')
     # (case split_clock (nat \<bar>offset_seconds u\<bar>) of
          (h, m, s) \<Rightarrow> shown_wide 2 h @ shown_wide 2 m @ (if s = 0 then [] else shown_wide 2 s))"

interpretation offset: value_codec
  offset_decode_value offset_encode_value "\<lambda>u. Some (offset_text u)" valid_offset "\<lambda>u. u"
proof unfold_locales
  fix u t assume u: "valid_offset u" and t: "Some (offset_text u) = Some t"
  obtain h m s where c: "split_clock (nat \<bar>offset_seconds u\<bar>) = (h, m, s)" by (rule prod_cases3)
  note v = split_clock_value [OF c]
  have n: "nat \<bar>offset_seconds u\<bar> < 86400" using u by (auto simp: valid_offset_def)
  then have small: "h < 24" "m < 60" "s < 60" using v by auto
  define rest where "rest = shown_wide 2 h @ shown_wide 2 m @ (if s = 0 then [] else shown_wide 2 s)"
  have len: "length rest = (if s = 0 then 4 else 6)" using small by (simp add: rest_def)
  have f: "field rest 0 2 = Some h" "field rest 2 4 = Some m" "s \<noteq> 0 \<Longrightarrow> field rest 4 6 = Some s"
    using small len by (simp_all add: field_iff, simp_all add: rest_def)
  have abs: "int (h * 3600 + m * 60 + s) = \<bar>offset_seconds u\<bar>" using v by linarith
  have whole: "offset_text u = (if offset_seconds u < 0 then oct CHR ''-'' else oct CHR ''+'') # rest"
    by (simp add: offset_text_def c rest_def)
  have again: "offset_from_seconds (offset_seconds u) = Some u"
    using u by (auto simp: offset_from_seconds_def valid_offset_def)
  have steps: "mulu64 h 3600 = Some (h * 3600)" "mulu64 m 60 = Some (m * 60)"
    "addu64 (h * 3600) (m * 60) = Some (h * 3600 + m * 60)"
    "addu64 (h * 3600 + m * 60) s = Some (h * 3600 + m * 60 + s)"
    "i32_of_u64 (h * 3600 + m * 60 + s) = Some \<bar>offset_seconds u\<bar>"
    "sub32 0 \<bar>offset_seconds u\<bar> = Some (- \<bar>offset_seconds u\<bar>)"
    using small u abs
    by (auto simp: u64_defs u64_max_def i32_of_u64_def checked_i32_def in_i32_def sub32_def valid_offset_def)
  have "(if length rest = 4 then Some 0 else if length rest = 6 then field rest 4 6 else None) = Some s"
    using f(3) len by auto
  then have "decode_utc_offset (offset_text u) = Some u"
    using f(1,2) small steps again
    unfolding whole by (auto simp: decode_utc_offset_def)
  then show "offset_decode_value t = Inr u" using t by (simp add: offset_decode_value_def or_code_def)
qed (auto simp: offset_encode_value_def offset_text_def Let_def push_octet_def write_formatted_def
    split: prod.splits)

lemma decode_integer_shown: "in_i32 x \<Longrightarrow> decode_integer (shown_int x) = Some x"
proof -
  assume x: "in_i32 x"
  then have m: "decimal (shown (nat \<bar>x\<bar>)) = Some (nat \<bar>x\<bar>)"
    by (intro decimal_shown) (auto simp: in_i32_def u64_max_def)
  obtain b bs where s: "shown (nat \<bar>x\<bar>) = b # bs" "is_ascii_digit b"
    using shown_list_all [of "nat \<bar>x\<bar>"] by (cases "shown (nat \<bar>x\<bar>)") auto
  then have "b \<noteq> 0x2D" "b \<noteq> 0x2B" by (auto simp: is_ascii_digit_def)
  then have "split_sign (shown_int x) = (x < 0, shown (nat \<bar>x\<bar>))" by (simp add: shown_int_def s)
  then show ?thesis
    using x m by (auto simp: decode_integer_def i64_of_u64_def i32_of_u64_def checked_defs in_i64_def in_i32_def)
qed

lemma plain_shown_int [simp]: "plain (shown_int x)"
  by (simp add: shown_int_def)

interpretation integer: value_codec
  integer_decode_value integer_encode_value "\<lambda>x. Some (shown_int x)" in_i32 "\<lambda>x. x"
  by unfold_locales
     (auto simp: integer_encode_value_def write_formatted_def integer_decode_value_def or_code_def
       decode_integer_shown)

interpretation boolean: value_codec
  boolean_decode_value boolean_encode_value
  "\<lambda>b. Some (if b then ascii ''TRUE'' else ascii ''FALSE'')" "\<lambda>_. True" "\<lambda>b. b"
  by unfold_locales
     (auto simp: boolean_encode_value_def boolean_decode_value_def eq_ignore_ascii_case_def
       ascii_lower_def is_ascii_control_def)

section \<open>Periods\<close>

fun valid_period :: "period_value \<Rightarrow> bool" where
  "valid_period (PExplicit s e) = (valid_dtv s \<and> valid_dtv e)"
| "valid_period (PStarting s d) = (valid_dtv s \<and> valid_duration d)"

fun period_writes :: "period_value \<Rightarrow> octets option" where
  "period_writes (PExplicit s e) =
     (if is_period_bound s \<and> is_period_bound e \<and> \<not> zones_disagree s e
      then Some (dtv_text s @ [oct CHR ''/''] @ dtv_text e) else None)"
| "period_writes (PStarting s d) =
     (if is_period_bound s \<and> is_positive d
      then map_option (\<lambda>t. dtv_text s @ [oct CHR ''/''] @ t) (duration_writes d) else None)"

fun unzoned_period :: "period_value \<Rightarrow> period_value" where
  "unzoned_period (PExplicit s e) = PExplicit (unzoned s) (unzoned e)"
| "unzoned_period (PStarting s d) = PStarting (unzoned s) (reconciled d)"

lemma positive_writes:
  assumes "is_positive d" "valid_duration d"
  obtains days secs where "single_signed d = Some (days, secs)" "duration_writes d = Some (duration_text days secs)"
    "0 \<le> days" "0 \<le> secs" "is_positive (reconciled d)"
proof -
  obtain days secs where s: "single_signed d = Some (days, secs)" "0 < days \<or> 0 < secs"
    using assms(1) by (auto simp: is_positive_def split: option.splits)
  have n: "0 \<le> days" "0 \<le> secs" using single_signed_facts(4) [OF s(1) assms(2)] s(2) by force+
  then have "duration_writes d = Some (duration_text days secs)"
    using s by (simp add: duration_writes_def I64_MIN_def)
  moreover have "is_positive (reconciled d)"
    using s n by (simp add: is_positive_def reconciled_def single_signed_def)
  ultimately show ?thesis using that s(1) n by blast
qed

lemma slash_free_digits: "oct CHR ''/'' \<notin> set (shown_wide w n)" "oct CHR ''/'' \<notin> set (shown n)"
proof -
  have "\<not> is_ascii_digit (oct CHR ''/'')" by (simp add: is_ascii_digit_def)
  then show "oct CHR ''/'' \<notin> set (shown_wide w n)" "oct CHR ''/'' \<notin> set (shown n)"
    using shown_wide_digits [of w n] shown_list_all [of n] by (auto simp: list_all_iff)
qed

lemma slash_free_dtv: "oct CHR ''/'' \<notin> set (dtv_text v)"
  using slash_free_digits(1) by (cases v) (auto simp: stamp_text_def date_text_def time_text_def)

lemma decode_bound:
  "valid_dtv v \<Longrightarrow> is_period_bound v \<Longrightarrow> decode_period_bound (dtv_text v) = Some (unzoned v)"
proof -
  assume v: "valid_dtv v" "is_period_bound v"
  then have "decode_date_time_value (dtv_text v) = Some (unzoned v)"
    by (cases v) (simp_all add: decode_date_time_value_iff)
  then show ?thesis using v(2) by (cases v) (auto simp: decode_period_bound_def is_period_bound_def)
qed

lemma hd_shown_wide: "is_ascii_digit (hd (shown_wide w n))"
  using shown_wide_digits [of w n] by (cases "shown_wide w n") auto

text \<open>A duration's text is no date-time: it opens with a sign or a \<open>P\<close>.\<close>

lemma duration_text_no_bound: "decode_period_bound (duration_text d s) = None"
proof -
  have "duration_text d s \<noteq> [] \<and> \<not> is_ascii_digit (hd (duration_text d s))"
    by (auto simp: duration_text_def is_ascii_digit_def)
  moreover have "dtv_text v = [] \<or> is_ascii_digit (hd (dtv_text v))" for v
    by (cases v) (simp_all add: stamp_text_def date_text_def hd_append hd_shown_wide)
  ultimately have "decode_date_time_value (duration_text d s) \<noteq> Some v" for v
    by (metis decode_date_time_value_iff)
  then have "decode_date_time_value (duration_text d s) = None" by auto
  then show ?thesis by (simp add: decode_period_bound_def)
qed

interpretation period_codec: value_codec
  period_decode_value period_encode_value period_writes valid_period unzoned_period
proof unfold_locales
  fix v out assume v: "valid_period v"
  show "period_encode_value v out =
      (case period_writes v of Some t \<Rightarrow> (Inr (), out @ t) | None \<Rightarrow> (Inl MutNotRepresentable, out))"
  proof (cases v)
    case (PExplicit s e)
    then show ?thesis
      using v dtv.encode_writes by (auto simp: dtv_writes_def is_period_bound_def push_octet_def)
  next
    case (PStarting s d)
    show ?thesis
    proof (cases "is_positive d")
      case True
      then obtain t where "duration_writes d = Some t"
        using positive_writes [of d] v PStarting by (metis valid_period.simps(2))
      then show ?thesis
        using v PStarting dtv.encode_writes duration.encode_writes
        by (auto simp: dtv_writes_def is_period_bound_def push_octet_def)
    qed (use PStarting in simp)
  qed
next
  fix v t assume v: "valid_period v" and t: "period_writes v = Some t"
  have "decode_period t = Some (unzoned_period v)"
  proof (cases v)
    case (PExplicit s e)
    then show ?thesis
      using v t split_at_octet_append [OF slash_free_dtv [of s], of "dtv_text e"]
      by (auto simp: decode_period_def decode_bound split: if_splits)
  next
    case (PStarting s d)
    then have p: "is_positive d" "is_period_bound s" "valid_dtv s" "valid_duration d"
      using v t by (auto split: if_splits)
    obtain days secs where w: "single_signed d = Some (days, secs)"
      "duration_writes d = Some (duration_text days secs)" "0 \<le> days" "0 \<le> secs" "is_positive (reconciled d)"
      using positive_writes [OF p(1,4)] .
    have "decode_duration (duration_text days secs) = Some (reconciled d)"
      using duration.writes_read [OF p(4) w(2)] by (simp add: duration_decode_value_def or_code_def split: option.splits)
    then show ?thesis
      using PStarting p w t split_at_octet_append [OF slash_free_dtv [of s], of "duration_text days secs"]
      by (auto simp: decode_period_def decode_bound duration_text_no_bound)
  qed
  then show "period_decode_value t = Inr (unzoned_period v)"
    by (simp add: period_decode_value_def or_code_def)
next
  fix v t assume v: "valid_period v" and t: "period_writes v = Some t"
  have "plain (dtv_text w)" for w by (cases w) simp_all
  then show "plain t"
    using v t duration.writes_plain by (cases v) (auto split: if_splits)
qed

lemma duration_writes_None:
  assumes "duration_writes v = None"
  shows "\<not> in_i64 (span_days v * 86400) \<or> \<not> in_i64 (span_days v * 86400 + span_seconds v)
    \<or> I64_MIN \<in> {span_days v, span_seconds v}"
proof (rule ccontr)
  assume no: "\<not> ?thesis"
  define t where "t = span_days v * 86400 + span_seconds v"
  show False
  proof (cases "(0 \<le> span_days v) = (0 \<le> span_seconds v)")
    case True
    then show False using assms no by (auto simp: duration_writes_def single_signed_def Let_def split: if_splits)
  next
    case False
    then have s: "single_signed v = Some (t sdiv 86400, t smod 86400)"
      using no by (auto simp: single_signed_def Let_def SECONDS_PER_DAY_def checked_defs t_def)
    have "in_i64 t" using no by (simp add: t_def)
    then have "t sdiv 86400 \<noteq> I64_MIN" "t smod 86400 \<noteq> I64_MIN"
      using sdiv_smod_day(1,3) [of t] by (auto simp: I64_MIN_def in_i64_def)
    then show False using assms s by (simp add: duration_writes_def)
  qed
qed

section \<open>Properties\<close>

text \<open>
  C26. The date, time and date-time decoders accept exactly the texts RFC 5545 sections 3.3.4, 3.3.5
  and 3.3.12 write and nothing else: a value is read from the octets if and only if it is valid and
  the octets are its fixed-width text, with the \<open>T\<close> between date and clock and the \<open>Z\<close> of a UTC
  value in place.
\<close>

theorem date_time_texts_exact:
  "(decode_date bs = Some d \<longleftrightarrow> valid_date d \<and> bs = date_text d)
    \<and> (decode_time bs = Some t \<longleftrightarrow> valid_time t \<and> bs = time_text t)
    \<and> (decode_date_time bs = Some s \<longleftrightarrow> valid_datetime s \<and> bs = stamp_text s)
    \<and> (decode_date_time_value bs = Some v \<longleftrightarrow> valid_dtv v \<and> dtv_tzid v = None \<and> bs = dtv_text v)"
  using decode_date_iff decode_time_iff decode_date_time_iff decode_date_time_value_iff by blast

text \<open>
  A written duration lasts as long as the value it was written from: the text reads back as a
  duration of the same number of seconds whose fields agree in sign, the value itself when its
  fields already agreed, and the encoder refuses, before it writes an octet, only a value whose
  length does not fit 64 bits or has no positive counterpart.
\<close>

theorem durations_keep_their_length:
  assumes "valid_duration v"
  shows "case duration_encode_value v [] of
      (Inl e, out) \<Rightarrow> e = MutNotRepresentable \<and> out = []
        \<and> (\<not> in_i64 (span_days v * 86400) \<or> \<not> in_i64 (span_days v * 86400 + span_seconds v)
            \<or> I64_MIN \<in> {span_days v, span_seconds v})
    | (Inr _, out) \<Rightarrow> (\<exists>w. duration_decode_value out = Inr w
        \<and> span_days w * 86400 + span_seconds w = span_days v * 86400 + span_seconds v
        \<and> \<not> (0 < span_days w \<and> span_seconds w < 0) \<and> \<not> (span_days w < 0 \<and> 0 < span_seconds w)
        \<and> ((0 \<le> span_days v) \<noteq> (0 \<le> span_seconds v) \<or> w = v))"
proof (cases "duration_writes v")
  case None
  then show ?thesis
    using duration.encode_writes [OF assms, of "[]"] duration_writes_None [OF None] by simp
next
  case (Some t)
  then obtain d s where s: "single_signed v = Some (d, s)"
    by (auto simp: duration_writes_def split: option.splits)
  note f = single_signed_facts [OF s assms]
  have "duration_decode_value t = Inr \<lparr>span_days = d, span_seconds = s\<rparr>"
    using duration.writes_read [OF assms Some] by (simp add: reconciled_def s)
  moreover have "(0 \<le> span_days v) = (0 \<le> span_seconds v) \<Longrightarrow> \<lparr>span_days = d, span_seconds = s\<rparr> = v"
    using s by (simp add: single_signed_def Let_def)
  ultimately show ?thesis
    using duration.encode_writes [OF assms, of "[]"] Some f(1,4) by auto
qed

theorem durations_keep_their_length_witness:
  "\<exists>out w. duration_encode_value \<lparr>span_days = 1, span_seconds = -3600\<rparr> [] = (Inr (), out)
    \<and> duration_decode_value out = Inr w \<and> span_days w * 86400 + span_seconds w = 82800"
proof -
  let ?v = "\<lparr>span_days = 1, span_seconds = -3600\<rparr>"
  have v: "valid_duration ?v" by (simp add: valid_duration_def in_i64_def)
  have ok: "in_i64 (span_days ?v * 86400)" "in_i64 (span_days ?v * 86400 + span_seconds ?v)"
    "I64_MIN \<notin> {span_days ?v, span_seconds ?v}" by (simp_all add: in_i64_def I64_MIN_def)
  obtain r out where e: "duration_encode_value ?v [] = (r, out)" by fastforce
  show ?thesis
    using durations_keep_their_length [OF v] ok e by (cases r) (auto simp: e)
qed

end
