(* ===== verification/Recur_Grammar.thy ===== *)
theory Recur_Grammar
  imports Recur_Rule Codec_Round_Trip Civil_Time
begin

text \<open>
  Reading a \<open>RECUR\<close> value, \<open>recur/grammar.rs\<close>: the pairs of the value, the decoder of every part
  with its range, the strict reading that refuses the whole value at the first deviation, and the
  lenient one that drops the part it cannot use and reports it.  A builder is the rule it fills in.
\<close>

section \<open>Pairs\<close>

record rule_part_text =
  rpt_name :: octets
  rpt_value :: octets

text \<open>\<open>slice::split\<close>: one piece more than there are separators.\<close>

fun split_octets :: "octet \<Rightarrow> octets \<Rightarrow> octets list" where
  "split_octets sep [] = [[]]"
| "split_octets sep (b # rest) =
     (if b = sep then [] # split_octets sep rest
      else case split_octets sep rest of
        [] \<Rightarrow> [[b]]
      | piece # pieces \<Rightarrow> (b # piece) # pieces)"

fun index_of :: "octet \<Rightarrow> octets \<Rightarrow> nat option" where
  "index_of sep [] = None"
| "index_of sep (b # rest) = (if b = sep then Some 0 else map_option Suc (index_of sep rest))"

definition split_once :: "octets \<Rightarrow> octet \<Rightarrow> (octets \<times> octets) option" where
  "split_once bytes sep = do {
     at' \<leftarrow> index_of sep bytes;
     Some (take at' bytes, drop (at' + 1) bytes)
   }"

definition rule_parts :: "octets \<Rightarrow> rule_part_text list" where
  "rule_parts value_text =
     map (\<lambda>pair. case (case split_once pair (oct CHR ''='') of Some p \<Rightarrow> p | None \<Rightarrow> (pair, [])) of
            (name, v) \<Rightarrow> \<lparr>rpt_name = name, rpt_value = v\<rparr>)
       (split_octets (oct CHR '';'') value_text)"

definition equals_ignoring_case :: "octets \<Rightarrow> octets \<Rightarrow> bool" where
  "equals_ignoring_case left right \<longleftrightarrow>
     length left = length right \<and> list_all (\<lambda>(a, b). ascii_lower a = ascii_lower b) (zip left right)"

definition by_part :: "rule_part_text \<Rightarrow> rule_part option" where
  "by_part p = find (\<lambda>part. equals_ignoring_case (rpt_name p) (rule_part_as_bytes part)) rule_part_all"

definition FREQ_NAME :: octets where "FREQ_NAME = ascii ''FREQ''"

datatype scalar_part = SUntil | SCount | SInterval | SWkst

definition scalar_part_all :: "scalar_part list" where
  "scalar_part_all = [SUntil, SCount, SInterval, SWkst]"

fun scalar_as_bytes :: "scalar_part \<Rightarrow> octets" where
  "scalar_as_bytes SUntil = ascii ''UNTIL''"
| "scalar_as_bytes SCount = ascii ''COUNT''"
| "scalar_as_bytes SInterval = ascii ''INTERVAL''"
| "scalar_as_bytes SWkst = ascii ''WKST''"

fun scalar_index :: "scalar_part \<Rightarrow> nat" where
  "scalar_index SUntil = 0"
| "scalar_index SCount = 1"
| "scalar_index SInterval = 2"
| "scalar_index SWkst = 3"

fun scalar_slot :: "scalar_part \<Rightarrow> nat" where
  "scalar_slot SUntil = 17"
| "scalar_slot SCount = 18"
| "scalar_slot SInterval = 19"
| "scalar_slot SWkst = 20"

definition scalar_part_of :: "octets \<Rightarrow> scalar_part option" where
  "scalar_part_of name = find (\<lambda>scalar. equals_ignoring_case name (scalar_as_bytes scalar)) scalar_part_all"

section \<open>Values\<close>

definition decode_freq :: "octets \<Rightarrow> freq option" where
  "decode_freq bytes = find (\<lambda>f. equals_ignoring_case bytes (freq_as_bytes f)) freq_all"

definition decode_weekday :: "octets \<Rightarrow> weekday option" where
  "decode_weekday bytes = find (\<lambda>d. equals_ignoring_case bytes (weekday_as_bytes d)) weekday_all"

definition checked_u32 :: "nat \<Rightarrow> nat option" where
  "checked_u32 n = (if n \<le> u32_max then Some n else None)"

fun unsigned_from :: "nat \<Rightarrow> octets \<Rightarrow> nat option" where
  "unsigned_from total' [] = Some total'"
| "unsigned_from total' (octet # rest) = do {
     digit \<leftarrow> (if is_ascii_digit octet then Some (unat (octet - 0x30)) else None);
     scaled \<leftarrow> checked_u32 (total' * 10);
     total'' \<leftarrow> checked_u32 (scaled + digit);
     unsigned_from total'' rest
   }"

definition decode_unsigned :: "octets \<Rightarrow> nat option" where
  "decode_unsigned bytes = (if bytes = [] then None else unsigned_from 0 bytes)"

definition decode_signed :: "octets \<Rightarrow> int option" where
  "decode_signed bytes =
     (let (negative, digits) =
        (case bytes of
           b # rest \<Rightarrow>
             if b = oct CHR ''-'' then (True, rest)
             else if b = oct CHR ''+'' then (False, rest)
             else (False, bytes)
         | [] \<Rightarrow> (False, bytes))
      in do {
        unsigned' \<leftarrow> decode_unsigned digits;
        magnitude \<leftarrow> checked_i32 (int unsigned');
        (if negative then checked_i32 (- magnitude) else Some magnitude)
      })"

definition decode_ordinal :: "octets \<Rightarrow> int \<Rightarrow> int option" where
  "decode_ordinal bytes bound = do {
     v \<leftarrow> decode_signed bytes;
     (if v \<noteq> 0 \<and> \<bar>v\<bar> \<le> \<bar>bound\<bar> then Some v else None)
   }"

definition decode_bounded :: "octets \<Rightarrow> nat \<Rightarrow> nat option" where
  "decode_bounded bytes bound = do {
     v \<leftarrow> decode_unsigned bytes;
     (if v \<le> bound then Some v else None)
   }"

fun decode_items :: "(octets \<Rightarrow> 'a option) \<Rightarrow> octets list \<Rightarrow> 'a list \<Rightarrow> 'a list option" where
  "decode_items element [] vs = Some vs"
| "decode_items element (item # items) vs = do {
     v \<leftarrow> element item;
     decode_items element items (vs @ [v])
   }"

definition decode_list :: "octets \<Rightarrow> (octets \<Rightarrow> 'a option) \<Rightarrow> 'a list option" where
  "decode_list bytes element =
     (if bytes = [] then None else decode_items element (split_octets (oct CHR '','') bytes) [])"

definition i8_of :: "int \<Rightarrow> int option" where "i8_of x = (if in_i8 x then Some x else None)"
definition i16_of :: "int \<Rightarrow> int option" where "i16_of x = (if in_i16 x then Some x else None)"
definition u8_of :: "nat \<Rightarrow> nat option" where "u8_of n = (if n \<le> u8_max then Some n else None)"

definition nonzero_i8 :: "int \<Rightarrow> int option" where "nonzero_i8 x = (if x \<noteq> 0 then Some x else None)"

definition decode_weekday_num :: "octets \<Rightarrow> weekday_num option" where
  "decode_weekday_num bytes =
     (if length bytes < 2 then None
      else let split' = length bytes - 2; ordinal_text = take split' bytes; day_text = drop split' bytes
      in do {
        w \<leftarrow> decode_weekday day_text;
        (if ordinal_text = [] then weekday_num_new None w
         else do {
           ordinal \<leftarrow> decode_ordinal ordinal_text (int MAX_ORDINAL);
           narrow \<leftarrow> i8_of ordinal;
           nz \<leftarrow> nonzero_i8 narrow;
           weekday_num_new (Some nz) w
         })
      })"

definition decode_until :: "octets \<Rightarrow> rule_limit option" where
  "decode_until bytes = do {
     written \<leftarrow> (case dtv_decode_value bytes of Inr v \<Rightarrow> Some v | Inl _ \<Rightarrow> None);
     let time = (case dtv_time written of Some t \<Rightarrow> t | None \<Rightarrow> MIDNIGHT);
     at' \<leftarrow> at_offset \<lparr>date_part = dtv_date written, time_part = time\<rparr> UTC;
     (value_kind, clock) \<leftarrow>
       (case written of
          VDate _ \<Rightarrow> Some (KindDate, UntilFloating)
        | VLocal _ \<Rightarrow> Some (KindDateTime, UntilFloating)
        | VUtc _ \<Rightarrow> Some (KindDateTime, UntilUtc)
        | VZoned _ _ \<Rightarrow> None);
     Some (UntilLimit at' value_kind clock)
   }"

section \<open>Applying a part\<close>

abbreviation malformed_rule :: diagnostic_code where
  "malformed_rule \<equiv> Expansion MalformedRecurrenceRule"

abbreviation out_of_range :: diagnostic_code where
  "out_of_range \<equiv> Expansion RecurrenceRulePartOutOfRange"

definition nonzero_u32 :: "nat \<Rightarrow> nat option" where
  "nonzero_u32 n = (if n \<noteq> 0 then Some n else None)"

fun apply_scalar_part :: "recurrence_rule \<Rightarrow> scalar_part \<Rightarrow> octets \<Rightarrow> diagnostic_code + recurrence_rule" where
  "apply_scalar_part builder SUntil tx =
     (case or_code malformed_rule (decode_until tx) of
        Inl e \<Rightarrow> Inl e | Inr l \<Rightarrow> Inr (builder\<lparr>rule_limited := l\<rparr>))"
| "apply_scalar_part builder SCount tx =
     (case or_code malformed_rule (decode_unsigned tx) of
        Inl e \<Rightarrow> Inl e
      | Inr count \<Rightarrow>
          (case or_code out_of_range (nonzero_u32 count) of
             Inl e \<Rightarrow> Inl e | Inr n \<Rightarrow> Inr (builder\<lparr>rule_limited := CountLimit n\<rparr>)))"
| "apply_scalar_part builder SInterval tx =
     (case or_code malformed_rule (decode_unsigned tx) of
        Inl e \<Rightarrow> Inl e
      | Inr interval \<Rightarrow>
          (case or_code out_of_range (nonzero_u32 interval) of
             Inl e \<Rightarrow> Inl e | Inr n \<Rightarrow> Inr (builder\<lparr>rule_interval := n\<rparr>)))"
| "apply_scalar_part builder SWkst tx =
     (case or_code malformed_rule (decode_weekday tx) of
        Inl e \<Rightarrow> Inl e | Inr w \<Rightarrow> Inr (builder\<lparr>rule_wkst := w\<rparr>))"

definition in_list :: "octets \<Rightarrow> (octets \<Rightarrow> 'a option) \<Rightarrow> ('a list \<Rightarrow> recurrence_rule) \<Rightarrow>
    diagnostic_code + recurrence_rule" where
  "in_list tx element set_field =
     (case or_code out_of_range (decode_list tx element) of
        Inl e \<Rightarrow> Inl e | Inr vs \<Rightarrow> Inr (set_field vs))"

fun apply_by_part :: "recurrence_rule \<Rightarrow> rule_part \<Rightarrow> octets \<Rightarrow> diagnostic_code + recurrence_rule" where
  "apply_by_part builder BySecond tx =
     in_list tx (\<lambda>item. Option.bind (decode_bounded item 60) u8_of) (\<lambda>vs. builder\<lparr>by_second := vs\<rparr>)"
| "apply_by_part builder ByMinute tx =
     in_list tx (\<lambda>item. Option.bind (decode_bounded item 59) u8_of) (\<lambda>vs. builder\<lparr>by_minute := vs\<rparr>)"
| "apply_by_part builder ByHour tx =
     in_list tx (\<lambda>item. Option.bind (decode_bounded item 23) u8_of) (\<lambda>vs. builder\<lparr>by_hour := vs\<rparr>)"
| "apply_by_part builder ByDay tx =
     in_list tx decode_weekday_num (\<lambda>vs. builder\<lparr>by_day := vs\<rparr>)"
| "apply_by_part builder ByMonthDay tx =
     in_list tx (\<lambda>item. Option.bind (decode_ordinal item 31) i8_of) (\<lambda>vs. builder\<lparr>by_month_day := vs\<rparr>)"
| "apply_by_part builder ByYearDay tx =
     in_list tx (\<lambda>item. Option.bind (decode_ordinal item 366) i16_of) (\<lambda>vs. builder\<lparr>by_year_day := vs\<rparr>)"
| "apply_by_part builder ByWeekNo tx =
     in_list tx (\<lambda>item. Option.bind (decode_ordinal item 53) i8_of) (\<lambda>vs. builder\<lparr>by_week_no := vs\<rparr>)"
| "apply_by_part builder ByMonth tx =
     in_list tx (\<lambda>item. do {
       month \<leftarrow> decode_bounded item 12;
       month \<leftarrow> (if month \<noteq> 0 then Some month else None);
       u8_of month
     }) (\<lambda>vs. builder\<lparr>by_month := vs\<rparr>)"
| "apply_by_part builder BySetPos tx =
     in_list tx (\<lambda>item. Option.bind (decode_ordinal item 366) i16_of) (\<lambda>vs. builder\<lparr>by_set_pos := vs\<rparr>)"

fun code_for :: "rule_error \<Rightarrow> diagnostic_code" where
  "code_for MissingFrequency = malformed_rule"
| "code_for UnknownFrequency = malformed_rule"
| "code_for OrdinalOutOfRange = out_of_range"
| "code_for SetPosWithoutByRule = Expansion BySetPosWithoutByRule"

section \<open>The strict reading\<close>

record strict_decode =
  sd_builder :: "recurrence_rule option"
  sd_seen :: "nat list"

definition strict_new :: strict_decode where
  "strict_new = \<lparr>sd_builder = None, sd_seen = []\<rparr>"

definition note_name :: "strict_decode \<Rightarrow> nat \<Rightarrow> diagnostic_code + strict_decode" where
  "note_name s name =
     (if name \<in> set (sd_seen s) then Inl (Expansion DuplicateRecurrenceRulePart)
      else Inr (s\<lparr>sd_seen := sd_seen s @ [name]\<rparr>))"

definition FREQ_SLOT :: nat where "FREQ_SLOT = 16"

definition apply_to_builder ::
  "strict_decode \<Rightarrow> recurrence_rule \<Rightarrow> rule_part_text
     \<Rightarrow> diagnostic_code + strict_decode \<times> recurrence_rule" where
  "apply_to_builder s builder part =
     (let tx = rpt_value part in
      case by_part part of
        Some row \<Rightarrow>
          (case note_name s (rule_part_index row) of
             Inl e \<Rightarrow> Inl e
           | Inr s' \<Rightarrow> (case apply_by_part builder row tx of Inl e \<Rightarrow> Inl e | Inr b \<Rightarrow> Inr (s', b)))
      | None \<Rightarrow>
          (case or_code (Expansion UnknownRecurrenceRulePart) (scalar_part_of (rpt_name part)) of
             Inl e \<Rightarrow> Inl e
           | Inr scalar \<Rightarrow>
               (case note_name s (scalar_slot scalar) of
                  Inl e \<Rightarrow> Inl e
                | Inr s' \<Rightarrow>
                    (case apply_scalar_part builder scalar tx of Inl e \<Rightarrow> Inl e | Inr b \<Rightarrow> Inr (s', b)))))"

definition apply_strict :: "strict_decode \<Rightarrow> rule_part_text \<Rightarrow> diagnostic_code + strict_decode" where
  "apply_strict s part =
     (let tx = rpt_value part in
      if equals_ignoring_case (rpt_name part) FREQ_NAME then
        (case note_name s FREQ_SLOT of
           Inl e \<Rightarrow> Inl e
         | Inr s' \<Rightarrow>
             (case or_code malformed_rule (decode_freq tx) of
                Inl e \<Rightarrow> Inl e
              | Inr f \<Rightarrow> Inr (s'\<lparr>sd_builder := Some (rule_new f)\<rparr>)))
      else
        (case or_code malformed_rule (sd_builder s) of
           Inl e \<Rightarrow> Inl e
         | Inr builder \<Rightarrow>
             (case apply_to_builder (s\<lparr>sd_builder := None\<rparr>) builder part of
                Inl e \<Rightarrow> Inl e
              | Inr (s', b) \<Rightarrow> Inr (s'\<lparr>sd_builder := Some b\<rparr>))))"

fun apply_strict_parts :: "strict_decode \<Rightarrow> rule_part_text list \<Rightarrow> diagnostic_code + strict_decode" where
  "apply_strict_parts s [] = Inr s"
| "apply_strict_parts s (part # ps) =
     (case apply_strict s part of Inl e \<Rightarrow> Inl e | Inr s' \<Rightarrow> apply_strict_parts s' ps)"

definition rule_decode_value :: "octets \<Rightarrow> diagnostic_code + recurrence_rule" where
  "rule_decode_value bytes =
     (case apply_strict_parts strict_new (rule_parts bytes) of
        Inl e \<Rightarrow> Inl e
      | Inr s \<Rightarrow>
          (case or_code malformed_rule (sd_builder s) of
             Inl e \<Rightarrow> Inl e
           | Inr builder \<Rightarrow>
               (case rule_build builder of Inl e \<Rightarrow> Inl (code_for e) | Inr r \<Rightarrow> Inr r)))"

section \<open>The lenient reading\<close>

datatype rule_slot = SlotFreq | SlotRow rule_part | SlotScalar scalar_part

definition slot_of :: "rule_part_text \<Rightarrow> rule_slot option" where
  "slot_of part =
     (if equals_ignoring_case (rpt_name part) FREQ_NAME then Some SlotFreq
      else case by_part part of
        Some row \<Rightarrow> Some (SlotRow row)
      | None \<Rightarrow> map_option SlotScalar (scalar_part_of (rpt_name part)))"

record lenient_parts =
  lp_freq :: "octets option"
  lp_rows :: "octets option list"
  lp_scalars :: "(octets \<times> nat) option list"

definition UNWRITTEN :: nat where "UNWRITTEN = u32_max"

definition lenient_new :: lenient_parts where
  "lenient_new = \<lparr>lp_freq = None, lp_rows = replicate 9 None, lp_scalars = replicate 4 None\<rparr>"

fun put_part :: "lenient_parts \<Rightarrow> rule_slot \<Rightarrow> octets \<Rightarrow> nat \<Rightarrow> bool \<times> lenient_parts" where
  "put_part l SlotFreq tx at' = (lp_freq l \<noteq> None, l\<lparr>lp_freq := Some tx\<rparr>)"
| "put_part l (SlotRow row) tx at' =
     (let i = rule_part_index row in
      if i < length (lp_rows l) then (lp_rows l ! i \<noteq> None, l\<lparr>lp_rows := (lp_rows l)[i := Some tx]\<rparr>)
      else (False, l))"
| "put_part l (SlotScalar scalar) tx at' =
     (let i = scalar_index scalar in
      if i < length (lp_scalars l)
      then (lp_scalars l ! i \<noteq> None, l\<lparr>lp_scalars := (lp_scalars l)[i := Some (tx, at')]\<rparr>)
      else (False, l))"

definition row_text :: "lenient_parts \<Rightarrow> rule_part \<Rightarrow> octets option" where
  "row_text l row =
     (if rule_part_index row < length (lp_rows l) then lp_rows l ! rule_part_index row else None)"

definition scalar_cell :: "lenient_parts \<Rightarrow> scalar_part \<Rightarrow> (octets \<times> nat) option" where
  "scalar_cell l scalar =
     (if scalar_index scalar < length (lp_scalars l) then lp_scalars l ! scalar_index scalar else None)"

definition scalar_text :: "lenient_parts \<Rightarrow> scalar_part \<Rightarrow> octets option" where
  "scalar_text l scalar = map_option fst (scalar_cell l scalar)"

definition scalar_position :: "lenient_parts \<Rightarrow> scalar_part \<Rightarrow> nat" where
  "scalar_position l scalar = (case scalar_cell l scalar of Some (_, at') \<Rightarrow> at' | None \<Rightarrow> UNWRITTEN)"

definition report_rule :: "'k sink_push \<Rightarrow> diagnostic_code \<Rightarrow> severity \<Rightarrow> 'k env \<Rightarrow> 'k env" where
  "report_rule push' code sev env = report push' (diagnostic_new code sev NOWHERE) env"

fun collect_from ::
  "'k sink_push \<Rightarrow> lenient_parts \<Rightarrow> nat \<Rightarrow> rule_part_text list \<Rightarrow> 'k env \<Rightarrow> lenient_parts \<times> 'k env" where
  "collect_from push' l pos [] env = (l, env)"
| "collect_from push' l pos (part # ps) env =
     (let at' = (if pos \<le> u32_max then pos else UNWRITTEN) in
      case slot_of part of
        None \<Rightarrow> collect_from push' l (pos + 1) ps
                  (report_rule push' (Expansion UnknownRecurrenceRulePart) Note env)
      | Some slot \<Rightarrow>
          (case put_part l slot (rpt_value part) at' of
             (full, l') \<Rightarrow> collect_from push' l' (pos + 1) ps
               (if full then report_rule push' (Expansion DuplicateRecurrenceRulePart) Violation env else env)))"

definition collect_parts :: "'k sink_push \<Rightarrow> octets \<Rightarrow> 'k env \<Rightarrow> lenient_parts \<times> 'k env" where
  "collect_parts push' value_text env = collect_from push' lenient_new 0 (rule_parts value_text) env"

definition refuse_rule :: "'k sink_push \<Rightarrow> rule_error \<Rightarrow> 'k env \<Rightarrow> rule_error \<times> 'k env" where
  "refuse_rule push' e env = (e, report_rule push' (code_for e) Violation env)"

definition resolve_freq :: "'k sink_push \<Rightarrow> lenient_parts \<Rightarrow> 'k env \<Rightarrow> (rule_error + freq) \<times> 'k env" where
  "resolve_freq push' collected env =
     (case lp_freq collected of
        None \<Rightarrow> (case refuse_rule push' MissingFrequency env of (e, env') \<Rightarrow> (Inl e, env'))
      | Some tx \<Rightarrow>
          (case decode_freq tx of
             Some f \<Rightarrow> (Inr f, env)
           | None \<Rightarrow> (case refuse_rule push' UnknownFrequency env of (e, env') \<Rightarrow> (Inl e, env'))))"

definition keep_or_drop ::
  "recurrence_rule \<Rightarrow> (recurrence_rule \<Rightarrow> diagnostic_code + recurrence_rule)
     \<Rightarrow> diagnostic_code option \<times> recurrence_rule" where
  "keep_or_drop builder act =
     (case act builder of Inr updated \<Rightarrow> (None, updated) | Inl code \<Rightarrow> (Some code, builder))"

definition report_dropped_part :: "'k sink_push \<Rightarrow> diagnostic_code option \<Rightarrow> 'k env \<Rightarrow> 'k env" where
  "report_dropped_part push' refused env =
     (case refused of
        None \<Rightarrow> env
      | Some code \<Rightarrow>
          report_rule push' (if code = malformed_rule then out_of_range else code) Violation env)"

fun apply_rows ::
  "'k sink_push \<Rightarrow> lenient_parts \<Rightarrow> rule_part list \<Rightarrow> recurrence_rule \<Rightarrow> 'k env \<Rightarrow> recurrence_rule \<times> 'k env" where
  "apply_rows push' l [] builder env = (builder, env)"
| "apply_rows push' l (row # rows) builder env =
     (case row_text l row of
        None \<Rightarrow> apply_rows push' l rows builder env
      | Some tx \<Rightarrow>
          (case keep_or_drop builder (\<lambda>current. apply_by_part current row tx) of
             (refused, builder') \<Rightarrow> apply_rows push' l rows builder' (report_dropped_part push' refused env)))"

fun apply_scalars ::
  "'k sink_push \<Rightarrow> lenient_parts \<Rightarrow> scalar_part list \<Rightarrow> recurrence_rule \<Rightarrow> 'k env \<Rightarrow> recurrence_rule \<times> 'k env" where
  "apply_scalars push' l [] builder env = (builder, env)"
| "apply_scalars push' l (scalar # scalars) builder env =
     (case scalar_text l scalar of
        None \<Rightarrow> apply_scalars push' l scalars builder env
      | Some tx \<Rightarrow>
          (case keep_or_drop builder (\<lambda>current. apply_scalar_part current scalar tx) of
             (refused, builder') \<Rightarrow> apply_scalars push' l scalars builder' (report_dropped_part push' refused env)))"

text \<open>
  The four scalar parts are sorted by position with an unstable sort; equal positions are absent
  parts only, which are skipped, so the stable sort of the model gives the same result.
\<close>

definition apply_collected ::
  "'k sink_push \<Rightarrow> freq \<Rightarrow> lenient_parts \<Rightarrow> 'k env \<Rightarrow> recurrence_rule \<times> 'k env" where
  "apply_collected push' f l env =
     (let builder = rule_new f;
          env1 = (if scalar_text l SUntil \<noteq> None \<and> scalar_text l SCount \<noteq> None
                  then report_rule push' (Expansion MutuallyExclusiveRuleParts) Violation env else env)
      in case apply_rows push' l rule_part_all builder env1 of
           (builder2, env2) \<Rightarrow>
             apply_scalars push' l (sort_key (scalar_position l) scalar_part_all) builder2 env2)"

definition finish_rule ::
  "'k sink_push \<Rightarrow> recurrence_rule \<Rightarrow> 'k env \<Rightarrow> (rule_error + recurrence_rule) \<times> 'k env" where
  "finish_rule push' builder env =
     (case rule_build builder of
        Inr r \<Rightarrow> (Inr r, env)
      | Inl e \<Rightarrow> (rule_build (builder\<lparr>by_set_pos := []\<rparr>), report_rule push' (code_for e) Violation env))"

definition report_forbidden_ordinals :: "'k sink_push \<Rightarrow> recurrence_rule \<Rightarrow> 'k env \<Rightarrow> 'k env" where
  "report_forbidden_ordinals push' r env =
     (if rule_freq r = Monthly \<or> rule_freq r = Yearly then env
      else if list_ex (\<lambda>entry. wn_ordinal entry \<noteq> None) (by_day r)
        then report_rule push' out_of_range Violation env
      else env)"

definition parse_recur ::
  "'k sink_push \<Rightarrow> octets \<Rightarrow> 'k env \<Rightarrow> (rule_error + recurrence_rule) \<times> 'k env" where
  "parse_recur push' value_text env =
     (case collect_parts push' value_text env of
        (collected, env1) \<Rightarrow>
          (case resolve_freq push' collected env1 of
             (Inl e, env2) \<Rightarrow> (Inl e, env2)
           | (Inr f, env2) \<Rightarrow>
               (case apply_collected push' f collected env2 of
                  (builder, env3) \<Rightarrow>
                    (case finish_rule push' builder env3 of
                       (Inl e, env4) \<Rightarrow> (Inl e, env4)
                     | (Inr r, env4) \<Rightarrow> (Inr r, report_forbidden_ordinals push' r env4)))))"

section \<open>What a decoded number is\<close>

lemma checked_u32_some: "checked_u32 n = Some k \<longleftrightarrow> k = n \<and> n \<le> u32_max"
  by (auto simp: checked_u32_def)

lemma bind_some: "Option.bind p f = Some y \<longleftrightarrow> (\<exists>x. p = Some x \<and> f x = Some y)"
  by (cases p) auto

lemma or_code_right: "or_code code p = Inr y \<longleftrightarrow> p = Some y"
  by (cases p) (auto simp: or_code_def)

lemma unsigned_from_fits: "unsigned_from n bytes = Some k \<Longrightarrow> n \<le> u32_max \<Longrightarrow> k \<le> u32_max"
  by (induction n bytes rule: unsigned_from.induct)
     (auto simp: bind_some checked_u32_some split: if_splits)

lemma decode_unsigned_fits: "decode_unsigned bytes = Some k \<Longrightarrow> k \<le> u32_max"
  using unsigned_from_fits [of 0 bytes k] by (auto simp: decode_unsigned_def split: if_splits)

lemma decode_bounded_fits: "decode_bounded bytes b = Some k \<Longrightarrow> k \<le> b"
  by (auto simp: decode_bounded_def bind_some split: if_splits)

lemma decode_ordinal_fits: "decode_ordinal bytes b = Some v \<Longrightarrow> v \<noteq> 0 \<and> \<bar>v\<bar> \<le> \<bar>b\<bar>"
  by (auto simp: decode_ordinal_def bind_some split: if_splits)

lemma decode_weekday_num_ok: "decode_weekday_num bytes = Some w \<Longrightarrow> ordinal_ok w"
  by (auto simp: decode_weekday_num_def bind_some weekday_num_new_def ordinal_ok_def nonzero_i8_def
        Let_def split: if_splits)

lemma decode_items_all:
  assumes "decode_items element items vs = Some r" "\<And>i v. element i = Some v \<Longrightarrow> P v" "list_all P vs"
  shows "list_all P r"
  using assms(1,3)
  by (induction items arbitrary: vs) (auto simp: bind_some dest: assms(2))

lemma decode_items_longer:
  "decode_items element items vs = Some r \<Longrightarrow> length r = length vs + length items"
  by (induction items arbitrary: vs) (fastforce simp: bind_some)+

lemma split_octets_not_empty [simp]: "split_octets sep bytes \<noteq> []"
  by (induction bytes) (auto split: list.splits)

lemma decode_list_all:
  assumes "decode_list bytes element = Some r" "\<And>i v. element i = Some v \<Longrightarrow> P v"
  shows "list_all P r" "r \<noteq> []"
proof -
  have d: "decode_items element (split_octets (oct CHR '','') bytes) [] = Some r"
    using assms(1) by (simp add: decode_list_def split: if_splits)
  show "list_all P r" using decode_items_all [OF d assms(2)] by simp
  show "r \<noteq> []" using decode_items_longer [OF d] by auto
qed

section \<open>What a decoded rule is\<close>

text \<open>
  The ranges RFC 5545 section 3.3.10 prints for the parts of a rule, and its demand that a
  \<open>BYSETPOS\<close> has another part to select from.  \<open>UNTIL\<close> as a date is midnight on a clock nobody named.
\<close>

definition ordinal_within :: "int \<Rightarrow> int \<Rightarrow> bool" where
  "ordinal_within b v \<longleftrightarrow> v \<noteq> 0 \<and> \<bar>v\<bar> \<le> b"

definition rule_in_range :: "recurrence_rule \<Rightarrow> bool" where
  "rule_in_range r \<longleftrightarrow>
     rule_in_width r
     \<and> list_all (\<lambda>x. x \<le> 60) (by_second r)
     \<and> list_all (\<lambda>x. x \<le> 59) (by_minute r)
     \<and> list_all (\<lambda>x. x \<le> 23) (by_hour r)
     \<and> list_all (\<lambda>x. 1 \<le> x \<and> x \<le> 12) (by_month r)
     \<and> list_all (ordinal_within 31) (by_month_day r)
     \<and> list_all (ordinal_within 366) (by_year_day r)
     \<and> list_all (ordinal_within 53) (by_week_no r)
     \<and> list_all (ordinal_within 366) (by_set_pos r)
     \<and> (case rule_limited r of
          UntilLimit at' KindDate clock' \<Rightarrow> clock' = UntilFloating \<and> unix_seconds at' mod 86400 = 0
        | _ \<Rightarrow> True)"

lemmas rule_range_defs =
  rule_in_range_def rule_in_width_def ordinal_within_def in_i8_def in_i16_def u8_max_def u32_max_def

lemma rule_new_in_range: "rule_in_range (rule_new f)"
  by (simp add: rule_range_defs rule_new_def DEFAULT_INTERVAL_def)

lemma in_list_right:
  "in_list tx element set_field = Inr b \<longleftrightarrow> (\<exists>vs. decode_list tx element = Some vs \<and> b = set_field vs)"
  by (auto simp: in_list_def or_code_def split: option.splits)

lemma number_element:
  "Option.bind (decode_bounded item b) u8_of = Some v \<Longrightarrow> v \<le> b \<and> v \<le> u8_max"
  by (auto simp: bind_some u8_of_def dest: decode_bounded_fits split: if_splits)

lemma byte_element:
  "Option.bind (decode_ordinal item b) i8_of = Some v \<Longrightarrow> ordinal_within \<bar>b\<bar> v \<and> in_i8 v"
  by (auto simp: bind_some i8_of_def ordinal_within_def dest: decode_ordinal_fits split: if_splits)

lemma short_element:
  "Option.bind (decode_ordinal item b) i16_of = Some v \<Longrightarrow> ordinal_within \<bar>b\<bar> v \<and> in_i16 v"
  by (auto simp: bind_some i16_of_def ordinal_within_def dest: decode_ordinal_fits split: if_splits)

lemma month_element:
  "Option.bind (decode_bounded item 12)
     (\<lambda>month. Option.bind (if month \<noteq> 0 then Some month else None) u8_of) = Some v
   \<Longrightarrow> (1 \<le> v \<and> v \<le> 12) \<and> v \<le> u8_max"
  by (auto simp: bind_some u8_of_def dest: decode_bounded_fits split: if_splits)

lemma list_all_both: "list_all (\<lambda>x. P x \<and> Q x) xs \<longleftrightarrow> list_all P xs \<and> list_all Q xs"
  by (induction xs) auto

lemma field_in_range:
  assumes "in_list tx element set_field = Inr b'"
    and "\<And>i v. element i = Some v \<Longrightarrow> P v"
    and "\<And>vs. list_all P vs \<Longrightarrow> rule_in_range (set_field vs)"
  shows "rule_in_range b'"
proof -
  obtain vs where vs: "decode_list tx element = Some vs" "b' = set_field vs"
    using assms(1) by (auto simp: in_list_right)
  show ?thesis unfolding vs(2) by (rule assms(3), rule decode_list_all(1) [OF vs(1) assms(2)])
qed

lemma apply_by_part_in_range:
  assumes "apply_by_part b row tx = Inr b'" "rule_in_range b" shows "rule_in_range b'"
proof -
  note range = assms(2) [unfolded rule_in_range_def rule_in_width_def list_all_append]
  note fields = rule_in_range_def rule_in_width_def list_all_append list_all_both
  note elements = number_element byte_element short_element month_element decode_weekday_num_ok
  show ?thesis
    using assms(1)
    apply (cases row; simp only: apply_by_part.simps)
            apply (erule field_in_range, erule elements, use range in \<open>simp add: fields\<close>)+
    done
qed

lemma decode_until_in_range:
  assumes "decode_until tx = Some l" "rule_in_range b" shows "rule_in_range (b\<lparr>rule_limited := l\<rparr>)"
proof -
  obtain w at' k c where d: "dtv_decode_value tx = Inr w"
    "at_offset \<lparr>date_part = dtv_date w, time_part = case dtv_time w of Some t \<Rightarrow> t | None \<Rightarrow> MIDNIGHT\<rparr>
       UTC = Some at'"
    "l = UntilLimit at' k c" "k = KindDate \<Longrightarrow> c = UntilFloating \<and> (\<exists>dd. w = VDate dd)"
    using assms(1)
    by (auto simp: decode_until_def bind_some Let_def split: sum.splits datetime_value.splits)
  have w: "valid_dtv w" using d(1) by (auto simp: dtv_decode_value_def or_code_right decode_date_time_value_iff)
  have "unix_seconds at' mod 86400 = 0" if kd: "k = KindDate"
  proof -
    obtain dd where dd: "w = VDate dd" using d(4) [OF kd] by blast
    have v: "valid_datetime \<lparr>date_part = dd, time_part = MIDNIGHT\<rparr>"
      using w by (simp add: dd valid_datetime_def MIDNIGHT_def valid_time_def)
    have "at_offset \<lparr>date_part = dd, time_part = MIDNIGHT\<rparr> UTC
        = Some \<lparr>unix_seconds = day_number dd * 86400\<rparr>"
      using at_offset_value [OF v, of UTC]
      by (simp add: UTC_def valid_offset_def local_seconds_def MIDNIGHT_def seconds_of_day_def sat_i64_def)
    then show ?thesis using d(2) by (auto simp: dd)
  qed
  then show ?thesis
    using assms(2) d(3,4) by (auto simp: rule_in_range_def rule_in_width_def split: value_kind.splits)
qed

lemma apply_scalar_part_in_range:
  assumes "apply_scalar_part b scalar tx = Inr b'" "rule_in_range b" shows "rule_in_range b'"
proof (cases scalar)
  case SUntil
  then show ?thesis
    using assms decode_until_in_range by (auto simp: or_code_right split: sum.splits)
next
  case SCount
  then show ?thesis
    using assms
    by (auto simp: or_code_right nonzero_u32_def rule_in_range_def rule_in_width_def
          dest: decode_unsigned_fits split: sum.splits if_splits)
next
  case SInterval
  then show ?thesis
    using assms
    by (auto simp: or_code_right nonzero_u32_def rule_in_range_def rule_in_width_def
          dest: decode_unsigned_fits split: sum.splits if_splits)
next
  case SWkst
  then show ?thesis
    using assms by (auto simp: rule_in_range_def rule_in_width_def split: sum.splits)
qed

lemma apply_strict_in_range:
  assumes "apply_strict s part = Inr s'" "\<And>b. sd_builder s = Some b \<Longrightarrow> rule_in_range b"
    "sd_builder s' = Some b'"
  shows "rule_in_range b'"
  using assms
  by (auto simp: apply_strict_def apply_to_builder_def note_name_def Let_def or_code_right rule_new_in_range
        dest: apply_by_part_in_range apply_scalar_part_in_range split: if_splits sum.splits option.splits)

lemma apply_strict_parts_in_range:
  assumes "apply_strict_parts s ps = Inr s'" "\<And>b. sd_builder s = Some b \<Longrightarrow> rule_in_range b"
    "sd_builder s' = Some b'"
  shows "rule_in_range b'"
  using assms
proof (induction ps arbitrary: s)
  case (Cons part ps)
  then obtain t where t: "apply_strict s part = Inr t" "apply_strict_parts t ps = Inr s'"
    by (auto split: sum.splits)
  show ?case using Cons.IH [OF t(2)] apply_strict_in_range [OF t(1) Cons.prems(2)] Cons.prems(3) by blast
qed simp

lemma keep_or_drop_in_range:
  "keep_or_drop b (\<lambda>c. apply_by_part c row tx) = (refused, b') \<Longrightarrow> rule_in_range b \<Longrightarrow> rule_in_range b'"
  "keep_or_drop b (\<lambda>c. apply_scalar_part c scalar tx) = (refused, b') \<Longrightarrow> rule_in_range b
     \<Longrightarrow> rule_in_range b'"
  by (auto simp: keep_or_drop_def dest: apply_by_part_in_range apply_scalar_part_in_range split: sum.splits)

lemma apply_rows_in_range:
  "rule_in_range b \<Longrightarrow> rule_in_range (fst (apply_rows push' l rows b env))"
proof (induction rows arbitrary: b env)
  case (Cons row rows)
  show ?case using Cons.IH keep_or_drop_in_range(1) [OF _ Cons.prems]
    by (simp add: Cons.prems split: option.split prod.split)
qed simp

lemma apply_scalars_in_range:
  "rule_in_range b \<Longrightarrow> rule_in_range (fst (apply_scalars push' l scalars b env))"
proof (induction scalars arbitrary: b env)
  case (Cons scalar scalars)
  show ?case using Cons.IH keep_or_drop_in_range(2) [OF _ Cons.prems]
    by (simp add: Cons.prems split: option.split prod.split)
qed simp

lemma apply_collected_in_range: "rule_in_range (fst (apply_collected push' f l env))"
  by (simp add: apply_collected_def Let_def case_prod_beta apply_scalars_in_range apply_rows_in_range
        rule_new_in_range)

definition legal_rule :: "recurrence_rule \<Rightarrow> bool" where
  "legal_rule r \<longleftrightarrow> rule_in_range r \<and> (by_set_pos r \<noteq> [] \<longrightarrow> has_selectable_part r)"

lemma rule_build_legal: "rule_build b = Inr r \<Longrightarrow> rule_in_range b \<Longrightarrow> legal_rule r"
  by (auto simp: rule_build_def legal_rule_def split: if_splits)

lemma without_set_pos_in_range: "rule_in_range b \<Longrightarrow> rule_in_range (b\<lparr>by_set_pos := []\<rparr>)"
  by (simp add: rule_in_range_def rule_in_width_def)

lemma strict_rule_legal: "rule_decode_value bytes = Inr r \<Longrightarrow> legal_rule r"
  by (auto simp: rule_decode_value_def strict_new_def or_code_right split: sum.splits
        intro!: rule_build_legal elim!: apply_strict_parts_in_range)

lemma finish_rule_legal: "finish_rule push' b env = (Inr r, env') \<Longrightarrow> rule_in_range b \<Longrightarrow> legal_rule r"
  using rule_build_legal without_set_pos_in_range by (auto simp: finish_rule_def split: sum.splits)

lemma lenient_rule_legal:
  assumes "parse_recur push' tx env = (Inr r, env')" shows "legal_rule r"
proof -
  obtain l f env2 env4 where "finish_rule push' (fst (apply_collected push' f l env2))
      (snd (apply_collected push' f l env2)) = (Inr r, env4)"
    using assms by (auto simp: parse_recur_def split: sum.splits prod.splits) (metis fst_conv snd_conv)
  then show ?thesis by (rule finish_rule_legal [OF _ apply_collected_in_range])
qed

section \<open>The property\<close>

text \<open>
  C24. Whatever octets a file wrote, a rule that either reading of its \<open>RECUR\<close> value gives is in the
  widths of its fields and in the ranges RFC 5545 section 3.3.10 prints, has a part to select from
  when it has \<open>BYSETPOS\<close>, and an \<open>UNTIL\<close> that is a date is a midnight on a floating clock: the
  hypothesis \<open>rule_in_width\<close> of the walk and of the search holds of every decoded rule.
\<close>

theorem decoded_rules_are_legal:
  assumes "rule_decode_value tx = Inr r \<or> fst (parse_recur push' tx env) = Inr r"
  shows "legal_rule r \<and> rule_in_width r"
proof -
  have l: "legal_rule r"
    using assms strict_rule_legal lenient_rule_legal [of push' tx env r] by (metis prod.collapse)
  then show ?thesis by (simp add: legal_rule_def rule_in_range_def)
qed

lemmas reading_defs =
  rule_decode_value_def rule_parts_def split_once_def strict_new_def apply_strict_def note_name_def
  apply_to_builder_def by_part_def scalar_part_of_def equals_ignoring_case_def FREQ_NAME_def
  rule_part_all_def scalar_part_all_def decode_freq_def freq_all_def decode_unsigned_def
  checked_u32_def u32_max_def nonzero_u32_def or_code_def rule_build_def rule_new_def FREQ_SLOT_def

lemma one_rule:
  "rule_decode_value (ascii ''FREQ=DAILY;COUNT=2'') = Inr ((rule_new Daily)\<lparr>rule_limited := CountLimit 2\<rparr>)"
  by (simp add: reading_defs ascii_def ascii_lower_def is_ascii_digit_def)

theorem decoded_rules_are_legal_witness:
  "legal_rule ((rule_new Daily)\<lparr>rule_limited := CountLimit 2\<rparr>)"
  using decoded_rules_are_legal [OF disjI1 [OF one_rule]] by (rule conjunct1)

end
