(* ===== verification/Recur_Readings.thy ===== *)
theory Recur_Readings
  imports Recur_Grammar "HOL-Library.Multiset"
begin

text \<open>
  The two readings of a \<open>RECUR\<close> value agree: a value the strict reading accepts is read by the lenient
  one as the same rule.  The strict reading applies the parts in the order they are written, the
  lenient one in the order of the table and then the scalars by position, so the proof is that the
  parts act on separate fields.
\<close>

section \<open>Parts as independent updates\<close>

text \<open>
  What a decoded part does to the rule, whether it is accepted, and the slots of the parts of a value
  with their texts and positions.
\<close>

fun apply_slot :: "recurrence_rule \<Rightarrow> rule_slot \<Rightarrow> octets \<Rightarrow> diagnostic_code + recurrence_rule" where
  "apply_slot b SlotFreq tx = Inr b"
| "apply_slot b (SlotRow row) tx = apply_by_part b row tx"
| "apply_slot b (SlotScalar scalar) tx = apply_scalar_part b scalar tx"

definition applied :: "rule_slot \<times> octets \<times> nat \<Rightarrow> recurrence_rule \<Rightarrow> recurrence_rule" where
  "applied c b = (case apply_slot b (fst c) (fst (snd c)) of Inr b' \<Rightarrow> b' | Inl e \<Rightarrow> b)"

definition accepted :: "rule_slot \<times> octets \<times> nat \<Rightarrow> bool" where
  "accepted c \<longleftrightarrow> (\<exists>b'. apply_slot (rule_new Daily) (fst c) (fst (snd c)) = Inr b')"

fun slot_number :: "rule_slot \<Rightarrow> nat" where
  "slot_number SlotFreq = FREQ_SLOT"
| "slot_number (SlotRow row) = rule_part_index row"
| "slot_number (SlotScalar scalar) = scalar_slot scalar"

fun is_row :: "rule_slot \<Rightarrow> bool" where
  "is_row (SlotRow row) = True"
| "is_row _ = False"

lemma slot_number_below: "slot_number sl < 21"
proof -
  have "rule_part_index p < 21" for p by (cases p) simp_all
  moreover have "scalar_slot s < 21" for s by (cases s) simp_all
  ultimately show ?thesis by (cases sl) (simp_all add: FREQ_SLOT_def)
qed

lemma slot_number_inj: "slot_number s1 = slot_number s2 \<longleftrightarrow> s1 = s2"
proof -
  have row: "rule_part_index p \<le> 8" for p by (cases p) simp_all
  have scalar: "17 \<le> scalar_slot s" for s by (cases s) simp_all
  have rows: "rule_part_index p = rule_part_index q \<longleftrightarrow> p = q" for p q by (cases p; cases q) simp_all
  have scalars: "scalar_slot s = scalar_slot t \<longleftrightarrow> s = t" for s t by (cases s; cases t) simp_all
  have mixed: "rule_part_index p \<noteq> scalar_slot s" "scalar_slot s \<noteq> rule_part_index p"
    "rule_part_index p \<noteq> FREQ_SLOT" "scalar_slot s \<noteq> FREQ_SLOT" for p s
    using row [of p] scalar [of s] by (simp_all add: FREQ_SLOT_def)
  show ?thesis
    by (cases s1; cases s2) (use mixed in \<open>auto simp: rows scalars eq_commute [of FREQ_SLOT]\<close>)
qed

lemma apply_slot_uniform:
  assumes "apply_slot b sl tx = Inr c" shows "apply_slot b' sl tx = Inr (applied (sl, tx, n) b')"
proof -
  have "\<exists>d. apply_slot b' sl tx = Inr d"
  proof (cases sl)
    case (SlotRow row)
    then show ?thesis using assms by (cases row) (auto simp: in_list_right)
  next
    case (SlotScalar scalar)
    then show ?thesis using assms by (cases scalar) (auto split: sum.splits)
  qed simp
  then show ?thesis by (auto simp: applied_def)
qed

lemma accepted_applies: "accepted (sl, tx, n) \<Longrightarrow> apply_slot b sl tx = Inr (applied (sl, tx, m) b)"
  using apply_slot_uniform by (auto simp: accepted_def)

lemma rejected_part_leaves_rule: "\<not> accepted c \<Longrightarrow> applied c b = b"
  using apply_slot_uniform [of b "fst c" "fst (snd c)" _ "rule_new Daily"]
  by (auto simp: applied_def accepted_def split: sum.split)

text \<open>A row of the table touches its own field and no other; two rows, and a row and a scalar, commute.\<close>

lemma applied_rows_commute:
  assumes "p \<noteq> q"
  shows "applied (SlotRow p, t, m) (applied (SlotRow q, u, n) b)
       = applied (SlotRow q, u, n) (applied (SlotRow p, t, m) b)"
  using assms
  by (cases p; cases q; simp add: applied_def in_list_def or_code_def split: option.split)

lemma applied_row_scalar_commute:
  "applied (SlotRow p, t, m) (applied (SlotScalar s, u, n) b)
     = applied (SlotScalar s, u, n) (applied (SlotRow p, t, m) b)"
  by (cases p; cases s; simp add: applied_def in_list_def or_code_def nonzero_u32_def split: option.split)

section \<open>The order of the parts\<close>

type_synonym slot_cell = "rule_slot \<times> octets \<times> nat"

fun placed :: "nat \<Rightarrow> rule_part_text list \<Rightarrow> slot_cell list" where
  "placed pos [] = []"
| "placed pos (part # ps) = (the (slot_of part), rpt_value part, pos) # placed (pos + 1) ps"

lemma placed_slots: "map fst (placed pos ps) = map (the \<circ> slot_of) ps"
  by (induction ps arbitrary: pos) auto

lemma length_placed [simp]: "length (placed pos ps) = length ps"
  by (induction ps arbitrary: pos) auto

lemma placed_positions: "map (snd \<circ> snd) (placed pos ps) = [pos..<pos + length ps]"
  by (induction ps arbitrary: pos) (auto simp: upt_rec)

definition row_cells :: "slot_cell list \<Rightarrow> slot_cell list" where
  "row_cells cs = filter (\<lambda>c. is_row (fst c)) cs"

definition scalar_cells :: "slot_cell list \<Rightarrow> slot_cell list" where
  "scalar_cells cs = filter (\<lambda>c. \<not> is_row (fst c)) cs"

lemma rows_first_step:
  assumes "is_row (fst c)" "\<forall>d\<in>set cs. \<not> is_row (fst d) \<and> fst d \<noteq> SlotFreq"
  shows "fold applied cs (applied c b) = applied c (fold applied cs b)"
  using assms(2)
proof (induction cs arbitrary: b)
  case (Cons d cs)
  obtain p t m where c: "c = (SlotRow p, t, m)" using assms(1) by (cases c; cases "fst c") auto
  obtain s u n where d: "d = (SlotScalar s, u, n)" using Cons.prems by (cases d; cases "fst d") auto
  show ?case using Cons by (simp add: c d applied_row_scalar_commute [symmetric])
qed simp

lemma rows_first:
  assumes "\<forall>d\<in>set cs. fst d \<noteq> SlotFreq"
  shows "fold applied cs b = fold applied (scalar_cells cs) (fold applied (row_cells cs) b)"
  using assms
proof (induction cs rule: rev_induct)
  case (snoc c cs)
  then have ih: "fold applied cs b = fold applied (scalar_cells cs) (fold applied (row_cells cs) b)" by simp
  have scalars: "\<forall>d\<in>set (scalar_cells cs). \<not> is_row (fst d) \<and> fst d \<noteq> SlotFreq"
    using snoc.prems by (simp add: scalar_cells_def)
  show ?case
  proof (cases "is_row (fst c)")
    case True
    then show ?thesis
      by (simp add: ih row_cells_def scalar_cells_def rows_first_step [OF True scalars, unfolded scalar_cells_def])
  next
    case False
    then show ?thesis by (simp add: ih row_cells_def scalar_cells_def)
  qed
qed (simp add: row_cells_def scalar_cells_def)

lemma rows_in_any_order:
  assumes "distinct (map fst cs)" "\<forall>c\<in>set cs. is_row (fst c)" "mset cs = mset ds"
  shows "fold applied cs = fold applied ds"
proof (rule fold_multiset_equiv [OF _ assms(3)])
  fix c d assume cd: "c \<in> set cs" "d \<in> set cs"
  obtain p t m where c: "c = (SlotRow p, t, m)" using assms(2) cd(1) by (cases c; cases "fst c") auto
  obtain q u n where d: "d = (SlotRow q, u, n)" using assms(2) cd(2) by (cases d; cases "fst d") auto
  show "applied c \<circ> applied d = applied d \<circ> applied c"
  proof (cases "p = q")
    case True
    have "inj_on fst (set cs)" using assms(1) by (simp add: distinct_map)
    then have "c = d" using True cd inj_onD [of fst "set cs" c d] by (simp add: c d)
    then show ?thesis by simp
  next
    case False
    then show ?thesis by (simp add: c d fun_eq_iff applied_rows_commute)
  qed
qed

section \<open>The strict reading\<close>

lemma by_part_slot:
  "slot_of part = (if equals_ignoring_case (rpt_name part) FREQ_NAME then Some SlotFreq
     else case by_part part of Some row \<Rightarrow> Some (SlotRow row)
       | None \<Rightarrow> map_option SlotScalar (scalar_part_of (rpt_name part)))"
  by (simp add: slot_of_def)

lemma apply_strict_step:
  assumes "apply_strict s part = Inr s'" "sd_builder s = Some b" "FREQ_SLOT \<in> set (sd_seen s)"
  obtains sl where "slot_of part = Some sl" "sl \<noteq> SlotFreq" "slot_number sl \<notin> set (sd_seen s)"
    "accepted (sl, rpt_value part, n)" "sd_builder s' = Some (applied (sl, rpt_value part, n) b)"
    "sd_seen s' = sd_seen s @ [slot_number sl]"
proof -
  have f: "\<not> equals_ignoring_case (rpt_name part) FREQ_NAME"
    using assms(1,3) by (auto simp: apply_strict_def note_name_def split: if_splits sum.splits)
  obtain sl b' where sl: "slot_of part = Some sl" "sl \<noteq> SlotFreq" "slot_number sl \<notin> set (sd_seen s)"
    "apply_slot b sl (rpt_value part) = Inr b'" "sd_builder s' = Some b'"
    "sd_seen s' = sd_seen s @ [slot_number sl]"
    using assms(1,2) f
    by (auto simp: apply_strict_def apply_to_builder_def note_name_def or_code_right by_part_slot Let_def
          split: sum.splits option.splits if_splits)
  moreover have "accepted (sl, rpt_value part, n)" "b' = applied (sl, rpt_value part, n) b"
    using apply_slot_uniform [OF sl(4)] sl(4) by (auto simp: accepted_def applied_def)
  ultimately show thesis using that by blast
qed

lemma apply_strict_parts_fold:
  assumes "apply_strict_parts s ps = Inr s'" "sd_builder s = Some b" "FREQ_SLOT \<in> set (sd_seen s)"
  shows "sd_builder s' = Some (fold applied (placed pos ps) b)
    \<and> (\<forall>part\<in>set ps. slot_of part \<noteq> None \<and> slot_of part \<noteq> Some SlotFreq)
    \<and> (\<forall>c\<in>set (placed pos ps). accepted c \<and> slot_number (fst c) \<notin> set (sd_seen s))
    \<and> distinct (map fst (placed pos ps))"
  using assms
proof (induction ps arbitrary: s b pos)
  case (Cons part ps)
  then obtain t where t: "apply_strict s part = Inr t" "apply_strict_parts t ps = Inr s'"
    by (auto split: sum.splits)
  obtain sl where sl: "slot_of part = Some sl" "sl \<noteq> SlotFreq" "slot_number sl \<notin> set (sd_seen s)"
    "accepted (sl, rpt_value part, pos)" "sd_builder t = Some (applied (sl, rpt_value part, pos) b)"
    "sd_seen t = sd_seen s @ [slot_number sl]"
    using apply_strict_step [OF t(1) Cons.prems(2,3), of pos] by blast
  note ih = Cons.IH [OF t(2) sl(5), of "pos + 1"]
  have new: "FREQ_SLOT \<in> set (sd_seen t)" using Cons.prems(3) sl(6) by simp
  show ?case using ih [OF new] sl by auto
qed simp

section \<open>The lenient reading\<close>

text \<open>The collected parts as a map from slots to texts and positions.\<close>

definition holds :: "lenient_parts \<Rightarrow> (rule_slot \<Rightarrow> (octets \<times> nat) option) \<Rightarrow> bool" where
  "holds l F \<longleftrightarrow>
     length (lp_rows l) = 9 \<and> length (lp_scalars l) = 4
     \<and> (\<forall>row. row_text l row = map_option fst (F (SlotRow row)))
     \<and> (\<forall>s. scalar_cell l s = F (SlotScalar s))"

lemma row_index_below: "rule_part_index row < 9" by (cases row) simp_all

lemma row_index_inj: "rule_part_index p = rule_part_index q \<longleftrightarrow> p = q"
  using slot_number_inj [of "SlotRow p" "SlotRow q"] by simp

lemma scalar_index_below: "scalar_index s < 4" by (cases s) simp_all

lemma scalar_index_inj: "scalar_index s = scalar_index t \<longleftrightarrow> s = t" by (cases s; cases t) simp_all

lemma holds_new: "holds (lenient_new\<lparr>lp_freq := f\<rparr>) Map.empty"
  using row_index_below scalar_index_below
  by (simp add: holds_def lenient_new_def row_text_def scalar_cell_def)

lemma put_part_free:
  assumes "holds l F" "sl \<noteq> SlotFreq" "F sl = None"
  shows "\<exists>l'. put_part l sl tx n = (False, l') \<and> lp_freq l' = lp_freq l \<and> holds l' (F(sl \<mapsto> (tx, n)))"
proof (cases sl)
  case (SlotRow row)
  then show ?thesis
    using assms
    by (auto simp: row_index_below scalar_index_below holds_def row_text_def scalar_cell_def row_index_inj nth_list_update)
next
  case (SlotScalar s)
  then show ?thesis
    using assms
    by (auto simp: row_index_below scalar_index_below holds_def row_text_def scalar_cell_def scalar_index_inj nth_list_update)
qed (use assms in simp)

lemma collect_from_placed:
  assumes "holds l F" "\<forall>part\<in>set ps. slot_of part \<noteq> None \<and> slot_of part \<noteq> Some SlotFreq"
    "\<forall>c\<in>set (placed pos ps). F (fst c) = None" "distinct (map fst (placed pos ps))"
    "pos + length ps \<le> u32_max"
  shows "\<exists>l'. collect_from push' l pos ps env = (l', env) \<and> lp_freq l' = lp_freq l
      \<and> holds l' (F ++ map_of (placed pos ps))"
  using assms
proof (induction ps arbitrary: l F pos)
  case (Cons part ps)
  obtain sl where sl: "slot_of part = Some sl" "sl \<noteq> SlotFreq" using Cons.prems(2) by auto
  obtain l1 where l1: "put_part l sl (rpt_value part) pos = (False, l1)" "lp_freq l1 = lp_freq l"
    "holds l1 (F(sl \<mapsto> (rpt_value part, pos)))"
    using put_part_free [OF Cons.prems(1) sl(2), of "rpt_value part" pos] Cons.prems(3) sl(1) by fastforce
  have free: "\<forall>c\<in>set (placed (pos + 1) ps). (F(sl \<mapsto> (rpt_value part, pos))) (fst c) = None"
    using Cons.prems(3,4) sl(1) by force
  obtain l' where l': "collect_from push' l1 (pos + 1) ps env = (l', env)" "lp_freq l' = lp_freq l1"
    "holds l' (F(sl \<mapsto> (rpt_value part, pos)) ++ map_of (placed (pos + 1) ps))"
    using Cons.IH [OF l1(3) _ free] Cons.prems(2-5) sl(1) by (auto simp del: fun_upd_apply)
  have "F(sl \<mapsto> (rpt_value part, pos)) ++ map_of (placed (pos + 1) ps)
      = F ++ map_of (placed pos (part # ps))"
    using Cons.prems(4) sl(1) by (simp add: map_add_upd_left dom_map_of_conv_image_fst)
  then show ?case using l' l1 sl Cons.prems(5) by (simp del: fun_upd_apply)
qed simp

definition cells_at :: "(rule_slot \<Rightarrow> (octets \<times> nat) option) \<Rightarrow> rule_slot list \<Rightarrow> slot_cell list" where
  "cells_at F slots = map (\<lambda>sl. (sl, the (F sl))) (filter (\<lambda>sl. F sl \<noteq> None) slots)"

lemma apply_rows_accepted:
  assumes "holds l F" "\<forall>c\<in>set (cells_at F (map SlotRow rows)). accepted c"
  shows "apply_rows push' l rows b env = (fold applied (cells_at F (map SlotRow rows)) b, env)"
  using assms(2)
proof (induction rows arbitrary: b)
  case (Cons row rows)
  show ?case
  proof (cases "F (SlotRow row)")
    case None
    then show ?thesis using Cons assms(1) by (simp add: cells_at_def holds_def)
  next
    case (Some c)
    obtain t n where c: "c = (t, n)" by (cases c)
    have "apply_by_part b row t = Inr (applied (SlotRow row, t, n) b)"
      using Cons.prems accepted_applies [of "SlotRow row" t n b n] by (simp add: cells_at_def Some c)
    then show ?thesis
      using Cons assms(1) by (simp add: cells_at_def holds_def Some c keep_or_drop_def report_dropped_part_def)
  qed
qed (simp add: cells_at_def)

lemma apply_scalars_accepted:
  assumes "holds l F" "\<forall>c\<in>set (cells_at F (map SlotScalar scalars)). accepted c"
  shows "apply_scalars push' l scalars b env = (fold applied (cells_at F (map SlotScalar scalars)) b, env)"
  using assms(2)
proof (induction scalars arbitrary: b)
  case (Cons s scalars)
  show ?case
  proof (cases "F (SlotScalar s)")
    case None
    then show ?thesis using Cons assms(1) by (simp add: cells_at_def holds_def scalar_text_def)
  next
    case (Some c)
    obtain t n where c: "c = (t, n)" by (cases c)
    have "apply_scalar_part b s t = Inr (applied (SlotScalar s, t, n) b)"
      using Cons.prems accepted_applies [of "SlotScalar s" t n b n] by (simp add: cells_at_def Some c)
    then show ?thesis
      using Cons assms(1)
      by (simp add: cells_at_def holds_def Some c scalar_text_def keep_or_drop_def report_dropped_part_def)
  qed
qed (simp add: cells_at_def)

section \<open>The cells of the table and of the scalars\<close>

lemma placed_value: "distinct (map fst cs) \<Longrightarrow> c \<in> set cs \<Longrightarrow> map_of cs (fst c) = Some (snd c)"
  by (cases c) simp

lemma in_cells_at: "(sl, v) \<in> set (cells_at F slots) \<longleftrightarrow> sl \<in> set slots \<and> F sl = Some v"
  by (auto simp: cells_at_def)

lemma cells_at_part:
  assumes d: "distinct (map fst cs)" shows "set ds \<subseteq> set cs \<Longrightarrow> cells_at (map_of cs) (map fst ds) = ds"
proof (induction ds)
  case (Cons c ds)
  then have "map_of cs (fst c) = Some (snd c)" by (intro placed_value [OF d]) simp
  then show ?case using Cons by (simp add: cells_at_def del: map_of_eq_Some_iff)
qed (simp add: cells_at_def)

lemma cells_at_present:
  "cells_at F slots = cells_at F (filter (\<lambda>sl. F sl \<noteq> None) slots)"
  by (simp add: cells_at_def)

lemma row_cells_in_table_order:
  assumes d: "distinct (map fst cs)" and free: "\<forall>c\<in>set cs. fst c \<noteq> SlotFreq"
  shows "mset (cells_at (map_of cs) (map SlotRow rule_part_all)) = mset (row_cells cs)"
proof (rule set_eq_iff_mset_eq_distinct [THEN iffD1])
  have "distinct (map SlotRow rule_part_all)" by (simp add: rule_part_all_def)
  then show "distinct (cells_at (map_of cs) (map SlotRow rule_part_all))"
    by (simp add: cells_at_def distinct_map inj_on_def)
  show "distinct (row_cells cs)" using d by (simp add: row_cells_def distinct_map)
  have rows: "sl \<in> SlotRow ` set rule_part_all \<longleftrightarrow> is_row sl" for sl
    by (cases sl) auto
  have "(sl, v) \<in> set (cells_at (map_of cs) (map SlotRow rule_part_all))
      \<longleftrightarrow> (sl, v) \<in> set (row_cells cs)" for sl v
    using d by (auto simp: in_cells_at rows row_cells_def)
  then show "set (cells_at (map_of cs) (map SlotRow rule_part_all)) = set (row_cells cs)" by auto
qed

fun scalar_of :: "rule_slot \<Rightarrow> scalar_part" where
  "scalar_of (SlotScalar s) = s"
| "scalar_of _ = SUntil"

lemma scalar_cells_by_position:
  assumes d: "distinct (map fst cs)" and free: "\<forall>c\<in>set cs. fst c \<noteq> SlotFreq"
    and at: "sorted (map (snd \<circ> snd) cs)" "distinct (map (snd \<circ> snd) cs)"
    and h: "holds l (map_of cs)"
  shows "cells_at (map_of cs) (map SlotScalar (sort_key (scalar_position l) scalar_part_all))
       = scalar_cells cs"
proof -
  let ?ks = "map (scalar_of \<circ> fst) (scalar_cells cs)" and ?k = "scalar_position l"
  let ?present = "\<lambda>s. map_of cs (SlotScalar s) \<noteq> None"
  have names: "map SlotScalar ?ks = map fst (scalar_cells cs)"
  proof -
    have "SlotScalar (scalar_of (fst c)) = fst c" if "c \<in> set (scalar_cells cs)" for c
      using that free by (cases "fst c") (auto simp: scalar_cells_def)
    then show ?thesis by simp
  qed
  have sub: "set (scalar_cells cs) \<subseteq> set cs" by (auto simp: scalar_cells_def)
  have dist: "distinct (map fst (scalar_cells cs))"
    using d by (auto simp: scalar_cells_def distinct_map inj_on_def)
  then have dk: "distinct ?ks"
    by (metis names distinct_map)
  have key: "?k (scalar_of (fst c)) = snd (snd c)" if "c \<in> set (scalar_cells cs)" for c
  proof -
    have "SlotScalar (scalar_of (fst c)) = fst c"
      using that free by (cases "fst c") (auto simp: scalar_cells_def)
    moreover have "map_of cs (fst c) = Some (snd c)" using placed_value [OF d] that sub by blast
    ultimately have "scalar_cell l (scalar_of (fst c)) = Some (snd c)" using h by (simp add: holds_def)
    then show ?thesis by (simp add: scalar_position_def split: prod.split)
  qed
  have keys: "map ?k ?ks = map (snd \<circ> snd) (scalar_cells cs)" using key by simp
  have "sorted (map (snd \<circ> snd) (scalar_cells cs))"
    unfolding scalar_cells_def using at(1) by (rule sorted_filter)
  then have sorted: "sorted (map ?k ?ks)" by (simp only: keys)
  have dkeys: "distinct (map ?k ?ks)"
    unfolding keys using at(2) by (auto simp: scalar_cells_def distinct_map inj_on_def)
  have set: "set ?ks = {s. ?present s}"
  proof (rule set_eqI)
    fix s
    have "s \<in> set ?ks \<longleftrightarrow> SlotScalar s \<in> set (map SlotScalar ?ks)" by auto
    also have "\<dots> \<longleftrightarrow> SlotScalar s \<in> fst ` set (scalar_cells cs)" by (simp only: names set_map)
    also have "\<dots> \<longleftrightarrow> SlotScalar s \<in> fst ` set cs" by (force simp: scalar_cells_def)
    also have "\<dots> \<longleftrightarrow> ?present s" by (auto simp: map_of_eq_None_iff)
    finally show "s \<in> set ?ks \<longleftrightarrow> s \<in> {s. ?present s}" by simp
  qed
  have all: "set scalar_part_all = UNIV" "distinct scalar_part_all"
    by (auto simp: scalar_part_all_def) (metis scalar_part.exhaust)
  have "mset (filter ?present scalar_part_all) = mset ?ks"
    by (rule set_eq_iff_mset_eq_distinct [THEN iffD1]) (use all dk set in auto)
  moreover have "set (filter ?present scalar_part_all) = set ?ks" unfolding set using all(1) by auto
  moreover have "inj_on ?k (set ?ks)" using dkeys by (simp only: distinct_map)
  ultimately have "sort_key ?k (filter ?present scalar_part_all) = ?ks"
    using sorted by (metis sort_key_inj_key_eq)
  then have f: "filter ?present (sort_key ?k scalar_part_all) = ?ks" by (simp add: filter_sort)
  have "cells_at (map_of cs) (map SlotScalar (sort_key ?k scalar_part_all))
      = cells_at (map_of cs) (map SlotScalar (filter ?present (sort_key ?k scalar_part_all)))"
    by (subst cells_at_present) (simp add: filter_map o_def)
  also have "\<dots> = cells_at (map_of cs) (map fst (scalar_cells cs))" by (simp only: f names)
  also have "\<dots> = scalar_cells cs" by (rule cells_at_part [OF d sub])
  finally show ?thesis .
qed

section \<open>The two readings\<close>

text \<open>Which slots a value writes.\<close>

definition writes_slot :: "octets \<Rightarrow> rule_slot \<Rightarrow> bool" where
  "writes_slot tx sl \<longleftrightarrow> (\<exists>part\<in>set (rule_parts tx). slot_of part = Some sl)"

definition report_both_limits :: "'k sink_push \<Rightarrow> octets \<Rightarrow> 'k env \<Rightarrow> 'k env" where
  "report_both_limits push' tx env =
     (if writes_slot tx (SlotScalar SUntil) \<and> writes_slot tx (SlotScalar SCount)
      then report_rule push' (Expansion MutuallyExclusiveRuleParts) Violation env else env)"

lemma placed_few:
  assumes "distinct (map fst (placed pos ps))" shows "length ps \<le> 21"
proof -
  have "inj_on slot_number (set (map fst (placed pos ps)))" by (simp add: inj_on_def slot_number_inj)
  then have "distinct (map slot_number (map fst (placed pos ps)))"
    using assms by (simp only: distinct_map)
  moreover have "set (map slot_number (map fst (placed pos ps))) \<subseteq> {..<21}"
    using slot_number_below by auto
  ultimately have "length (map slot_number (map fst (placed pos ps))) \<le> card {..<21::nat}"
    by (metis card_mono distinct_card finite_lessThan)
  then show ?thesis by simp
qed

lemma strict_starts_with_freq:
  assumes "apply_strict_parts strict_new ps = Inr s" "sd_builder s = Some b"
  obtains part rest f where "ps = part # rest" "slot_of part = Some SlotFreq"
    "decode_freq (rpt_value part) = Some f"
    "apply_strict_parts \<lparr>sd_builder = Some (rule_new f), sd_seen = [FREQ_SLOT]\<rparr> rest = Inr s"
proof (cases ps)
  case Nil
  then show ?thesis using assms by (auto simp: strict_new_def)
next
  case (Cons part rest)
  then show ?thesis using assms that
    by (auto simp: strict_new_def apply_strict_def note_name_def or_code_right Let_def slot_of_def
          split: if_splits sum.splits)
qed

lemma in_placed_slots:
  assumes "\<forall>part\<in>set ps. slot_of part \<noteq> None"
  shows "sl \<in> fst ` set (placed pos ps) \<longleftrightarrow> (\<exists>part\<in>set ps. slot_of part = Some sl)"
  using assms by (induction ps arbitrary: pos) auto

lemma lenient_reads_strict:
  assumes "rule_decode_value tx = Inr r"
  shows "parse_recur push' tx env
       = (Inr r, report_forbidden_ordinals push' r (report_both_limits push' tx env))"
proof -
  obtain s b where s: "apply_strict_parts strict_new (rule_parts tx) = Inr s" "sd_builder s = Some b"
    "rule_build b = Inr r"
    using assms by (auto simp: rule_decode_value_def or_code_right split: sum.splits)
  obtain part rest f where p: "rule_parts tx = part # rest" "slot_of part = Some SlotFreq"
    "decode_freq (rpt_value part) = Some f"
    "apply_strict_parts \<lparr>sd_builder = Some (rule_new f), sd_seen = [FREQ_SLOT]\<rparr> rest = Inr s"
    by (rule strict_starts_with_freq [OF s(1,2)])
  let ?cs = "placed 1 rest"
  have st: "b = fold applied ?cs (rule_new f)"
    "\<forall>part\<in>set rest. slot_of part \<noteq> None \<and> slot_of part \<noteq> Some SlotFreq"
    "\<forall>c\<in>set ?cs. accepted c" "distinct (map fst ?cs)"
    using apply_strict_parts_fold [OF p(4), of "rule_new f" 1] s(2) by auto
  have free: "\<forall>c\<in>set ?cs. fst c \<noteq> SlotFreq"
    using in_placed_slots [of rest SlotFreq 1] st(2) by force
  define l0 where "l0 = lenient_new\<lparr>lp_freq := Some (rpt_value part)\<rparr>"
  obtain l where l: "collect_from push' l0 1 rest env = (l, env)" "lp_freq l = Some (rpt_value part)"
    "holds l (map_of ?cs)"
    using collect_from_placed [OF holds_new [of "Some (rpt_value part)"] st(2) _ st(4), of push' env]
      placed_few [OF st(4)] by (auto simp: l0_def u32_max_def)
  have collect: "collect_parts push' tx env = (l, env)"
    using l(1) p(2) by (simp add: collect_parts_def p(1) l0_def lenient_new_def)
  let ?rows = "cells_at (map_of ?cs) (map SlotRow rule_part_all)"
  let ?scalars = "sort_key (scalar_position l) scalar_part_all"
  have acc: "\<forall>c\<in>set (cells_at (map_of ?cs) slots). accepted c" for slots
  proof
    fix c assume "c \<in> set (cells_at (map_of ?cs) slots)"
    then have "map_of ?cs (fst c) = Some (snd c)" using in_cells_at [of "fst c" "snd c"] by simp
    then have "c \<in> set ?cs" using map_of_SomeD by fastforce
    then show "accepted c" using st(3) by blast
  qed
  have rows: "fold applied ?rows = fold applied (row_cells ?cs)"
    by (rule rows_in_any_order [OF _ _ row_cells_in_table_order [OF st(4) free]])
       (auto simp: cells_at_def rule_part_all_def)
  have scalars: "cells_at (map_of ?cs) (map SlotScalar ?scalars) = scalar_cells ?cs"
    by (rule scalar_cells_by_position [OF st(4) free _ _ l(3)])
       (simp_all only: placed_positions sorted_upt distinct_upt)
  have written: "scalar_text l sc \<noteq> None \<longleftrightarrow> writes_slot tx (SlotScalar sc)" for sc
  proof -
    have "scalar_text l sc \<noteq> None \<longleftrightarrow> SlotScalar sc \<in> fst ` set ?cs"
      using l(3) by (auto simp: scalar_text_def holds_def map_of_eq_None_iff)
    also have "\<dots> \<longleftrightarrow> writes_slot tx (SlotScalar sc)"
      using in_placed_slots [of rest "SlotScalar sc" 1] st(2) p(2) by (auto simp: writes_slot_def p(1))
    finally show ?thesis .
  qed
  have "apply_collected push' f l env = (b, report_both_limits push' tx env)"
    by (simp only: apply_collected_def written report_both_limits_def Let_def st(1) prod.case
          apply_rows_accepted [OF l(3) acc] apply_scalars_accepted [OF l(3) acc] rows scalars
          rows_first [OF free, of "rule_new f"])
  then show ?thesis
    using l(2) p(3) s(3) by (simp add: parse_recur_def collect resolve_freq_def finish_rule_def)
qed

text \<open>
  C9. The strict and the lenient reading of a \<open>RECUR\<close> value are one grammar: a value the strict
  reading accepts is read by the lenient one, with any sink, as the same rule, and the lenient one
  reports nothing of it but that it holds both \<open>UNTIL\<close> and \<open>COUNT\<close>, and that a \<open>BYDAY\<close> carries an
  ordinal under a frequency other than monthly and yearly.
\<close>

theorem strict_and_lenient_agree:
  assumes "rule_decode_value tx = Inr r"
  shows "parse_recur push' tx env
       = (Inr r, report_forbidden_ordinals push' r (report_both_limits push' tx env))"
  by (rule lenient_reads_strict [OF assms])

theorem strict_and_lenient_agree_witness:
  "fst (parse_recur ignore_push (ascii ''FREQ=DAILY;COUNT=2'') ((), meter_new LIMITS_DEFAULT))
     = Inr ((rule_new Daily)\<lparr>rule_limited := CountLimit 2\<rparr>)"
  unfolding strict_and_lenient_agree [OF one_rule] by simp

end
