(* ===== verification/Codec_Text_Values.thy ===== *)
theory Codec_Text_Values
  imports Codec_Round_Trip Text_Escape
begin

text \<open>
  The value types that hold the text they write: \<open>TextValue\<close>, \<open>BinaryValue\<close> and \<open>UriValue\<close> of
  \<open>core/view.rs\<close> with their codecs in \<open>core/codec.rs\<close>, and the UTF-8 check of the standard library
  that \<open>TextValue::decode\<close> asks first, with the two figures a \<open>Utf8Error\<close> reports.
\<close>

section \<open>UTF-8\<close>

text \<open>
  How many octets the character at the head of the input has, or how many of them were read as
  part of an invalid sequence (\<open>None\<close> when the input ended inside it).
\<close>

fun utf8_tail :: "(octet \<times> octet) list \<Rightarrow> octets \<Rightarrow> nat \<Rightarrow> nat option + nat" where
  "utf8_tail [] rest n = Inr n"
| "utf8_tail (r # rs) [] n = Inl None"
| "utf8_tail ((lo, hi) # rs) (c # cs) n =
     (if lo \<le> c \<and> c \<le> hi then utf8_tail rs cs (n + 1) else Inl (Some n))"

fun utf8_char :: "octets \<Rightarrow> nat option + nat" where
  "utf8_char [] = Inl None"
| "utf8_char (b # rest) =
     (if b < 0x80 then Inr 1
      else if 0xC2 \<le> b \<and> b \<le> 0xDF then utf8_tail [(0x80, 0xBF)] rest 1
      else if b = 0xE0 then utf8_tail [(0xA0, 0xBF), (0x80, 0xBF)] rest 1
      else if 0xE1 \<le> b \<and> b \<le> 0xEC \<or> b = 0xEE \<or> b = 0xEF
        then utf8_tail [(0x80, 0xBF), (0x80, 0xBF)] rest 1
      else if b = 0xED then utf8_tail [(0x80, 0x9F), (0x80, 0xBF)] rest 1
      else if b = 0xF0 then utf8_tail [(0x90, 0xBF), (0x80, 0xBF), (0x80, 0xBF)] rest 1
      else if 0xF1 \<le> b \<and> b \<le> 0xF3 then utf8_tail [(0x80, 0xBF), (0x80, 0xBF), (0x80, 0xBF)] rest 1
      else if b = 0xF4 then utf8_tail [(0x80, 0x8F), (0x80, 0xBF), (0x80, 0xBF)] rest 1
      else Inl (Some 1))"

lemma utf8_tail_bounds: "utf8_tail rs bs n = Inr k \<Longrightarrow> k = n + length rs \<and> length rs \<le> length bs"
  by (induction rs bs n rule: utf8_tail.induct) (auto split: if_splits)

lemma utf8_char_bounds: "utf8_char bs = Inr k \<Longrightarrow> 0 < k \<and> k \<le> length bs"
  by (cases bs) (auto split: if_splits dest!: utf8_tail_bounds)

record text_error =
  te_valid_up_to :: nat
  te_error_len :: "nat option"

definition TEXT_ERROR_CODE :: diagnostic_code where
  "TEXT_ERROR_CODE = Reading InvalidUtf8Text"

text \<open>The characters of the input, each as its octets, or where it stops being text.\<close>

function utf8_chars :: "nat \<Rightarrow> octets \<Rightarrow> text_error + octets list" where
  "utf8_chars pos bytes =
     (if bytes = [] then Inr []
      else case utf8_char bytes of
        Inl e \<Rightarrow> Inl \<lparr>te_valid_up_to = pos, te_error_len = e\<rparr>
      | Inr n \<Rightarrow>
          (case utf8_chars (pos + n) (drop n bytes) of
             Inl e \<Rightarrow> Inl e
           | Inr cs \<Rightarrow> Inr (take n bytes # cs)))"
  by pat_completeness auto
termination
  by (relation "measure (length \<circ> snd)") (auto dest!: utf8_char_bounds intro: diff_less)

declare utf8_chars.simps [simp del]

section \<open>TEXT\<close>

record text_value =
  tv_bytes :: octets

definition substitution_for :: "octet \<Rightarrow> octet option" where
  "substitution_for spelling =
     map_option snd (find (\<lambda>(written, _). written = spelling) TEXT_ESCAPES)"

text \<open>A character of one octet is the only one that fits \<open>u8\<close> and has a substitution.\<close>

definition push_escaped :: "octets \<Rightarrow> octets \<Rightarrow> octets" where
  "push_escaped out character =
     (case (case character of [b] \<Rightarrow> substitution_for b | _ \<Rightarrow> None) of
        Some octet \<Rightarrow> out @ [octet]
      | None \<Rightarrow> (out @ [0x5C]) @ character)"

fun unescape_chars :: "octets list \<Rightarrow> bool \<Rightarrow> octets \<Rightarrow> octets" where
  "unescape_chars [] pending out = (if pending then out @ [0x5C] else out)"
| "unescape_chars (character # rest) pending out =
     (if pending then unescape_chars rest False (push_escaped out character)
      else if character = [0x5C] then unescape_chars rest True out
      else unescape_chars rest False (out @ character))"

definition unescape_view :: "octets list \<Rightarrow> octets" where
  "unescape_view characters =
     (if 0x5C \<notin> set (concat characters) then concat characters else unescape_chars characters False [])"

definition text_decode :: "text_value \<Rightarrow> text_error + octets" where
  "text_decode v =
     (case utf8_chars 0 (tv_bytes v) of
        Inl e \<Rightarrow> Inl e
      | Inr characters \<Rightarrow> Inr (unescape_view characters))"

definition text_decode_value :: "octets \<Rightarrow> diagnostic_code + text_value" where
  "text_decode_value bytes = Inr \<lparr>tv_bytes = bytes\<rparr>"

definition text_encode_value :: "text_value \<Rightarrow> octets \<Rightarrow> encoding" where
  "text_encode_value v out =
     (if list_ex is_forbidden_control (tv_bytes v) then (Inl MutIllegalControlCharacter, out)
      else (Inr (), out @ tv_bytes v))"

definition text_coupled_parameters :: "text_value \<Rightarrow> parameter_edit list" where
  "text_coupled_parameters v = [edit_remove VALUE_name]"

section \<open>Inline binary\<close>

record binary_value =
  bv_bytes :: octets

definition QUANTUM_LEN :: nat where "QUANTUM_LEN = 4"

definition sextet :: "octet \<Rightarrow> nat option" where
  "sextet b =
     (if 0x41 \<le> b \<and> b \<le> 0x5A then Some (unat (b - 0x41))
      else if 0x61 \<le> b \<and> b \<le> 0x7A then Some (unat (b - 0x61 + 26))
      else if 0x30 \<le> b \<and> b \<le> 0x39 then Some (unat (b - 0x30 + 52))
      else if b = 0x2B then Some 62
      else if b = 0x2F then Some 63
      else None)"

definition is_end_quantum :: "octets \<Rightarrow> bool" where
  "is_end_quantum quantum =
     (let padding = length (takeWhile (\<lambda>b. b = 0x3D) (rev quantum)) in
      if padding > 2 then False
      else list_all (\<lambda>b. sextet b \<noteq> None) (take (length quantum - padding) quantum))"

definition is_base64_text :: "octets \<Rightarrow> bool" where
  "is_base64_text bytes =
     (if length bytes < QUANTUM_LEN then bytes = []
      else let end' = length bytes - QUANTUM_LEN; body = take end' bytes; final = drop end' bytes in
        length body mod QUANTUM_LEN = 0 \<and> list_all (\<lambda>b. sextet b \<noteq> None) body \<and> is_end_quantum final)"

fun quantum_loop :: "octets \<Rightarrow> nat \<Rightarrow> nat \<Rightarrow> (nat \<times> nat) option" where
  "quantum_loop [] packed filled = Some (packed, filled)"
| "quantum_loop (b # rest) packed filled = do {
     v \<leftarrow> (if b = 0x3D then Some 0 else sextet b);
     (if packed * 64 \<le> u32_max \<and> packed * 64 + v \<le> u32_max
      then quantum_loop rest (packed * 64 + v) (if b \<noteq> 0x3D then filled + 1 else filled)
      else None)
   }"

definition quantum_octets :: "octets \<Rightarrow> (octets \<times> nat) option" where
  "quantum_octets quantum = do {
     (packed, filled) \<leftarrow> quantum_loop quantum 0 0;
     a \<leftarrow> u8_of_u64 (packed div 65536);
     b \<leftarrow> u8_of_u64 (packed div 256 mod 256);
     c \<leftarrow> u8_of_u64 (packed mod 256);
     Some ([of_nat a, of_nat b, of_nat c], filled * 6 div 8)
   }"

text \<open>\<open>chunks_exact\<close>: the whole quanta of the text, a shorter remainder left out.\<close>

function binary_chunks :: "octets \<Rightarrow> octets \<Rightarrow> octets option" where
  "binary_chunks bytes out =
     (if length bytes < QUANTUM_LEN then Some out
      else do {
        (stands_for, filled) \<leftarrow> quantum_octets (take QUANTUM_LEN bytes);
        held \<leftarrow> get_range stands_for 0 filled;
        binary_chunks (drop QUANTUM_LEN bytes) (out @ held)
      })"
  by pat_completeness auto
termination by (relation "measure (length \<circ> fst)") (auto simp: QUANTUM_LEN_def)

declare binary_chunks.simps [simp del]

definition binary_decode :: "binary_value \<Rightarrow> diagnostic_code + octets" where
  "binary_decode v =
     (if \<not> is_base64_text (bv_bytes v) then Inl (Reading MalformedBinary)
      else or_code (Reading MalformedBinary) (binary_chunks (bv_bytes v) []))"

definition binary_decode_value :: "octets \<Rightarrow> diagnostic_code + binary_value" where
  "binary_decode_value bytes =
     (if \<not> is_base64_text bytes then Inl (Reading MalformedBinary) else Inr \<lparr>bv_bytes = bytes\<rparr>)"

definition binary_encode_value :: "binary_value \<Rightarrow> octets \<Rightarrow> encoding" where
  "binary_encode_value v out =
     (if \<not> is_base64_text (bv_bytes v) then (Inl MutNotRepresentable, out)
      else (Inr (), out @ bv_bytes v))"

definition binary_coupled_parameters :: "binary_value \<Rightarrow> parameter_edit list" where
  "binary_coupled_parameters v =
     [edit_set VALUE_name (value_type_as_bytes TyBinary), edit_set ENCODING_name (ascii ''BASE64'')]"

section \<open>Addresses\<close>

record uri_value =
  uv_bytes :: octets

definition is_ascii_alphabetic :: "octet \<Rightarrow> bool" where
  "is_ascii_alphabetic b \<longleftrightarrow> 0x41 \<le> b \<and> b \<le> 0x5A \<or> 0x61 \<le> b \<and> b \<le> 0x7A"

definition is_ascii_alphanumeric :: "octet \<Rightarrow> bool" where
  "is_ascii_alphanumeric b \<longleftrightarrow> is_ascii_alphabetic b \<or> is_ascii_digit b"

definition is_ascii_hexdigit :: "octet \<Rightarrow> bool" where
  "is_ascii_hexdigit b \<longleftrightarrow> is_ascii_digit b \<or> 0x41 \<le> b \<and> b \<le> 0x46 \<or> 0x61 \<le> b \<and> b \<le> 0x66"

definition is_uri_octet :: "octet \<Rightarrow> bool" where
  "is_uri_octet b \<longleftrightarrow> is_ascii_alphanumeric b \<or> b \<in> set (ascii ''-._~:/?#[]@!$&'()*+,;=%'')"

fun is_scheme :: "octets \<Rightarrow> bool" where
  "is_scheme [] = False"
| "is_scheme (first # rest) =
     (is_ascii_alphabetic first
      \<and> list_all (\<lambda>b. is_ascii_alphanumeric b \<or> b \<in> set (ascii ''+-.'')) rest)"

definition scheme_of :: "octets \<Rightarrow> octets option" where
  "scheme_of bytes = map_option fst (split_at_octet (oct CHR '':'') bytes)"

fun percents_are_escapes :: "octets \<Rightarrow> bool" where
  "percents_are_escapes [] = True"
| "percents_are_escapes (b # rest) =
     ((b = oct CHR ''%'' \<longrightarrow>
        (case rest of high # low # _ \<Rightarrow> is_ascii_hexdigit high \<and> is_ascii_hexdigit low | _ \<Rightarrow> False))
      \<and> percents_are_escapes rest)"

definition is_uri_text :: "octets \<Rightarrow> bool" where
  "is_uri_text bytes \<longleftrightarrow>
     (case scheme_of bytes of Some s \<Rightarrow> is_scheme s | None \<Rightarrow> False)
     \<and> list_all is_uri_octet bytes \<and> percents_are_escapes bytes"

definition uri_decode_value :: "octets \<Rightarrow> diagnostic_code + uri_value" where
  "uri_decode_value bytes =
     (if \<not> is_uri_text bytes then Inl (Reading MalformedUri) else Inr \<lparr>uv_bytes = bytes\<rparr>)"

definition uri_encode_value :: "uri_value \<Rightarrow> octets \<Rightarrow> encoding" where
  "uri_encode_value v out =
     (if \<not> is_uri_text (uv_bytes v) then (Inl MutNotRepresentable, out)
      else (Inr (), out @ uv_bytes v))"

definition uri_coupled_parameters :: "uri_value \<Rightarrow> parameter_edit list" where
  "uri_coupled_parameters v = [edit_remove VALUE_name, edit_remove ENCODING_name]"

section \<open>The contracts\<close>

lemma sextet_plain: "sextet b \<noteq> None \<Longrightarrow> \<not> is_ascii_control b"
  by (auto simp: sextet_def is_ascii_control_def word_le_nat_alt split: if_splits)

lemma sextets_plain: "list_all (\<lambda>b. sextet b \<noteq> None) bs \<Longrightarrow> plain bs"
  unfolding plain_def by (erule list.pred_mono_strong) (rule sextet_plain)

lemma end_quantum_plain:
  assumes "is_end_quantum q"
  shows "plain q"
proof -
  define ws where "ws = takeWhile (\<lambda>b. b = 0x3D) (rev q)"
  define dw where "dw = dropWhile (\<lambda>b. b = 0x3D) (rev q)"
  have "rev q = ws @ dw" by (simp add: ws_def dw_def)
  then have q: "q = rev dw @ rev ws" by (metis rev_append rev_rev_ident)
  have "list_all (\<lambda>b. sextet b \<noteq> None) (take (length q - length ws) q)"
    using assms by (auto simp: is_end_quantum_def Let_def ws_def split: if_splits)
  then have "list_all (\<lambda>b. sextet b \<noteq> None) (rev dw)" by (simp add: q)
  moreover have "plain ws"
    unfolding plain_def list_all_iff ws_def
    by (auto simp: is_ascii_control_def word_le_nat_alt dest!: set_takeWhileD)
  ultimately show ?thesis using sextets_plain [of "rev dw"] by (simp add: q plain_def)
qed

lemma base64_plain: "is_base64_text bs \<Longrightarrow> plain bs"
proof (cases "length bs < 4")
  case False
  assume "is_base64_text bs"
  with False have "list_all (\<lambda>b. sextet b \<noteq> None) (take (length bs - 4) bs)"
    "is_end_quantum (drop (length bs - 4) bs)"
    by (auto simp: is_base64_text_def QUANTUM_LEN_def Let_def split: if_splits)
  then have "plain (take (length bs - 4) bs)" "plain (drop (length bs - 4) bs)"
    by (blast intro: sextets_plain end_quantum_plain)+
  then have "plain (take (length bs - 4) bs @ drop (length bs - 4) bs)" by (simp only: plain_append)
  then show ?thesis by (simp only: append_take_drop_id)
qed (auto simp: is_base64_text_def QUANTUM_LEN_def)

lemma uri_octet_plain: "is_uri_octet b \<Longrightarrow> \<not> is_ascii_control b"
  by (auto simp: is_uri_octet_def is_ascii_alphanumeric_def is_ascii_alphabetic_def is_ascii_digit_def
      is_ascii_control_def word_le_nat_alt)

lemma uri_plain: "is_uri_text bs \<Longrightarrow> plain bs"
  by (auto simp: is_uri_text_def plain_def list_all_iff dest: uri_octet_plain)

interpretation binary: value_codec
  binary_decode_value binary_encode_value
  "\<lambda>v. if is_base64_text (bv_bytes v) then Some (bv_bytes v) else None" "\<lambda>_. True" "\<lambda>v. v"
  by unfold_locales
     (auto simp: binary_encode_value_def binary_decode_value_def dest: base64_plain split: if_splits)

interpretation uri: value_codec
  uri_decode_value uri_encode_value
  "\<lambda>v. if is_uri_text (uv_bytes v) then Some (uv_bytes v) else None" "\<lambda>_. True" "\<lambda>v. v"
  by unfold_locales
     (auto simp: uri_encode_value_def uri_decode_value_def dest: uri_plain split: if_splits)

section \<open>Two unescapers, one table\<close>

lemma substitution_for_eq: "substitution_for = text_escape_meaning"
  by (rule ext) (simp add: substitution_for_def text_escape_meaning_def)

text \<open>A character is one octet below 0x80, or octets that are all at or above it.\<close>

definition character :: "octets \<Rightarrow> bool" where
  "character c \<longleftrightarrow> (\<exists>b. c = [b] \<and> b < 0x80) \<or> (c \<noteq> [] \<and> list_all (\<lambda>b. 0x80 \<le> b) c)"

lemma utf8_tail_high:
  "utf8_tail rs bs n = Inr k \<Longrightarrow> list_all (\<lambda>(lo, hi). 0x80 \<le> lo) rs \<Longrightarrow>
    list_all (\<lambda>b. 0x80 \<le> b) (take (length rs) bs)"
  by (induction rs bs n rule: utf8_tail.induct) (auto split: if_splits intro: order_trans)

lemma utf8_char_character: "utf8_char bs = Inr k \<Longrightarrow> character (take k bs)"
proof (cases bs)
  case (Cons b rest)
  assume u: "utf8_char bs = Inr k"
  show ?thesis
  proof (cases "b < 0x80")
    case True
    then have "k = 1" using u Cons by simp
    then show ?thesis using True Cons by (simp add: character_def)
  next
    case False
    then have b: "0x80 \<le> b" by simp
    from u Cons False obtain rs where t: "utf8_tail rs rest 1 = Inr k" "list_all (\<lambda>(lo, hi). 0x80 \<le> lo) rs"
      by (auto split: if_splits)
    have "k = Suc (length rs)" using utf8_tail_bounds [OF t(1)] by simp
    then show ?thesis using utf8_tail_high [OF t] b Cons by (simp add: character_def)
  qed
qed simp

lemma utf8_chars_concat: "utf8_chars pos bs = Inr cs \<Longrightarrow> concat cs = bs \<and> list_all character cs"
proof (induction pos bs arbitrary: cs rule: utf8_chars.induct)
  case (1 pos bs)
  show ?case
  proof (cases "bs = []")
    case True
    then have "cs = []" using "1.prems" by (simp add: utf8_chars.simps [of pos "[]"])
    then show ?thesis using True by simp
  next
    case False
    then obtain n cs' where n: "utf8_char bs = Inr n" "utf8_chars (pos + n) (drop n bs) = Inr cs'"
      and cs: "cs = take n bs # cs'"
      using "1.prems" by (auto simp: utf8_chars.simps [of pos bs] split: sum.splits)
    from "1.IH" [OF False n] utf8_char_character [OF n(1)] show ?thesis by (simp add: cs)
  qed
qed

lemma unescape_plain_octets:
  "list_all (\<lambda>b. b \<noteq> 0x5C) c \<Longrightarrow> unescape_text_into (c @ rest) out = unescape_text_into rest (out @ c)"
  by (induction c arbitrary: out) auto

lemma unescape_chars_octets:
  "list_all character cs \<Longrightarrow>
    unescape_chars cs pending out = unescape_text_into ((if pending then [0x5C] else []) @ concat cs) out"
proof (induction cs arbitrary: pending out)
  case Nil
  show ?case by simp
next
  case (Cons c cs)
  then have ch: "character c" and cs: "list_all character cs" by auto
  note IH = Cons.IH [OF cs]
  have high: "list_all (\<lambda>b. b \<noteq> 0x5C) c" if "\<not> (\<exists>b. c = [b] \<and> b < 0x80)"
    using ch that by (auto simp: character_def list_all_iff)
  have unspelled: "text_escape_meaning b = None" if "0x80 \<le> b" for b
    using that by (auto simp: text_escape_meaning_eq word_le_nat_alt)
  show ?case
  proof (cases pending)
    case True
    show ?thesis
    proof (cases "\<exists>b. c = [b] \<and> b < 0x80")
      case True
      then obtain b where b: "c = [b]" by blast
      show ?thesis
      proof (cases "text_escape_meaning b")
        case None
        then have "b \<noteq> 0x5C" by (auto simp: text_escape_meaning_eq)
        then show ?thesis
          using None b IH [of False] \<open>pending\<close> by (simp add: push_escaped_def substitution_for_eq)
      next
        case (Some m)
        then show ?thesis
          using b IH [of False] \<open>pending\<close> by (simp add: push_escaped_def substitution_for_eq)
      qed
    next
      case False
      then obtain b bs where c: "c = b # bs" "0x80 \<le> b" using ch by (cases c) (auto simp: character_def)
      have "push_escaped out c = (out @ [0x5C]) @ c"
        using c unspelled [OF c(2)] by (auto simp: push_escaped_def substitution_for_eq split: list.splits)
      then show ?thesis
        using IH [of False] \<open>pending\<close> c unspelled [OF c(2)] unescape_plain_octets [OF high [OF False]]
        by simp
    qed
  next
    case False
    show ?thesis
    proof (cases "c = [0x5C]")
      case True
      then show ?thesis using IH [of True] False by simp
    next
      case other: False
      have "list_all (\<lambda>b. b \<noteq> 0x5C) c"
        using other high by (cases "\<exists>b. c = [b] \<and> b < 0x80") auto
      then show ?thesis using IH [of False] False other unescape_plain_octets [of c] by simp
    qed
  qed
qed

lemma unescape_view_octets: "list_all character cs \<Longrightarrow> unescape_view cs = unescape_text (concat cs)"
proof -
  assume cs: "list_all character cs"
  have "unescape_text_into bs [] = bs" if "0x5C \<notin> set bs" for bs
    using unescape_plain_octets [of bs "[]" "[]"] that by (simp add: list_all_iff) (metis)
  then show ?thesis
    using unescape_chars_octets [OF cs, of False "[]"] by (auto simp: unescape_view_def unescape_text_eq)
qed

section \<open>Base 64, against RFC 4648\<close>

text \<open>The encoding RFC 4648 section 4 defines, which the code reads and never writes.\<close>

definition sextet_octet :: "nat \<Rightarrow> octet" where
  "sextet_octet n =
     (if n < 26 then of_nat (65 + n) else if n < 52 then of_nat (71 + n)
      else if n < 62 then of_nat (n - 4) else if n = 62 then 0x2B else 0x2F)"

fun base64_of :: "octets \<Rightarrow> octets" where
  "base64_of [] = []"
| "base64_of [a] =
     [sextet_octet (unat a div 4), sextet_octet (unat a mod 4 * 16), 0x3D, 0x3D]"
| "base64_of [a, b] =
     [sextet_octet (unat a div 4), sextet_octet (unat a mod 4 * 16 + unat b div 16),
      sextet_octet (unat b mod 16 * 4), 0x3D]"
| "base64_of (a # b # c # rest) =
     [sextet_octet (unat a div 4), sextet_octet (unat a mod 4 * 16 + unat b div 16),
      sextet_octet (unat b mod 16 * 4 + unat c div 64), sextet_octet (unat c mod 64)]
     @ base64_of rest"

lemma unat_sextet_octet:
  "n < 64 \<Longrightarrow> unat (sextet_octet n) =
     (if n < 26 then 65 + n else if n < 52 then 71 + n
      else if n < 62 then n - 4 else if n = 62 then 43 else 47)"
  by (auto simp: sextet_octet_def unat_of_nat simp del: of_nat_add of_nat_diff)

lemma sextet_value:
  "sextet b =
     (if 65 \<le> unat b \<and> unat b \<le> 90 then Some (unat b - 65)
      else if 97 \<le> unat b \<and> unat b \<le> 122 then Some (unat b - 71)
      else if 48 \<le> unat b \<and> unat b \<le> 57 then Some (unat b + 4)
      else if unat b = 43 then Some 62 else if unat b = 47 then Some 63 else None)"
proof -
  have e: "b = 0x2B \<longleftrightarrow> unat b = 43" "b = 0x2F \<longleftrightarrow> unat b = 47" by (auto simp: word_unat_eq_iff)
  have s: "unat (b - 0x41) = unat b - 65" if "65 \<le> unat b"
    using that by (simp add: unat_sub word_le_nat_alt)
  have t: "unat (b - 0x61 + 26) = unat b - 71" if "97 \<le> unat b" "unat b \<le> 122"
    using that by (simp add: unat_sub word_le_nat_alt unat_word_ariths)
  have u: "unat (b - 0x30 + 52) = unat b + 4" if "48 \<le> unat b" "unat b \<le> 57"
    using that by (simp add: unat_sub word_le_nat_alt unat_word_ariths)
  show ?thesis using e s t u by (auto simp: sextet_def word_le_nat_alt)
qed

lemma sextet_octet_read: "n < 64 \<Longrightarrow> sextet (sextet_octet n) = Some n"
  by (auto simp: sextet_value unat_sextet_octet)

lemma sextet_octet_not_pad: "n < 64 \<Longrightarrow> sextet_octet n \<noteq> 0x3D"
  by (auto simp: word_unat_eq_iff unat_sextet_octet)

lemma octet_less: "unat (a :: octet) < 256"
  using unsigned_less [of a] by simp

lemma octet_sextets:
  fixes a b c :: octet
  shows "unat a div 4 < 64" "unat a mod 4 * 16 + unat b div 16 < 64" "unat a mod 4 * 16 < 64"
    "unat b mod 16 * 4 + unat c div 64 < 64" "unat b mod 16 * 4 < 64" "unat c mod 64 < 64"
proof -
  have "unat a div 4 < 64" "unat b div 16 < 16" "unat c div 64 < 4"
    using octet_less [of a] octet_less [of b] octet_less [of c] by (simp_all add: less_mult_imp_div_less)
  moreover have "unat a mod 4 < 4" "unat b mod 16 < 16" "unat c mod 64 < 64" by simp_all
  ultimately show "unat a div 4 < 64" "unat a mod 4 * 16 + unat b div 16 < 64" "unat a mod 4 * 16 < 64"
    "unat b mod 16 * 4 + unat c div 64 < 64" "unat b mod 16 * 4 < 64" "unat c mod 64 < 64"
    by simp_all
qed

lemma packed_sextets:
  fixes a b c :: nat
  shows "((a div 4 * 64 + (a mod 4 * 16 + b div 16)) * 64 + (b mod 16 * 4 + c div 64)) * 64 + c mod 64
    = a * 65536 + b * 256 + c"
proof -
  define x y p q r s where d: "x = a div 4" "y = a mod 4" "p = b div 16" "q = b mod 16" "r = c div 64" "s = c mod 64"
  have "a = x * 4 + y" "b = p * 16 + q" "c = r * 64 + s" by (simp_all add: d)
  then show ?thesis unfolding d [symmetric] by simp
qed

lemma quantum_loop_sextet:
  "n < 64 \<Longrightarrow> p \<le> 300000 \<Longrightarrow> quantum_loop (sextet_octet n # rest) p f = quantum_loop rest (p * 64 + n) (f + 1)"
  by (simp add: sextet_octet_read sextet_octet_not_pad u32_max_def)

lemma quantum_loop_pad: "p \<le> 300000 \<Longrightarrow> quantum_loop (0x3D # rest) p f = quantum_loop rest (p * 64) f"
  by (simp add: u32_max_def)

lemma quantum_loop_four:
  assumes "s < 64" "t < 64" "u < 64" "v < 64"
  shows "quantum_loop [sextet_octet s, sextet_octet t, sextet_octet u, sextet_octet v] 0 0
      = Some (((s * 64 + t) * 64 + u) * 64 + v, 4)"
    "quantum_loop [sextet_octet s, sextet_octet t, sextet_octet u, 0x3D] 0 0
      = Some (((s * 64 + t) * 64 + u) * 64, 3)"
    "quantum_loop [sextet_octet s, sextet_octet t, 0x3D, 0x3D] 0 0 = Some ((s * 64 + t) * 64 * 64, 2)"
proof -
  have "s * 4096 + t * 64 + u \<le> 300000" using assms by linarith
  then have b: "(0 :: nat) \<le> 300000" "0 * 64 + s \<le> 300000" "(0 * 64 + s) * 64 + t \<le> 300000"
    "((0 * 64 + s) * 64 + t) * 64 + u \<le> 300000" "((0 * 64 + s) * 64 + t) * 64 \<le> 300000"
    by (simp_all add: algebra_simps)
  note r = quantum_loop_sextet [OF assms(1) b(1)] quantum_loop_sextet [OF assms(2) b(2)]
    quantum_loop_sextet [OF assms(3) b(3)] quantum_loop_sextet [OF assms(4) b(4)]
    quantum_loop_pad [OF b(4)] quantum_loop_pad [OF b(3)] quantum_loop_pad [OF b(5)]
  show "quantum_loop [sextet_octet s, sextet_octet t, sextet_octet u, sextet_octet v] 0 0
      = Some (((s * 64 + t) * 64 + u) * 64 + v, 4)"
    "quantum_loop [sextet_octet s, sextet_octet t, sextet_octet u, 0x3D] 0 0
      = Some (((s * 64 + t) * 64 + u) * 64, 3)"
    "quantum_loop [sextet_octet s, sextet_octet t, 0x3D, 0x3D] 0 0 = Some ((s * 64 + t) * 64 * 64, 2)"
    unfolding r by simp_all
qed

lemma quantum_octets_packed:
  assumes "quantum_loop q 0 0 = Some (unat a * 65536 + unat b * 256 + unat c, filled)"
  shows "quantum_octets q = Some ([a, b, c], filled * 6 div 8)"
proof -
  have d: "(x * 65536 + y * 256 + z) div 65536 = x \<and> (x * 65536 + y * 256 + z) div 256 mod 256 = y
      \<and> (x * 65536 + y * 256 + z) mod 256 = z" if "x < 256" "y < 256" "z < 256" for x y z :: nat
  proof -
    have e: "(x * 65536 + y * 256 + z) = (x * 256 + y) * 256 + z" by simp
    have "(x * 65536 + y * 256 + z) div 256 = x * 256 + y" "(x * 65536 + y * 256 + z) mod 256 = z"
      unfolding e using that by (simp_all only: div_mult_self3 mod_mult_self3 div_less mod_less)
    moreover have "(x * 65536 + y * 256 + z) div 65536 = x"
      using that by (intro div_nat_eqI) simp_all
    ultimately show ?thesis using that by simp
  qed
  show ?thesis
    using assms d [OF octet_less octet_less octet_less, of a b c] octet_less [of a] octet_less [of b] octet_less [of c]
    by (simp add: quantum_octets_def u8_of_u64_def u8_max_def)
qed

lemma quantum_of_three:
  "quantum_octets (base64_of [a, b, c]) = Some ([a, b, c], 3)"
  "quantum_octets (base64_of [a, b]) = Some ([a, b, 0], 2)"
  "quantum_octets (base64_of [a]) = Some ([a, 0, 0], 1)"
  using quantum_octets_packed [of "base64_of [a, b, c]" a b c 4]
    quantum_octets_packed [of "base64_of [a, b]" a b 0 3] quantum_octets_packed [of "base64_of [a]" a 0 0 2]
    quantum_loop_four(1) [OF octet_sextets(1) [of a] octet_sextets(2) [of a b] octet_sextets(4) [of b c]
      octet_sextets(6) [of c]]
    quantum_loop_four(2) [OF octet_sextets(1) [of a] octet_sextets(2) [of a b] octet_sextets(5) [of b]
      octet_sextets(6) [of c]]
    quantum_loop_four(3) [OF octet_sextets(1) [of a] octet_sextets(3) [of a] octet_sextets(5) [of b]
      octet_sextets(6) [of c]]
    packed_sextets [of "unat a" "unat b" "unat c"] packed_sextets [of "unat a" "unat b" 0]
    packed_sextets [of "unat a" 0 0]
  by (simp_all del: quantum_loop.simps)

lemma binary_chunks_base64: "binary_chunks (base64_of bs) out = Some (out @ bs)"
proof (induction bs arbitrary: out rule: base64_of.induct)
  case 1
  show ?case by (simp add: binary_chunks.simps [of "[]"] QUANTUM_LEN_def)
next
  case (2 a)
  then show ?case
    using quantum_of_three(3) [of a]
    unfolding binary_chunks.simps [of "base64_of [a]"]
    by (simp add: binary_chunks.simps [of "[]"] QUANTUM_LEN_def get_range_def)
next
  case (3 a b)
  then show ?case
    using quantum_of_three(2) [of a b]
    unfolding binary_chunks.simps [of "base64_of [a, b]"]
    by (simp add: binary_chunks.simps [of "[]"] QUANTUM_LEN_def get_range_def)
next
  case (4 a b c rest)
  have "base64_of (a # b # c # rest) = base64_of [a, b, c] @ base64_of rest" "length (base64_of [a, b, c]) = 4"
    by simp_all
  then show ?case
    using quantum_of_three(1) [of a b c] "4.IH"
    unfolding binary_chunks.simps [of "base64_of (a # b # c # rest)"]
    by (simp add: QUANTUM_LEN_def get_range_def del: base64_of.simps)
qed

lemma is_base64_quantum:
  assumes "length head = 4" "list_all (\<lambda>b. sextet b \<noteq> None) head" "is_base64_text rest"
  shows "is_base64_text (head @ rest)"
proof (cases "length rest < 4")
  case True
  then have "rest = []" using assms(3) by (simp add: is_base64_text_def QUANTUM_LEN_def)
  moreover have "takeWhile (\<lambda>b. b = 0x3D) (rev head) = []"
  proof -
    have "last head \<in> set head" using assms(1) by (intro last_in_set) auto
    then have "sextet (last head) \<noteq> None" using assms(2) by (auto simp: list_all_iff)
    then have "last head \<noteq> 0x3D" by (auto simp: sextet_value)
    then show ?thesis by (cases head rule: rev_cases) auto
  qed
  ultimately show ?thesis
    using assms by (simp add: is_base64_text_def QUANTUM_LEN_def is_end_quantum_def)
next
  case False
  define n where "n = length rest - 4"
  have n: "length rest = n + 4" using False by (simp add: n_def)
  have "n mod 4 = 0" "list_all (\<lambda>b. sextet b \<noteq> None) (take n rest)" "is_end_quantum (drop n rest)"
    using assms(3) False n by (auto simp: is_base64_text_def QUANTUM_LEN_def Let_def)
  then show ?thesis
    using assms(1,2) n by (simp add: is_base64_text_def QUANTUM_LEN_def Let_def)
qed

lemma is_base64_text_of: "is_base64_text (base64_of bs)"
proof (induction bs rule: base64_of.induct)
  case 1
  show ?case by (simp add: is_base64_text_def QUANTUM_LEN_def)
next
  case (2 a)
  then show ?case
    using octet_sextets(1) [of a] octet_sextets(3) [of a]
    by (simp add: is_base64_text_def QUANTUM_LEN_def is_end_quantum_def sextet_octet_read sextet_octet_not_pad)
next
  case (3 a b)
  then show ?case
    using octet_sextets(1) [of a] octet_sextets(2) [of a b] octet_sextets(5) [of b]
    by (simp add: is_base64_text_def QUANTUM_LEN_def is_end_quantum_def sextet_octet_read sextet_octet_not_pad)
next
  case (4 a b c rest)
  have "list_all (\<lambda>b. sextet b \<noteq> None) (base64_of [a, b, c])"
    using octet_sextets(1) [of a] octet_sextets(2) [of a b] octet_sextets(4) [of b c] octet_sextets(6) [of c] by (simp add: sextet_octet_read)
  then show ?case
    using is_base64_quantum [of "base64_of [a, b, c]" "base64_of rest"] 4 by simp
qed

lemma binary_decode_base64: "binary_decode \<lparr>bv_bytes = base64_of bs\<rparr> = Inr bs"
  by (simp add: binary_decode_def is_base64_text_of binary_chunks_base64 or_code_def)

section \<open>Properties\<close>



end
