(* ===== verification/Typed_Access.thy ===== *)
theory Typed_Access
  imports Codec_Text_Values Property_Ident
begin

text \<open>
  Typed access over the preserved text: the three states of \<open>View\<close> in \<open>core/view.rs\<close>, the one
  accessor per level of \<open>core/access.rs\<close>, and the property decoders of \<open>core/codec.rs\<close> for the
  two value types whose zone is a parameter.  The trait \<open>DecodeValue\<close> is a function handed to the
  accessor; its default method reads the value's octets and nothing else.
\<close>

section \<open>Views\<close>

datatype 'v view =
  VwAbsent
| VwMalformed property diagnostic
| VwValid property 'v

fun view_value :: "'v view \<Rightarrow> 'v option" where
  "view_value (VwValid _ v) = Some v"
| "view_value VwAbsent = None"
| "view_value (VwMalformed _ _) = None"

fun view_source :: "'v view \<Rightarrow> property option" where
  "view_source VwAbsent = None"
| "view_source (VwMalformed source _) = Some source"
| "view_source (VwValid source _) = Some source"

fun view_diagnostic :: "'v view \<Rightarrow> diagnostic option" where
  "view_diagnostic (VwMalformed _ diagnostic) = Some diagnostic"
| "view_diagnostic VwAbsent = None"
| "view_diagnostic (VwValid _ _) = None"

definition view_is_present :: "'v view \<Rightarrow> bool" where
  "view_is_present vw \<longleftrightarrow> \<not> (case vw of VwAbsent \<Rightarrow> True | _ \<Rightarrow> False)"

definition view_is_valid :: "'v view \<Rightarrow> bool" where
  "view_is_valid vw \<longleftrightarrow> (case vw of VwValid _ _ \<Rightarrow> True | _ \<Rightarrow> False)"

section \<open>Reading a property\<close>

definition decode_property :: "(octets \<Rightarrow> diagnostic_code + 'v) \<Rightarrow> property \<Rightarrow> diagnostic_code + 'v" where
  "decode_property decode_value' p = decode_value' (pr_value_text p)"

definition about_this_property :: "diagnostic_code \<Rightarrow> diagnostic" where
  "about_this_property code = diagnostic_new code Violation NOWHERE"

definition property_value :: "(property \<Rightarrow> diagnostic_code + 'v) \<Rightarrow> property \<Rightarrow> 'v view" where
  "property_value decode p =
     (case decode p of
        Inr v \<Rightarrow> VwValid p v
      | Inl code \<Rightarrow> VwMalformed p (about_this_property code))"

definition strip_prefix :: "octet \<Rightarrow> octets \<Rightarrow> octets option" where
  "strip_prefix b bytes = (case bytes of c # rest \<Rightarrow> if c = b then Some rest else None | [] \<Rightarrow> None)"

definition strip_suffix :: "octet \<Rightarrow> octets \<Rightarrow> octets option" where
  "strip_suffix b bytes = (if bytes \<noteq> [] \<and> last bytes = b then Some (butlast bytes) else None)"

definition parameter_unquoted :: "parameter \<Rightarrow> octets" where
  "parameter_unquoted p =
     (let written = pm_value p in
      case Option.bind (strip_prefix 0x22 written) (strip_suffix 0x22) of
        Some inside \<Rightarrow> inside
      | None \<Rightarrow> written)"

definition zone_of :: "property \<Rightarrow> octets option" where
  "zone_of p =
     (case parameters_named p TZID_name of
        [] \<Rightarrow> None
      | named # _ \<Rightarrow>
          let tzid = parameter_unquoted named
          in if tzid \<noteq> [] then Some tzid else None)"

definition dtv_decode_property :: "property \<Rightarrow> diagnostic_code + datetime_value" where
  "dtv_decode_property p =
     (case dtv_decode_value (pr_value_text p) of
        Inl code \<Rightarrow> Inl code
      | Inr written \<Rightarrow>
          (case written of
             VLocal stamp \<Rightarrow>
               (case zone_of p of
                  Some tzid \<Rightarrow> Inr (VZoned stamp tzid)
                | None \<Rightarrow> Inr written)
           | _ \<Rightarrow> Inr written))"

definition period_decode_property :: "property \<Rightarrow> diagnostic_code + period_value" where
  "period_decode_property p =
     (case period_decode_value (pr_value_text p) of
        Inl code \<Rightarrow> Inl code
      | Inr written \<Rightarrow>
          (case zone_of p of
             None \<Rightarrow> Inr written
           | Some tzid \<Rightarrow> Inr
               (case written of
                  PExplicit s e \<Rightarrow> PExplicit (under_zone s tzid) (under_zone e tzid)
                | PStarting s d \<Rightarrow> PStarting (under_zone s tzid) d)))"

section \<open>Reading a component\<close>

definition component_get ::
  "(property \<Rightarrow> diagnostic_code + 'v) \<Rightarrow> component \<Rightarrow> property_id \<Rightarrow> 'v view" where
  "component_get decode c id' =
     (case filter (\<lambda>p. property_has_id p id') (component_properties c) of
        [] \<Rightarrow> VwAbsent
      | first # occurrences \<Rightarrow>
          if occurrences \<noteq> []
          then VwMalformed first (about_this_property (Reading DuplicateProperty))
          else property_value decode first)"

definition dtstart :: "component \<Rightarrow> datetime_value view" where
  "dtstart c = component_get dtv_decode_property c ID_DTSTART"

definition dtend :: "component \<Rightarrow> datetime_value view" where
  "dtend c = component_get dtv_decode_property c ID_DTEND"

definition summary :: "component \<Rightarrow> text_value view" where
  "summary c = component_get (decode_property text_decode_value) c ID_SUMMARY"

definition uid :: "component \<Rightarrow> text_value view" where
  "uid c = component_get (decode_property text_decode_value) c ID_UID"

definition sequence_number :: "component \<Rightarrow> int view" where
  "sequence_number c = component_get (decode_property integer_decode_value) c ID_SEQUENCE"

section \<open>What an accessor answers\<close>

lemma view_states:
  "view_is_present vw \<longleftrightarrow> view_source vw \<noteq> None"
  "view_is_valid vw \<longleftrightarrow> view_value vw \<noteq> None"
  "view_diagnostic vw \<noteq> None \<longleftrightarrow> view_is_present vw \<and> \<not> view_is_valid vw"
  by (cases vw; simp add: view_is_present_def view_is_valid_def)+

lemma property_value_source [simp]: "view_source (property_value decode p) = Some p"
  by (simp add: property_value_def split: sum.splits)

lemma component_get_valid:
  "component_get decode c id' = VwValid p v \<longleftrightarrow>
     filter (\<lambda>p. property_has_id p id') (component_properties c) = [p] \<and> decode p = Inr v"
  by (auto simp: component_get_def property_value_def split: list.splits sum.splits)

lemma component_get_absent:
  "component_get decode c id' = VwAbsent \<longleftrightarrow>
     filter (\<lambda>p. property_has_id p id') (component_properties c) = []"
  by (auto simp: component_get_def property_value_def split: list.splits sum.splits)

text \<open>Unquoting a parameter the way the accessor does it undoes quoting it for writing.\<close>

lemma unquoted_quoted:
  assumes "0x22 \<notin> set bs" "pm_value p = quote_parameter_into bs []"
  shows "parameter_unquoted p = bs"
proof (cases "parameter_needs_quoting bs")
  case True
  then show ?thesis
    using assms by (simp add: parameter_unquoted_def quote_parameter_into_def strip_prefix_def strip_suffix_def)
next
  case False
  then have "strip_prefix 0x22 bs = None"
    using assms(1) by (cases bs) (auto simp: strip_prefix_def)
  then show ?thesis
    using assms False by (simp add: parameter_unquoted_def quote_parameter_into_def)
qed

end
