(* ===== verification/Mutate.thy ===== *)
theory Mutate
  imports Typed_Access Parse
begin

text \<open>
  Scoped mutation, \<open>core/mutate.rs\<close> with the changes of \<open>core/change.rs\<close>: what a write refuses,
  the doors a property, a parameter and a component are built through, the guard over one property
  and the changes applied to a component.  A mutable borrow is the value it points at, so a write
  answers what it said together with what it left behind.
\<close>

section \<open>What a write refuses\<close>

definition refuse_control_characters :: "octets \<Rightarrow> mutation_error + unit" where
  "refuse_control_characters bytes =
     (if list_ex is_ascii_control bytes then Inl MutIllegalControlCharacter else Inr ())"

definition refuse_component_boundary :: "octets \<Rightarrow> mutation_error + unit" where
  "refuse_component_boundary name =
     (if names_a_component_boundary name then Inl MutComponentBoundary else Inr ())"

text \<open>Lengths are \<open>usize\<close> and the sum saturates, so the comparison is the one on the octet counts.\<close>

definition refuse_oversized_value :: "nat \<Rightarrow> nat \<Rightarrow> limits \<Rightarrow> mutation_error + unit" where
  "refuse_oversized_value written arriving lim =
     (let ceiling = max_value_bytes lim;
          held = min written u64_max;
          added = min arriving u64_max
      in if min (held + added) u64_max > ceiling then Inl (MutValueTooLarge ceiling) else Inr ())"

definition parameter_value_is_writable :: "octets \<Rightarrow> bool" where
  "parameter_value_is_writable v \<longleftrightarrow> parameter_is_representable (encode_caret v)"

fun refuse_unwritable_edits :: "parameter_edit list \<Rightarrow> mutation_error + unit" where
  "refuse_unwritable_edits [] = Inr ()"
| "refuse_unwritable_edits (entry # edits) =
     (if \<not> parameter_name_is_representable (ed_name entry) then Inl MutNotRepresentable
      else if (case ed_value entry of None \<Rightarrow> False | Some held \<Rightarrow> \<not> parameter_value_is_writable held)
      then Inl MutNotRepresentable
      else refuse_unwritable_edits edits)"

definition spelled_parameter :: "octets \<Rightarrow> octets \<Rightarrow> parameter" where
  "spelled_parameter name v = parameter_new name (quote_parameter_into (encode_caret v) [])"

section \<open>Building\<close>

definition parameter_create :: "octets \<Rightarrow> octets \<Rightarrow> mutation_error + parameter" where
  "parameter_create name v =
     (if \<not> parameter_name_is_representable name \<or> \<not> parameter_value_is_writable v
      then Inl MutNotRepresentable
      else Inr (spelled_parameter name v))"

definition property_create :: "octets \<Rightarrow> parameter list \<Rightarrow> octets \<Rightarrow> mutation_error + property" where
  "property_create name params v =
     (if \<not> property_name_is_representable name then Inl MutNotRepresentable
      else case refuse_component_boundary name of
        Inl e \<Rightarrow> Inl e
      | Inr _ \<Rightarrow>
          (case refuse_control_characters v of
             Inl e \<Rightarrow> Inl e
           | Inr _ \<Rightarrow> Inr (property_new name params v (layout_canonical CANONICAL))))"

definition boundary_new :: "octets \<Rightarrow> octets \<Rightarrow> line_layout \<Rightarrow> boundary" where
  "boundary_new keyword name layout = \<lparr>b_keyword = keyword, b_name = name, b_layout = layout\<rparr>"

definition component_create :: "octets \<Rightarrow> item list \<Rightarrow> mutation_error + component" where
  "component_create name items =
     (if \<not> property_name_is_representable name then Inl MutNotRepresentable
      else
        let edge = (\<lambda>keyword. boundary_new keyword name (layout_canonical CANONICAL))
        in Inr (Component (edge BEGIN_keyword) items (Some (edge END_keyword))))"

section \<open>Editing parameters\<close>

fun position :: "('a \<Rightarrow> bool) \<Rightarrow> 'a list \<Rightarrow> nat option" where
  "position P [] = None"
| "position P (x # xs) = (if P x then Some 0 else map_option Suc (position P xs))"

definition insert_at :: "nat \<Rightarrow> 'a \<Rightarrow> 'a list \<Rightarrow> 'a list" where
  "insert_at i x xs = take i xs @ x # drop i xs"

definition assign_parameter :: "parameter list \<Rightarrow> octets \<Rightarrow> octets \<Rightarrow> parameter list" where
  "assign_parameter parameters name v =
     (let at' = position (\<lambda>held. parameter_is_named held name) parameters;
          kept = filter (\<lambda>held. \<not> parameter_is_named held name) parameters;
          written = spelled_parameter name v
      in case at' of
           Some index \<Rightarrow> insert_at index written kept
         | None \<Rightarrow> kept @ [written])"

fun apply_parameter_edits :: "parameter list \<Rightarrow> parameter_edit list \<Rightarrow> parameter list" where
  "apply_parameter_edits parameters [] = parameters"
| "apply_parameter_edits parameters (entry # edits) =
     apply_parameter_edits
       (case ed_value entry of
          Some assigned \<Rightarrow> assign_parameter parameters (ed_name entry) assigned
        | None \<Rightarrow> filter (\<lambda>held. \<not> parameter_is_named held (ed_name entry)) parameters)
       edits"

section \<open>Reading a replacement line\<close>

record parsed_line =
  ln_name :: octets
  ln_parameters :: "parameter list"
  ln_value :: octets
  ln_ending :: "line_ending option"

definition parsed_line_default :: parsed_line where
  "parsed_line_default = \<lparr>ln_name = [], ln_parameters = [], ln_value = [], ln_ending = None\<rparr>"

definition write_whole_line :: "property \<Rightarrow> parsed_line \<Rightarrow> property" where
  "write_whole_line p line =
     (let p1 = set_name p (ln_name line);
          p2 = edit_parameters p1 (\<lambda>_. ln_parameters line)
      in set_value_text p2 (ln_value line))"

definition read_parameter :: "octets \<Rightarrow> octets \<Rightarrow> bool \<Rightarrow> parameter" where
  "read_parameter name v has_value =
     (if has_value then parameter_new name v else parameter_without_value name)"

definition take_piece :: "parsed_line \<Rightarrow> token \<Rightarrow> limits \<Rightarrow> mutation_error + bool \<times> parsed_line" where
  "take_piece line t lim =
     (case t of
        TName name \<Rightarrow> Inr (False, line\<lparr>ln_name := ln_name line @ name\<rparr>)
      | TParameter name v has_value \<Rightarrow>
          Inr (False, line\<lparr>ln_parameters := ln_parameters line @ [read_parameter name v has_value]\<rparr>)
      | TValue bytes _ \<Rightarrow>
          (case refuse_oversized_value (length (ln_value line)) (length bytes) lim of
             Inl e \<Rightarrow> Inl e
           | Inr _ \<Rightarrow> Inr (False, line\<lparr>ln_value := ln_value line @ bytes\<rparr>))
      | TEndOfLine _ ending has_separator \<Rightarrow>
          (if \<not> has_separator then Inl MutMalformedReplacement
           else Inr (True, line\<lparr>ln_ending := ending\<rparr>)))"

partial_function (option) replacement_loop ::
  "'s token_pull \<Rightarrow> limits \<Rightarrow> 's \<Rightarrow> parsed_line \<Rightarrow> bool \<Rightarrow> (mutation_error + parsed_line) option" where
  "replacement_loop pull lim s line terminated =
     (case pull s of
        (None, _) \<Rightarrow>
          Some (if \<not> terminated \<or> ln_name line = [] then Inl MutMalformedReplacement else Inr line)
      | (Some t, s') \<Rightarrow>
          (if terminated then Some (Inl MutMalformedReplacement)
           else case t of
             Inl _ \<Rightarrow> Some (Inl MutMalformedReplacement)
           | Inr piece \<Rightarrow>
               (case take_piece line piece lim of
                  Inl e \<Rightarrow> Some (Inl e)
                | Inr (terminated', line') \<Rightarrow> replacement_loop pull lim s' line' terminated')))"

definition read_replacement_line :: "octets \<Rightarrow> limits \<Rightarrow> (mutation_error + parsed_line) option" where
  "read_replacement_line bytes lim =
     replacement_loop next_token lim (reader_new bytes (grammar lim)) parsed_line_default False"

definition read_named_line :: "property_id \<Rightarrow> octets \<Rightarrow> limits \<Rightarrow> (mutation_error + parsed_line) option" where
  "read_named_line id' bytes lim =
     (case read_replacement_line bytes lim of
        None \<Rightarrow> None
      | Some (Inl e) \<Rightarrow> Some (Inl e)
      | Some (Inr line) \<Rightarrow>
          Some (if \<not> pid_matches id' (ln_name line) then Inl MutMalformedReplacement else Inr line))"

section \<open>The guard over one property\<close>

definition set_raw :: "octets \<Rightarrow> property \<Rightarrow> (mutation_error + unit) \<times> property" where
  "set_raw bytes p =
     (case refuse_component_boundary (pr_name p) of
        Inl e \<Rightarrow> (Inl e, p)
      | Inr _ \<Rightarrow>
          (case refuse_control_characters bytes of
             Inl e \<Rightarrow> (Inl e, p)
           | Inr _ \<Rightarrow> (Inr (), set_value_text p bytes)))"

definition guard_set ::
  "('v \<Rightarrow> octets \<Rightarrow> encoding) \<Rightarrow> ('v \<Rightarrow> parameter_edit list) \<Rightarrow> 'v \<Rightarrow> property
     \<Rightarrow> (mutation_error + unit) \<times> property" where
  "guard_set encode_value coupled_parameters v p =
     (case refuse_component_boundary (pr_name p) of
        Inl e \<Rightarrow> (Inl e, p)
      | Inr _ \<Rightarrow>
          (case encode_value v [] of
             (Inl e, _) \<Rightarrow> (Inl e, p)
           | (Inr _, encoded) \<Rightarrow>
               (case refuse_control_characters encoded of
                  Inl e \<Rightarrow> (Inl e, p)
                | Inr _ \<Rightarrow>
                    let coupled = coupled_parameters v
                    in (case refuse_unwritable_edits coupled of
                          Inl e \<Rightarrow> (Inl e, p)
                        | Inr _ \<Rightarrow>
                            let p1 = edit_parameters p (\<lambda>held. apply_parameter_edits held coupled)
                            in (Inr (), set_value_text p1 encoded)))))"

section \<open>Changes to a component\<close>

datatype proposed_change =
  CAdd octets
| CReplace octets
| CSetParameters "parameter_edit list"
| CRemove

definition set_items :: "component \<Rightarrow> item list \<Rightarrow> component" where
  "set_items c is = Component (c_begin c) is (c_end c)"

definition item_has_id :: "property_id \<Rightarrow> item \<Rightarrow> bool" where
  "item_has_id id' entry =
     (case as_property entry of Some p \<Rightarrow> property_has_id p id' | None \<Rightarrow> False)"

definition occurrence_count :: "component \<Rightarrow> property_id \<Rightarrow> nat" where
  "occurrence_count c id' = length (filter (\<lambda>p. property_has_id p id') (component_properties c))"

definition occurrence_position :: "component \<Rightarrow> property_id \<Rightarrow> nat \<Rightarrow> nat option" where
  "occurrence_position c id' index =
     (let positions = map fst (filter (\<lambda>(_, entry). item_has_id id' entry) (enumerate 0 (c_items c)))
      in if index < length positions then Some (positions ! index) else None)"

definition occurrence_mut ::
  "component \<Rightarrow> property_id \<Rightarrow> nat \<Rightarrow> (property \<Rightarrow> property) \<Rightarrow> (mutation_error + unit) \<times> component" where
  "occurrence_mut c id' index act =
     (case occurrence_position c id' index of
        None \<Rightarrow> (Inl MutAbsent, c)
      | Some at' \<Rightarrow>
          (if at' < length (c_items c)
           then case c_items c ! at' of
             IProperty p \<Rightarrow> (Inr (), set_items c ((c_items c)[at' := IProperty (act p)]))
           | IComponent _ \<Rightarrow> (Inl MutAbsent, c)
           else (Inl MutAbsent, c)))"

definition for_each_property_with_id ::
  "component \<Rightarrow> property_id \<Rightarrow> (property \<Rightarrow> property) \<Rightarrow> bool \<times> component" where
  "for_each_property_with_id c id' act =
     (list_ex (item_has_id id') (c_items c),
      set_items c (map (\<lambda>entry.
        case entry of
          IProperty p \<Rightarrow> if \<not> property_has_id p id' then entry else IProperty (act p)
        | IComponent _ \<Rightarrow> entry) (c_items c)))"

fun property_with_id_mut ::
  "property_id \<Rightarrow> (property \<Rightarrow> 'r \<times> property) \<Rightarrow> item list \<Rightarrow> ('r \<times> item list) option" where
  "property_with_id_mut id' act [] = None"
| "property_with_id_mut id' act (IProperty p # is) =
     (if property_has_id p id' then (case act p of (r, p') \<Rightarrow> Some (r, IProperty p' # is))
      else map_option (\<lambda>(r, is'). (r, IProperty p # is')) (property_with_id_mut id' act is))"
| "property_with_id_mut id' act (IComponent c # is) =
     map_option (\<lambda>(r, is'). (r, IComponent c # is')) (property_with_id_mut id' act is)"

definition get_mut ::
  "component \<Rightarrow> property_id \<Rightarrow> (property \<Rightarrow> 'r \<times> property) \<Rightarrow> 'r option \<times> component" where
  "get_mut c id' act =
     (case property_with_id_mut id' act (c_items c) of
        None \<Rightarrow> (None, c)
      | Some (r, is) \<Rightarrow> (Some r, set_items c is))"

definition overwrite :: "component \<Rightarrow> property_id \<Rightarrow> parsed_line \<Rightarrow> (mutation_error + unit) \<times> component" where
  "overwrite c id' line =
     (case for_each_property_with_id c id' (\<lambda>p. write_whole_line p line) of
        (reached, c') \<Rightarrow> (if reached then Inr () else Inl MutAbsent, c'))"

text \<open>The position one past the last property of a component.\<close>

fun past_last_property :: "item list \<Rightarrow> nat" where
  "past_last_property [] = 0"
| "past_last_property (entry # is) =
     (if past_last_property is > 0 then Suc (past_last_property is)
      else if as_property entry \<noteq> None then 1 else 0)"

definition terminate_line_above :: "component \<Rightarrow> nat \<Rightarrow> component" where
  "terminate_line_above c at' =
     (case (if 1 \<le> at' \<and> at' - 1 < length (c_items c)
            then as_property (c_items c ! (at' - 1)) else None) of
        Some p \<Rightarrow>
          set_items c ((c_items c)[at' - 1 := IProperty (snd (property_terminate_line p CANONICAL))])
      | None \<Rightarrow> Component (snd (boundary_terminate_line (c_begin c) CANONICAL)) (c_items c) (c_end c))"

definition insert_after_properties :: "component \<Rightarrow> parsed_line \<Rightarrow> component" where
  "insert_after_properties c line =
     (let layout = layout_canonical (case ln_ending line of Some e \<Rightarrow> e | None \<Rightarrow> CANONICAL);
          p = property_new (ln_name line) (ln_parameters line) (ln_value line) layout;
          at' = past_last_property (c_items c);
          c' = terminate_line_above c at'
      in set_items c' (insert_at at' (IProperty p) (c_items c')))"

definition remove_named :: "component \<Rightarrow> property_id \<Rightarrow> (mutation_error + unit) \<times> component" where
  "remove_named c id' =
     (let before = length (c_items c);
          kept = filter (\<lambda>entry. \<not> item_has_id id' entry) (c_items c)
      in if length kept = before then (Inl MutAbsent, set_items c kept)
         else (Inr (), set_items c kept))"

definition refuse_first :: "mutation_error + 'a \<Rightarrow> component \<Rightarrow>
    ('a \<Rightarrow> ((mutation_error + unit) \<times> component) option) \<Rightarrow>
    ((mutation_error + unit) \<times> component) option" where
  "refuse_first r c next = (case r of Inl e \<Rightarrow> Some (Inl e, c) | Inr x \<Rightarrow> next x)"

definition apply_change ::
  "component \<Rightarrow> property_id \<Rightarrow> proposed_change \<Rightarrow> limits
     \<Rightarrow> ((mutation_error + unit) \<times> component) option" where
  "apply_change c id' change lim =
     (case change of
        CReplace replacement \<Rightarrow>
          refuse_first (refuse_component_boundary (pid_name id')) c (\<lambda>_.
            case read_named_line id' replacement lim of
              None \<Rightarrow> None
            | Some r \<Rightarrow> refuse_first r c (\<lambda>line. Some (overwrite c id' line)))
      | CAdd addition \<Rightarrow>
          refuse_first (refuse_component_boundary (pid_name id')) c (\<lambda>_.
            case read_named_line id' addition lim of
              None \<Rightarrow> None
            | Some r \<Rightarrow> refuse_first r c (\<lambda>line. Some (Inr (), insert_after_properties c line)))
      | CSetParameters edits \<Rightarrow>
          refuse_first (refuse_component_boundary (pid_name id')) c (\<lambda>_.
            refuse_first (refuse_unwritable_edits edits) c (\<lambda>_.
              case for_each_property_with_id c id' (\<lambda>p.
                     edit_parameters p (\<lambda>held. apply_parameter_edits held edits)) of
                (reached, c') \<Rightarrow> Some (if reached then Inr () else Inl MutAbsent, c')))
      | CRemove \<Rightarrow> Some (remove_named c id'))"

definition apply_to_occurrence ::
  "component \<Rightarrow> property_id \<Rightarrow> nat \<Rightarrow> proposed_change \<Rightarrow> limits
     \<Rightarrow> ((mutation_error + unit) \<times> component) option" where
  "apply_to_occurrence c id' index change lim =
     (case change of
        CAdd addition \<Rightarrow>
          refuse_first (refuse_component_boundary (pid_name id')) c (\<lambda>_.
            if index \<noteq> occurrence_count c id' then Some (Inl MutAbsent, c)
            else case read_named_line id' addition lim of
              None \<Rightarrow> None
            | Some r \<Rightarrow> refuse_first r c (\<lambda>line. Some (Inr (), insert_after_properties c line)))
      | CReplace replacement \<Rightarrow>
          refuse_first (refuse_component_boundary (pid_name id')) c (\<lambda>_.
            case read_named_line id' replacement lim of
              None \<Rightarrow> None
            | Some r \<Rightarrow> refuse_first r c (\<lambda>line.
                Some (occurrence_mut c id' index (\<lambda>p. write_whole_line p line))))
      | CSetParameters edits \<Rightarrow>
          refuse_first (refuse_component_boundary (pid_name id')) c (\<lambda>_.
            refuse_first (refuse_unwritable_edits edits) c (\<lambda>_.
              Some (occurrence_mut c id' index (\<lambda>p.
                edit_parameters p (\<lambda>held. apply_parameter_edits held edits)))))
      | CRemove \<Rightarrow>
          (case occurrence_position c id' index of
             None \<Rightarrow> Some (Inl MutAbsent, c)
           | Some at' \<Rightarrow> Some (Inr (), set_items c (take at' (c_items c) @ drop (Suc at') (c_items c)))))"

section \<open>Reading a replacement ends\<close>

context token_source
begin

lemma replacement_loop_returns: "\<exists>r. replacement_loop pull lim s line terminated = Some r"
proof (induction s arbitrary: line terminated rule: wf_induct_rule [OF well_founded])
  case (1 s)
  obtain a s' where p: "pull s = (a, s')" by fastforce
  show ?case
  proof (cases a)
    case None
    then show ?thesis using p by (simp add: replacement_loop.simps [of pull lim s])
  next
    case (Some x)
    then show ?thesis
      using p 1 [OF token_descends]
      by (cases x) (auto simp: replacement_loop.simps [of pull lim s] split: prod.splits sum.splits)
  qed
qed

end

lemma read_named_line_returns: "\<exists>r. read_named_line id' bytes lim = Some r"
  using line_reader.replacement_loop_returns [of lim "reader_new bytes (grammar lim)"]
  by (fastforce simp: read_named_line_def read_replacement_line_def split: sum.splits option.splits)

lemma read_named_line_named:
  "read_named_line id' bytes lim = Some (Inr line) \<Longrightarrow> pid_matches id' (ln_name line)"
  by (auto simp: read_named_line_def split: option.splits sum.splits if_splits)

lemma read_named_line_not_None [simp]: "read_named_line id' bytes lim \<noteq> None"
  using read_named_line_returns [of id' bytes lim] by auto

lemma refuse_first_not_None:
  "refuse_first r c next' \<noteq> None \<longleftrightarrow> (\<forall>x. r = Inr x \<longrightarrow> next' x \<noteq> None)"
  by (simp add: refuse_first_def split: sum.splits)

lemma apply_change_returns: "apply_change c id' change lim \<noteq> None"
  by (cases change)
     (auto simp del: not_None_eq simp: apply_change_def refuse_first_not_None for_each_property_with_id_def
       split: option.split)

lemma apply_to_occurrence_returns: "apply_to_occurrence c id' index change lim \<noteq> None"
  by (cases change)
     (auto simp del: not_None_eq simp: apply_to_occurrence_def refuse_first_not_None split: option.split)

end
