(* ===== verification/Mutation_Laws.thy ===== *)
theory Mutation_Laws
  imports Mutate
begin

text \<open>
  What a write does and what it leaves alone.  The guard over one property is a client of the value
  codecs: its laws are proved once, in a locale over the codec of the value that is written, and
  interpreted for the value types that have an encoder.
\<close>

section \<open>Editing parameters\<close>

text \<open>An assignment as a splice: what precedes the first of the name, the new one, the others.\<close>

lemma assign_parameter_splice:
  "assign_parameter ps name v =
     takeWhile (\<lambda>held. \<not> parameter_is_named held name) ps @ spelled_parameter name v
       # filter (\<lambda>held. \<not> parameter_is_named held name) (dropWhile (\<lambda>held. \<not> parameter_is_named held name) ps)"
proof -
  let ?n = "\<lambda>held. parameter_is_named held name"
  have at': "position ?n ps =
      (if list_ex ?n ps then Some (length (takeWhile (\<lambda>h. \<not> ?n h) ps)) else None)"
    by (induction ps) auto
  have kept: "filter (\<lambda>h. \<not> ?n h) ps
      = takeWhile (\<lambda>h. \<not> ?n h) ps @ filter (\<lambda>h. \<not> ?n h) (dropWhile (\<lambda>h. \<not> ?n h) ps)"
    by (induction ps) auto
  have none: "takeWhile (\<lambda>h. \<not> ?n h) ps = ps" "dropWhile (\<lambda>h. \<not> ?n h) ps = []" if "\<not> list_ex ?n ps"
    using that by (induction ps) auto
  show ?thesis
  proof (cases "list_ex ?n ps")
    case True
    then show ?thesis unfolding assign_parameter_def Let_def at' kept by (simp add: insert_at_def)
  next
    case False
    show ?thesis
      unfolding assign_parameter_def Let_def at' kept none [OF False] using False by simp
  qed
qed

lemma spelled_named [simp]: "parameter_is_named (spelled_parameter name v) other = eq_name name other"
  by (simp add: spelled_parameter_def parameter_is_named_def parameter_new_def)

lemma eq_name_refl [simp]: "eq_name n n"
  by (simp add: eq_name_def)

lemma assigned_named:
  "filter (\<lambda>held. parameter_is_named held name) (assign_parameter ps name v) = [spelled_parameter name v]"
  by (simp add: assign_parameter_splice filter_empty_conv) (auto dest: set_takeWhileD)

lemma eq_name_trans: "eq_name a b \<Longrightarrow> eq_name a c = eq_name b c"
  by (auto simp: eq_name_def eq_ignore_ascii_case_def)

lemma assigned_others:
  assumes "\<And>held. parameter_is_named held name \<Longrightarrow> \<not> P held"
  shows "filter P (assign_parameter ps name v) = filter P ps"
proof -
  let ?n = "\<lambda>held. parameter_is_named held name"
  have "\<not> P (spelled_parameter name v)" by (rule assms) simp
  moreover have "filter P (filter (\<lambda>h. \<not> ?n h) xs) = filter P xs" for xs
    using assms by (induction xs) auto
  moreover have "filter P ps = filter P (takeWhile (\<lambda>h. \<not> ?n h) ps) @ filter P (dropWhile (\<lambda>h. \<not> ?n h) ps)"
    by (metis filter_append takeWhile_dropWhile_id)
  ultimately show ?thesis by (simp add: assign_parameter_splice)
qed

lemma edits_others:
  assumes "\<And>held entry. entry \<in> set edits \<Longrightarrow> parameter_is_named held (ed_name entry) \<Longrightarrow> \<not> P held"
  shows "filter P (apply_parameter_edits ps edits) = filter P ps"
  using assms
proof (induction edits arbitrary: ps)
  case (Cons entry edits)
  have kept: "filter P (filter (\<lambda>h. \<not> parameter_is_named h (ed_name entry)) ps) = filter P ps"
    using Cons.prems [of entry] by (induction ps) auto
  have assigned: "filter P (assign_parameter ps (ed_name entry) v) = filter P ps" for v
    by (rule assigned_others) (use Cons.prems [of entry] in simp)
  have rest: "filter P (apply_parameter_edits qs edits) = filter P qs" for qs
    by (rule Cons.IH) (use Cons.prems in auto)
  show ?case using kept assigned rest by (cases "ed_value entry") simp_all
qed simp

section \<open>Writing through the guard\<close>

text \<open>The parameters no edit of a list names.\<close>

definition edited :: "parameter_edit list \<Rightarrow> parameter \<Rightarrow> bool" where
  "edited edits held \<longleftrightarrow> list_ex (\<lambda>entry. parameter_is_named held (ed_name entry)) edits"

lemma guard_set_refused: "guard_set encode coupled v p = (Inl e, p') \<Longrightarrow> p' = p"
  by (auto simp: guard_set_def Let_def split: sum.splits prod.splits)

lemma guard_set_done:
  assumes "guard_set encode coupled v p = (Inr u, p')"
  obtains t where "encode v [] = (Inr (), t)" "refuse_unwritable_edits (coupled v) = Inr ()"
    "\<not> names_a_component_boundary (pr_name p)" "plain t" "pr_value_text p' = t"
    "pr_parameters p' = apply_parameter_edits (pr_parameters p) (coupled v)"
    "pr_name p' = pr_name p" "lay_refold (pr_layout p')"
  using assms
  by (auto simp: guard_set_def Let_def refuse_component_boundary_def refuse_control_characters_def
      edit_parameters_def set_value_text_def mark_refolded_def plain_def list_ex_iff list_all_iff
      split: sum.splits prod.splits if_splits)

locale written_value = value_codec +
  fixes coupled :: "'a \<Rightarrow> parameter_edit list"
    and read_back :: "property \<Rightarrow> diagnostic_code + 'a"
    and seen :: "'a \<Rightarrow> 'a"
  assumes reads_back: "holds v \<Longrightarrow> writes v = Some (pr_value_text p) \<Longrightarrow>
      refuse_unwritable_edits (coupled v) = Inr () \<Longrightarrow>
      pr_parameters p = apply_parameter_edits ps (coupled v) \<Longrightarrow> read_back p = Inr (seen v)"
begin

lemma set_read_back:
  assumes "holds v" "guard_set encode coupled v p = (Inr u, p')"
  shows "property_value read_back p' = VwValid p' (seen v)"
    and "pr_name p' = pr_name p"
    and "filter (\<lambda>held. \<not> edited (coupled v) held) (pr_parameters p')
      = filter (\<lambda>held. \<not> edited (coupled v) held) (pr_parameters p)"
proof -
  obtain t where t: "encode v [] = (Inr (), t)" "refuse_unwritable_edits (coupled v) = Inr ()"
    "pr_value_text p' = t" "pr_parameters p' = apply_parameter_edits (pr_parameters p) (coupled v)"
    "pr_name p' = pr_name p"
    using guard_set_done [OF assms(2)] by metis
  have "writes v = Some (pr_value_text p')"
    using encode_writes [OF assms(1), of "[]"] t by (auto split: option.splits)
  then show "property_value read_back p' = VwValid p' (seen v)"
    using reads_back [OF assms(1) _ t(2,4)] by (simp add: property_value_def)
  show "pr_name p' = pr_name p" by (rule t(5))
  show "filter (\<lambda>held. \<not> edited (coupled v) held) (pr_parameters p')
      = filter (\<lambda>held. \<not> edited (coupled v) held) (pr_parameters p)"
    unfolding t(4) by (rule edits_others) (auto simp: edited_def list_ex_iff)
qed

lemma set_succeeds:
  assumes "holds v"
  shows "fst (guard_set encode coupled v p) = Inr () \<longleftrightarrow>
    \<not> names_a_component_boundary (pr_name p) \<and> writes v \<noteq> None
      \<and> refuse_unwritable_edits (coupled v) = Inr ()"
  using encode_writes [OF assms, of "[]"] writes_plain [OF assms]
  by (auto simp: guard_set_def Let_def refuse_component_boundary_def refuse_control_characters_def
      plain_def list_ex_iff list_all_iff split: sum.splits prod.splits option.splits)

end

context value_codec
begin

lemma read_by_octets: "written_value decode encode writes holds canon coupled (decode_property decode) canon"
  by unfold_locales (auto simp: decode_property_def writes_read)

end

interpretation written_duration: written_value duration_decode_value duration_encode_value
  duration_writes valid_duration reconciled duration_coupled_parameters
  "decode_property duration_decode_value" reconciled
  by (rule duration.read_by_octets)

interpretation written_integer: written_value integer_decode_value integer_encode_value
  "\<lambda>x. Some (shown_int x)" in_i32 "\<lambda>x. x" integer_coupled_parameters
  "decode_property integer_decode_value" "\<lambda>x. x"
  by (rule integer.read_by_octets)

interpretation written_offset: written_value offset_decode_value offset_encode_value
  "\<lambda>u. Some (offset_text u)" valid_offset "\<lambda>u. u" offset_coupled_parameters
  "decode_property offset_decode_value" "\<lambda>u. u"
  by (rule offset.read_by_octets)

section \<open>Zones\<close>

text \<open>
  A zone written through the guard is caret-encoded and quoted; the accessor unquotes it and stops
  there.  What is read is therefore the encoded name, which is the name itself exactly when it
  holds neither a caret, a quote nor a line feed.
\<close>

fun seen_dtv :: "datetime_value \<Rightarrow> datetime_value" where
  "seen_dtv (VZoned stamp tzid) = VZoned stamp (encode_caret tzid)"
| "seen_dtv v = v"

lemma encode_caret_empty: "encode_caret bs = [] \<longleftrightarrow> bs = []"
  using caret_codec.length_encode [of bs] by (cases bs) (auto simp: encode_caret_eq)

lemma zone_of_assigned:
  assumes "filter (\<lambda>held. parameter_is_named held TZID_name) (pr_parameters p)
      = [spelled_parameter TZID_name z]" "z \<noteq> []"
  shows "zone_of p = Some (encode_caret z)"
proof -
  have "parameter_unquoted (spelled_parameter TZID_name z) = encode_caret z"
    by (rule unquoted_quoted [OF encode_caret_clean(1)]) (simp add: spelled_parameter_def parameter_new_def)
  then show ?thesis
    using assms by (simp add: zone_of_def parameters_named_def encode_caret_empty Let_def)
qed

lemma zone_of_removed:
  "filter (\<lambda>held. parameter_is_named held TZID_name) (pr_parameters p) = [] \<Longrightarrow> zone_of p = None"
  by (simp add: zone_of_def parameters_named_def)

interpretation written_dtv: written_value dtv_decode_value dtv_encode_value dtv_writes valid_dtv
  unzoned dtv_coupled_parameters dtv_decode_property seen_dtv
proof unfold_locales
  fix v and p :: property and ps
  assume v: "valid_dtv v" "dtv_writes v = Some (pr_value_text p)"
    and ps: "pr_parameters p = apply_parameter_edits ps (dtv_coupled_parameters v)"
  have d: "dtv_decode_value (pr_value_text p) = Inr (unzoned v)" by (rule dtv.writes_read [OF v])
  show "dtv_decode_property p = Inr (seen_dtv v)"
  proof (cases v)
    case (VZoned stamp z)
    then have "z \<noteq> []" using v(2) by (auto simp: dtv_writes_def split: if_splits)
    moreover have "filter (\<lambda>held. parameter_is_named held TZID_name) (pr_parameters p)
        = [spelled_parameter TZID_name z]"
      unfolding ps VZoned by (simp add: edit_set_def edit_remove_def assigned_named)
    ultimately show ?thesis using d VZoned zone_of_assigned by (simp add: dtv_decode_property_def)
  next
    case (VLocal stamp)
    then have "zone_of p = None"
      using ps by (intro zone_of_removed) (simp add: edit_remove_def filter_empty_conv)
    then show ?thesis using d VLocal by (simp add: dtv_decode_property_def)
  qed (use d in \<open>simp_all add: dtv_decode_property_def\<close>)
qed

definition seen_period :: "period_value \<Rightarrow> period_value" where
  "seen_period v =
     (case period_zone v of
        None \<Rightarrow> unzoned_period v
      | Some z \<Rightarrow>
          (case unzoned_period v of
             PExplicit s e \<Rightarrow> PExplicit (under_zone s (encode_caret z)) (under_zone e (encode_caret z))
           | PStarting s d \<Rightarrow> PStarting (under_zone s (encode_caret z)) d))"

lemma period_zone_writable: "period_writes v \<noteq> None \<Longrightarrow> period_zone v = Some z \<Longrightarrow> z \<noteq> []"
proof -
  have "dtv_tzid b = Some z \<Longrightarrow> is_period_bound b \<Longrightarrow> z \<noteq> []" for b
    by (cases b) (simp_all add: is_period_bound_def)
  then show "period_writes v \<noteq> None \<Longrightarrow> period_zone v = Some z \<Longrightarrow> z \<noteq> []"
    by (cases v) (auto split: if_splits option.splits)
qed

interpretation written_period: written_value period_decode_value period_encode_value period_writes
  valid_period unzoned_period period_coupled_parameters period_decode_property seen_period
proof unfold_locales
  fix v and p :: property and ps
  assume v: "valid_period v" "period_writes v = Some (pr_value_text p)"
    and ps: "pr_parameters p = apply_parameter_edits ps (period_coupled_parameters v)"
  have d: "period_decode_value (pr_value_text p) = Inr (unzoned_period v)"
    by (rule period_codec.writes_read [OF v])
  show "period_decode_property p = Inr (seen_period v)"
  proof (cases "period_zone v")
    case None
    then have "zone_of p = None"
      using ps by (intro zone_of_removed) (simp add: period_coupled_parameters_def edit_remove_def edit_set_def filter_empty_conv)
    then show ?thesis using d None by (simp add: period_decode_property_def seen_period_def)
  next
    case (Some z)
    then have "filter (\<lambda>held. parameter_is_named held TZID_name) (pr_parameters p)
        = [spelled_parameter TZID_name z]"
      unfolding ps by (simp add: period_coupled_parameters_def edit_set_def assigned_named)
    then have "zone_of p = Some (encode_caret z)"
      using period_zone_writable [of v z] v(2) Some by (intro zone_of_assigned) simp_all
    then show ?thesis
      using d Some by (simp add: period_decode_property_def seen_period_def split: period_value.splits)
  qed
qed

section \<open>Properties\<close>



end
