(* ===== verification/Change_Frame.thy ===== *)
theory Change_Frame
  imports Mutation_Laws
begin

text \<open>
  What a change to a component reaches: the lines it names, and of the others nothing but a missing
  terminator that an added line would run into.
\<close>

section \<open>Occurrences\<close>

lemma nth_filtered_position:
  "index < length (filter (\<lambda>(_, x). P x) (enumerate n xs)) \<Longrightarrow>
     (\<exists>k < length xs. fst (filter (\<lambda>(_, x). P x) (enumerate n xs) ! index) = n + k \<and> P (xs ! k)
        \<and> length (filter P (take k xs)) = index)"
proof (induction xs arbitrary: n index)
  case (Cons x xs)
  show ?case
  proof (cases "P x")
    case True
    show ?thesis
    proof (cases index)
      case 0
      then show ?thesis using True by (intro exI [of _ 0]) simp
    next
      case (Suc i)
      then obtain k where k: "k < length xs"
        "fst (filter (\<lambda>(_, x). P x) (enumerate (Suc n) xs) ! i) = Suc n + k" "P (xs ! k)"
        "length (filter P (take k xs)) = i"
        using Cons.IH [of i "Suc n"] Cons.prems True by auto
      then show ?thesis using True Suc by (intro exI [of _ "Suc k"]) simp
    qed
  next
    case False
    then obtain k where k: "k < length xs"
      "fst (filter (\<lambda>(_, x). P x) (enumerate (Suc n) xs) ! index) = Suc n + k" "P (xs ! k)"
      "length (filter P (take k xs)) = index"
      using Cons.IH [of index "Suc n"] Cons.prems by auto
    then show ?thesis using False by (intro exI [of _ "Suc k"]) simp
  qed
qed simp

lemma length_filtered_positions:
  "length (filter (\<lambda>(_, x). P x) (enumerate n xs)) = length (filter P xs)"
  by (induction xs arbitrary: n) auto

text \<open>The item at a position is the \<open>index\<close>th of an identity, counted from zero.\<close>

definition is_occurrence :: "component \<Rightarrow> property_id \<Rightarrow> nat \<Rightarrow> nat \<Rightarrow> bool" where
  "is_occurrence c id' index k \<longleftrightarrow> k < length (c_items c) \<and> item_has_id id' (c_items c ! k)
     \<and> length (filter (item_has_id id') (take k (c_items c))) = index"

lemma occurrence_position_is:
  "occurrence_position c id' index = Some k \<Longrightarrow> is_occurrence c id' index k"
  using nth_filtered_position [of index "item_has_id id'" 0 "c_items c"]
  by (auto simp: occurrence_position_def is_occurrence_def Let_def split: if_splits)

lemma occurrence_position_None:
  "occurrence_position c id' index = None \<longleftrightarrow> length (filter (item_has_id id') (c_items c)) \<le> index"
  by (auto simp: occurrence_position_def Let_def length_filtered_positions)

lemma occurrence_count_items: "occurrence_count c id' = length (filter (item_has_id id') (c_items c))"
proof -
  have "length (filter (\<lambda>p. property_has_id p id') (List.map_filter as_property is))
      = length (filter (item_has_id id') is)" for "is"
    by (induction "is") (auto simp: map_filter_def item_has_id_def split: option.splits)
  then show ?thesis by (simp add: occurrence_count_def component_properties_def)
qed

lemma item_has_id_property: "item_has_id id' entry \<Longrightarrow> \<exists>p. entry = IProperty p \<and> property_has_id p id'"
  by (cases entry) (simp_all add: item_has_id_def)

lemma set_items_simps [simp]:
  "c_items (set_items c is) = is" "c_begin (set_items c is) = c_begin c" "c_end (set_items c is) = c_end c"
  "set_items c (c_items c) = c"
  by (simp_all add: set_items_def)

lemma occurrence_mut_done:
  assumes "occurrence_mut c id' index act = (r, c')"
  shows "(\<exists>k p. is_occurrence c id' index k \<and> c_items c ! k = IProperty p
      \<and> r = Inr () \<and> c' = set_items c ((c_items c)[k := IProperty (act p)]))
    \<or> (r = Inl MutAbsent \<and> c' = c \<and> length (filter (item_has_id id') (c_items c)) \<le> index)"
proof (cases "occurrence_position c id' index")
  case None
  then show ?thesis using assms by (simp add: occurrence_mut_def flip: occurrence_position_None)
next
  case (Some k)
  note o = occurrence_position_is [OF Some]
  then obtain p where "c_items c ! k = IProperty p"
    using item_has_id_property by (auto simp: is_occurrence_def)
  then show ?thesis using assms Some o by (auto simp: occurrence_mut_def is_occurrence_def)
qed

section \<open>Where an addition lands\<close>

lemma past_last_bound: "past_last_property is \<le> length is"
  by (induction "is") auto

lemma past_last_above:
  "0 < past_last_property is \<Longrightarrow> \<exists>p. is ! (past_last_property is - 1) = IProperty p"
proof (induction "is")
  case (Cons i "is")
  show ?case
  proof (cases "past_last_property is")
    case 0
    then show ?thesis using Cons.prems by (cases i) auto
  next
    case (Suc n)
    then show ?thesis using Cons by auto
  qed
qed simp

lemma past_last_below: "past_last_property is \<le> k \<Longrightarrow> k < length is \<Longrightarrow> as_property (is ! k) = None"
proof (induction "is" arbitrary: k)
  case (Cons i "is")
  then show ?case by (cases k) (auto split: if_splits)
qed simp

text \<open>What was there is there, but for a terminator written where none was.\<close>

definition terminated_at_most :: "item \<Rightarrow> item \<Rightarrow> bool" where
  "terminated_at_most i j \<longleftrightarrow> j = i \<or>
     (\<exists>p. i = IProperty p \<and> lay_ending (pr_layout p) = None
        \<and> j = IProperty (p\<lparr>pr_layout := (pr_layout p)\<lparr>lay_ending := Some CANONICAL\<rparr>\<rparr>))"

lemma terminated_refl [simp]: "terminated_at_most i i"
  by (simp add: terminated_at_most_def)

lemma terminated_property: "terminated_at_most (IProperty p) (IProperty (snd (property_terminate_line p CANONICAL)))"
  by (auto simp: terminated_at_most_def property_terminate_line_def terminate_with_def split: prod.splits)

lemma list_all2_same: "(\<And>x. R x x) \<Longrightarrow> list_all2 R xs xs"
  by (simp add: list.rel_refl)

lemma terminate_line_above_items:
  "list_all2 terminated_at_most (c_items c) (c_items (terminate_line_above c k))
   \<and> c_end (terminate_line_above c k) = c_end c"
proof (cases "if 1 \<le> k \<and> k - 1 < length (c_items c) then as_property (c_items c ! (k - 1)) else None")
  case None
  then show ?thesis by (simp add: terminate_line_above_def list_all2_same)
next
  case (Some p)
  then have i: "k - 1 < length (c_items c)" "c_items c ! (k - 1) = IProperty p"
    by (auto split: if_splits) (cases "c_items c ! (k - 1)"; simp)
  have "list_all2 terminated_at_most (c_items c)
      ((c_items c)[k - 1 := IProperty (snd (property_terminate_line p CANONICAL))])"
    using i terminated_property [of p] by (auto simp: list_all2_conv_all_nth nth_list_update)
  then show ?thesis using Some by (simp add: terminate_line_above_def)
qed

section \<open>The frame of a change\<close>

text \<open>A named line may change and stays named; any other is what it was.\<close>

definition named_only :: "property_id \<Rightarrow> item \<Rightarrow> item \<Rightarrow> bool" where
  "named_only id' i j \<longleftrightarrow> (if item_has_id id' i then item_has_id id' j else j = i)"

text \<open>
  An added line stands past the last property, below a line that ends, and what was there before is
  there but for that terminator.
\<close>

definition added :: "property_id \<Rightarrow> component \<Rightarrow> component \<Rightarrow> bool" where
  "added id' c c' \<longleftrightarrow>
     (let k = past_last_property (c_items c) in
      \<exists>p is. property_has_id p id' \<and> list_all2 terminated_at_most (c_items c) is
        \<and> c_items c' = insert_at k (IProperty p) is \<and> c_end c' = c_end c
        \<and> (if k = 0 then lay_ending (b_layout (c_begin c')) \<noteq> None
           else c_begin c' = c_begin c
             \<and> (\<exists>q. c_items c' ! (k - 1) = IProperty q \<and> lay_ending (pr_layout q) \<noteq> None)))"

lemma terminated: "lay_ending (snd (terminate_with l e)) \<noteq> None"
  by (simp add: terminate_with_def)

lemma inserted_added:
  assumes "pid_matches id' (ln_name line)"
  shows "added id' c (insert_after_properties c line)"
proof -
  let ?k = "past_last_property (c_items c)"
  let ?t = "terminate_line_above c ?k"
  let ?p = "property_new (ln_name line) (ln_parameters line) (ln_value line)
      (layout_canonical (case ln_ending line of Some e \<Rightarrow> e | None \<Rightarrow> CANONICAL))"
  have items: "c_items (insert_after_properties c line) = insert_at ?k (IProperty ?p) (c_items ?t)"
    and rest: "c_begin (insert_after_properties c line) = c_begin ?t" "c_end (insert_after_properties c line) = c_end ?t"
    by (simp_all add: insert_after_properties_def Let_def)
  have "property_has_id ?p id'" using assms by (simp add: property_has_id_def property_new_def)
  moreover have "if ?k = 0 then lay_ending (b_layout (c_begin ?t)) \<noteq> None
      else c_begin ?t = c_begin c
        \<and> (\<exists>q. insert_at ?k (IProperty ?p) (c_items ?t) ! (?k - 1) = IProperty q \<and> lay_ending (pr_layout q) \<noteq> None)"
  proof (cases "?k = 0")
    case True
    obtain t l where "terminate_with (b_layout (c_begin c)) CANONICAL = (t, l)" by fastforce
    then show ?thesis
      using True terminated [of "b_layout (c_begin c)" CANONICAL]
      by (simp add: terminate_line_above_def boundary_terminate_line_def)
  next
    case False
    then obtain p where p: "c_items c ! (?k - 1) = IProperty p" "?k - 1 < length (c_items c)"
      using past_last_above [of "c_items c"] past_last_bound [of "c_items c"] by auto
    then have t: "?t = set_items c ((c_items c)[?k - 1 := IProperty (snd (property_terminate_line p CANONICAL))])"
      using False by (simp add: terminate_line_above_def)
    obtain b l where "terminate_with (pr_layout p) CANONICAL = (b, l)" by fastforce
    then have "lay_ending (pr_layout (snd (property_terminate_line p CANONICAL))) \<noteq> None"
      using terminated [of "pr_layout p" CANONICAL] by (simp add: property_terminate_line_def)
    then show ?thesis
      using False p(2) unfolding t by (simp add: insert_at_def nth_append)
  qed
  ultimately show ?thesis
    using terminate_line_above_items [of c ?k] unfolding added_def Let_def items rest by blast
qed

lemma for_each_named:
  assumes "\<And>p. property_has_id p id' \<Longrightarrow> property_has_id (act p) id'"
    and "for_each_property_with_id c id' act = (reached, c')"
  shows "list_all2 (named_only id') (c_items c) (c_items c')" "c_begin c' = c_begin c" "c_end c' = c_end c"
    and "reached \<longleftrightarrow> 0 < occurrence_count c id'" "\<not> reached \<Longrightarrow> c' = c"
proof -
  let ?f = "\<lambda>entry. case entry of
      IProperty p \<Rightarrow> if \<not> property_has_id p id' then entry else IProperty (act p) | IComponent _ \<Rightarrow> entry"
  have e: "c' = set_items c (map ?f (c_items c))" "reached = list_ex (item_has_id id') (c_items c)"
    using assms(2) by (auto simp: for_each_property_with_id_def)
  have "named_only id' i (?f i)" for i
    using assms(1) by (cases i) (simp_all add: named_only_def item_has_id_def)
  then show "list_all2 (named_only id') (c_items c) (c_items c')"
    by (simp add: e list_all2_conv_all_nth)
  show "c_begin c' = c_begin c" "c_end c' = c_end c" by (simp_all add: e)
  show "reached \<longleftrightarrow> 0 < occurrence_count c id'"
    by (auto simp: e occurrence_count_items list_ex_iff filter_empty_conv)
  have "?f i = i" if "\<not> item_has_id id' i" for i
    using that by (cases i) (simp_all add: item_has_id_def)
  then have "map ?f (c_items c) = c_items c" if "\<not> reached"
    using that by (auto simp: e list_ex_iff intro: map_idI)
  then show "\<not> reached \<Longrightarrow> c' = c" by (simp add: e(1))
qed

lemma whole_line_named:
  "pid_matches id' (ln_name line) \<Longrightarrow> property_has_id (write_whole_line p line) id'"
  by (simp add: write_whole_line_def set_name_def edit_parameters_def set_value_text_def property_has_id_def Let_def)

lemma edited_named: "property_has_id (edit_parameters p f) id' = property_has_id p id'"
  by (simp add: edit_parameters_def property_has_id_def Let_def)

lemma remove_named_done:
  "remove_named c id' = (r, c') \<Longrightarrow>
     (if r = Inr () then c' = set_items c (filter (\<lambda>i. \<not> item_has_id id' i) (c_items c)) \<and> 0 < occurrence_count c id'
      else c' = c \<and> occurrence_count c id' = 0)"
proof -
  have "length (filter (\<lambda>i. \<not> item_has_id id' i) (c_items c)) = length (c_items c) \<longleftrightarrow> occurrence_count c id' = 0"
    using sum_length_filter_compl [of "item_has_id id'" "c_items c"] unfolding occurrence_count_items by linarith
  moreover have "occurrence_count c id' = 0 \<Longrightarrow> filter (\<lambda>i. \<not> item_has_id id' i) (c_items c) = c_items c"
    by (auto simp: occurrence_count_items filter_empty_conv)
  ultimately show "remove_named c id' = (r, c') \<Longrightarrow>
     (if r = Inr () then c' = set_items c (filter (\<lambda>i. \<not> item_has_id id' i) (c_items c)) \<and> 0 < occurrence_count c id'
      else c' = c \<and> occurrence_count c id' = 0)"
    by (auto simp: remove_named_def Let_def split: if_splits)
qed

lemma refuse_first_cases:
  assumes "refuse_first x c act = Some (r, c')"
  obtains e where "x = Inl e" "r = Inl e" "c' = c" | y where "x = Inr y" "act y = Some (r, c')"
  using assms by (auto simp: refuse_first_def split: sum.splits)

lemmas refuse_first_done = refuse_first_def refuse_component_boundary_def

section \<open>Properties\<close>


definition one_event :: component where
  "one_event =
     Component (boundary_new BEGIN_keyword (ascii ''VEVENT'') (layout_canonical CrLf))
       [IProperty (property_new (ascii ''SUMMARY'') [] (ascii ''x'') (layout_preserved [] None True)),
        IProperty (property_new (ascii ''UID'') [] (ascii ''y'') (layout_preserved [] None True))] None"

lemma one_event_facts:
  "refuse_component_boundary (pid_name ID_SUMMARY) = Inr ()"
  "refuse_unwritable_edits [edit_set (ascii ''X'') (ascii ''1'')] = Inr ()"
  "list_ex (item_has_id ID_SUMMARY) (c_items one_event)"
  "occurrence_position one_event ID_SUMMARY 0 = Some 0"
  by code_simp+




end
