(* ===== verification/Authored_Lines.thy ===== *)
theory Authored_Lines
  imports Mutation_Laws Parse_Limits Emit_Sinks
begin

text \<open>
  A line the crate authors reads back as that line and no other.  The reader is followed forward
  over the octets the writer leaves: \<open>unfolds\<close> relates folded octets to the line they stand for,
  and each part of a content line is carried through the header lexer to the tokens it becomes.
\<close>

section \<open>Folded octets\<close>

inductive unfolds :: "octets \<Rightarrow> octets \<Rightarrow> bool" where
  unfolds_Nil: "unfolds [] []"
| unfolds_octet: "b \<noteq> 0x0D \<Longrightarrow> b \<noteq> 0x0A \<Longrightarrow> unfolds ph cs \<Longrightarrow> unfolds (b # ph) (b # cs)"
| unfolds_fold: "unfolds ph cs \<Longrightarrow> unfolds (0x0D # 0x0A # 0x20 # ph) cs"

lemma canonical_fold_simps [simp]:
  "fold_offset (canonical_fold b) = b" "fold_bytes (canonical_fold b) = [0x0D, 0x0A, 0x20]"
  by (simp_all add: canonical_fold_def fold_bytes_def fold_whitespace_def CANONICAL_def)

lemma unfolds_folds: "unfolds (concat (map fold_bytes (map canonical_fold bs))) []"
  by (induction bs) (auto intro: unfolds.intros)

lemma unfolds_weave:
  "list_all (\<lambda>b. b \<noteq> 0x0D \<and> b \<noteq> 0x0A) cs \<Longrightarrow> unfolds (weave p cs (map canonical_fold bs)) cs"
proof (induction bs arbitrary: p cs)
  case Nil
  then show ?case by (induction cs) (auto intro: unfolds.intros)
next
  case (Cons b bs)
  note rest = Cons.IH
  show ?case
    using Cons.prems
  proof (induction cs arbitrary: p)
    case Nil
    then show ?case using unfolds_folds [of "b # bs"] by simp
  next
    case (Cons c cs)
    have "unfolds (weave p (c # cs) (map canonical_fold bs)) (c # cs)" using Cons.prems by (rule rest)
    then show ?case using Cons by (auto intro: unfolds.intros)
  qed
qed

lemma unfolds_append:
  assumes "unfolds ph (as @ bs)"
  obtains p q where "ph = p @ q" "unfolds p as" "unfolds q bs"
proof -
  have "\<exists>p q. ph = p @ q \<and> unfolds p as \<and> unfolds q bs"
    using assms
  proof (induction ph "as @ bs" arbitrary: as rule: unfolds.induct)
    case unfolds_Nil
    then show ?case by (auto intro: unfolds.intros)
  next
    case (unfolds_octet b ph cs)
    show ?case
    proof (cases as)
      case Nil
      then show ?thesis using unfolds_octet by (metis append_Nil unfolds.intros(1,2))
    next
      case (Cons a as')
      then obtain p q where "ph = p @ q" "unfolds p as'" "unfolds q bs"
        using unfolds_octet by auto
      then show ?thesis
        using Cons unfolds_octet by (intro exI [of _ "b # p"] exI [of _ q]) (auto intro: unfolds.intros)
    qed
  next
    case (unfolds_fold ph as)
    then obtain p q where "ph = p @ q" "unfolds p as" "unfolds q bs" by blast
    then show ?case
      by (intro exI [of _ "0x0D # 0x0A # 0x20 # p"] exI [of _ q]) (auto intro: unfolds.intros)
  qed
  then show ?thesis using that by blast
qed

section \<open>Room\<close>

text \<open>The reader may take \<open>k\<close> more octets without reaching a bound of the grammar.\<close>

definition spans_held :: "reader \<Rightarrow> nat" where
  "spans_held r = length (r_parameters r) + (if r_pending r = None then 0 else 1)"

definition room :: "reader \<Rightarrow> nat \<Rightarrow> bool" where
  "room r k \<longleftrightarrow>
     k + length (r_scratch r) \<le> min u32_max (gl_header_bytes (r_limits r))
   \<and> k + length (r_folds r) \<le> min u32_max (gl_folds_per_line (r_limits r))
   \<and> k + spans_held r \<le> min u32_max (gl_parameters (r_limits r))"

lemma room_less: "room r k \<Longrightarrow> j \<le> k \<Longrightarrow> room r j"
  by (auto simp: room_def)

lemma unquoted_spans: "spans_held (step_unquoted r b at') = spans_held r"
  by (simp add: step_unquoted_def begin_parameter_value_def spans_held_def
      split: header_state.split option.split)

lemma opened_spans: "open_parameter r at' = (Inr u, r') \<Longrightarrow> spans_held r' = Suc (spans_held r)"
  by (auto simp: open_parameter_def close_pending_def spans_held_def Let_def split: if_splits option.splits)

lemma step_spans:
  "step_header_state r b at' = (Inr u, r') \<Longrightarrow> spans_held r' \<le> Suc (spans_held r)"
  by (auto simp: step_header_state_def unquoted_spans dest: opened_spans split: if_splits)
     (simp_all add: spans_held_def)

lemma append_room:
  assumes a: "append_header_octet r b = (Inr u, r')" and "room r (Suc k)"
  shows "room r' k"
proof -
  let ?q = "advance_line_offset (r\<lparr>r_scratch := r_scratch r @ [b]\<rparr>) 1"
  have s: "step_header_state ?q b (length (r_scratch r)) = (Inr u, r')"
    using a by (auto simp: append_header_octet_def Let_def split: if_splits)
  have "spans_held r' \<le> Suc (spans_held r)"
    using step_spans [OF s] by (simp add: spans_held_def)
  then show ?thesis
    using assms(2) step_header_frame [of ?q b "length (r_scratch r)", unfolded s] by (simp add: room_def)
qed

section \<open>Carrying octets through the header\<close>

lemma drop_Cons_nth: "drop n xs = y # ys \<Longrightarrow> n < length xs \<and> xs ! n = y \<and> drop (Suc n) xs = ys"
proof -
  assume d: "drop n xs = y # ys"
  then have "n < length xs" by (metis drop_eq_Nil leI list.distinct(1))
  then show ?thesis using d by (simp add: Cons_nth_drop_Suc [symmetric])
qed

lemma no_terminator:
  "drop n xs = b # rest \<Longrightarrow> b \<noteq> 0x0D \<Longrightarrow> b \<noteq> 0x0A \<Longrightarrow> terminator_at xs n = None"
  using drop_Cons_nth [of n xs b rest] by (simp add: terminator_at_def)

lemma crlf_terminator:
  "drop n xs = 0x0D # 0x0A # rest \<Longrightarrow> terminator_at xs n = Some (CrLf, 2) \<and> drop (n + 2) xs = rest"
  using drop_Cons_nth [of n xs "0x0D" "0x0A # rest"] drop_Cons_nth [of "Suc n" xs "0x0A" rest]
  by (simp add: terminator_at_def)

lemma crlf_fold:
  assumes "drop (r_cursor r) (r_input r) = 0x0D # 0x0A # 0x20 # rest" "room r (Suc k)"
  shows "take_fold r CrLf 2 = (Inr True, r\<lparr>r_folds := r_folds r @ [\<lparr>fold_offset = r_line_offset r,
      fold_tab = False, fold_newline = CrLf\<rparr>], r_cursor := r_cursor r + 3\<rparr>)"
    and "drop (r_cursor r + 3) (r_input r) = rest"
proof -
  have "drop (r_cursor r + 2) (r_input r) = 0x20 # rest"
    using crlf_terminator [of "r_cursor r" "r_input r"] assms(1) by simp
  from drop_Cons_nth [OF this] show "drop (r_cursor r + 3) (r_input r) = rest"
    and "take_fold r CrLf 2 = (Inr True, r\<lparr>r_folds := r_folds r @ [\<lparr>fold_offset = r_line_offset r,
      fold_tab = False, fold_newline = CrLf\<rparr>], r_cursor := r_cursor r + 3\<rparr>)"
    using assms(2) by (auto simp: take_fold_def Let_def is_fold_whitespace_def room_def numeral_3_eq_3)
qed

text \<open>What the reader keeps while it takes a part of a line.\<close>

definition same_line :: "reader \<Rightarrow> reader \<Rightarrow> bool" where
  "same_line r q \<longleftrightarrow> r_input q = r_input r \<and> r_limits q = r_limits r"

lemma same_line_refl [simp]: "same_line r r"
  by (simp add: same_line_def)

lemma same_line_trans: "same_line r q \<Longrightarrow> same_line q p \<Longrightarrow> same_line r p"
  by (simp add: same_line_def)

lemma scan_consume:
  assumes "unfolds ph cs'" and "cs = done' @ cs'"
    and "drop (r_cursor r) (r_input r) = ph @ rest" and "room r (length ph + m)" and "P r done'"
    and step: "\<And>q d b more'. P q d \<Longrightarrow> cs = d @ b # more' \<Longrightarrow> room q 1 \<Longrightarrow>
      (b = 0x3A \<longrightarrow> r_header_state q = HQuoted)
      \<and> (\<exists>q'. append_header_octet q b = (Inr (), q') \<and> P q' (d @ [b]))"
    and stable: "\<And>q d f c. P q d \<Longrightarrow> P (q\<lparr>r_folds := f, r_cursor := c\<rparr>) d"
  shows "\<exists>q. scan_header r = scan_header q \<and> P q cs \<and> drop (r_cursor q) (r_input q) = rest
    \<and> room q m \<and> same_line r q"
  using assms(1-5)
proof (induction ph cs' arbitrary: r done' rule: unfolds.induct)
  case unfolds_Nil
  then show ?case by (intro exI [of _ r]) simp
next
  case (unfolds_octet b ph cs')
  note c = drop_Cons_nth [of "r_cursor r" "r_input r" b "ph @ rest"]
  have "room r 1" using unfolds_octet.prems(3) by (rule room_less) simp
  with step [OF unfolds_octet.prems(4,1)] obtain r' where
    r': "append_header_octet r b = (Inr (), r')" "P r' (done' @ [b])" and sep: "b = 0x3A \<longrightarrow> r_header_state r = HQuoted"
    by auto
  note frame = append_header_frame [of r b, unfolded r', simplified]
  let ?r = "r'\<lparr>r_cursor := r_cursor r' + 1\<rparr>"
  have scan: "scan_header r = scan_header ?r"
    using unfolds_octet.prems(2) c no_terminator [of "r_cursor r" "r_input r" b "ph @ rest"] unfolds_octet.hyps(1,2) sep r'
    by (subst scan_header.simps) auto
  have "room r' (length ph + m)"
    using unfolds_octet.prems(3) append_room [OF r'(1)] by simp
  then have "room ?r (length ph + m)" by (simp add: room_def spans_held_def)
  moreover have "P ?r (done' @ [b])" using stable [OF r'(2), where f = "r_folds r'"] by simp
  moreover have "drop (r_cursor ?r) (r_input ?r) = ph @ rest"
    using unfolds_octet.prems(2) c frame by simp
  ultimately obtain q where "scan_header ?r = scan_header q" "P q cs"
    "drop (r_cursor q) (r_input q) = rest" "room q m" "same_line ?r q"
    using unfolds_octet.IH [of "done' @ [b]" ?r] unfolds_octet.prems(1) by auto
  then show ?case using scan frame by (intro exI [of _ q]) (simp add: same_line_def)
next
  case (unfolds_fold ph cs')
  have k: "room r (Suc (length ph + m))" by (rule room_less [OF unfolds_fold.prems(3)]) simp
  note f = crlf_fold [of r "ph @ rest", OF _ k]
  let ?r = "r\<lparr>r_folds := r_folds r @ [\<lparr>fold_offset = r_line_offset r, fold_tab = False, fold_newline = CrLf\<rparr>],
      r_cursor := r_cursor r + 3\<rparr>"
  have scan: "scan_header r = scan_header ?r"
    using unfolds_fold.prems(2) f(1) crlf_terminator [of "r_cursor r" "r_input r"] drop_Cons_nth [of "r_cursor r" "r_input r"]
    by (subst scan_header.simps) auto
  have "room ?r (length ph + m)" using k by (simp add: room_def spans_held_def)
  moreover have "P ?r done'" using stable [OF unfolds_fold.prems(4)] by simp
  moreover have "drop (r_cursor ?r) (r_input ?r) = ph @ rest" using f(2) unfolds_fold.prems(2) by simp
  ultimately obtain q where "scan_header ?r = scan_header q" "P q cs"
    "drop (r_cursor q) (r_input q) = rest" "room q m" "same_line ?r q"
    using unfolds_fold.IH [of done' ?r] unfolds_fold.prems(1) by auto
  then show ?case using scan by (intro exI [of _ q]) (simp add: same_line_def)
qed

section \<open>The parts of a header\<close>

definition spells :: "octets \<Rightarrow> parameter_span \<Rightarrow> parameter \<Rightarrow> bool" where
  "spells s sp q \<longleftrightarrow> span_in (length s) sp
     \<and> slice_or_empty s (ps_name_start sp) (ps_name_end sp) = pm_name q
     \<and> slice_or_empty s (ps_value_start sp) (ps_value_end sp) = pm_value q
     \<and> ps_has_value sp = pm_has_value q"

lemma spells_append: "spells s sp q \<Longrightarrow> spells (s @ x) sp q"
  by (auto simp: spells_def span_in_def slice_append)

lemma list_spells_append: "list_all2 (spells s) sps qs \<Longrightarrow> list_all2 (spells (s @ x)) sps qs"
  by (erule list_all2_mono) (rule spells_append)

text \<open>The header up to here is the name \<open>n\<close> and the parameters \<open>qs\<close>.\<close>

definition head_read :: "reader \<Rightarrow> octets \<Rightarrow> parameter list \<Rightarrow> bool" where
  "head_read r n qs \<longleftrightarrow>
     r_scratch r = n @ parameters_text qs \<and> r_header_state r \<noteq> HQuoted
   \<and> r_name_end (close_pending r (length (r_scratch r))) = length n
   \<and> r_pending (close_pending r (length (r_scratch r))) = None
   \<and> list_all2 (spells (r_scratch r)) (r_parameters (close_pending r (length (r_scratch r)))) qs"

lemma head_read_stable: "head_read (q\<lparr>r_folds := f, r_cursor := c\<rparr>) n qs = head_read q n qs"
  by (simp add: head_read_def close_pending_def split: option.split)

definition header_octet :: "octet \<Rightarrow> bool" where
  "header_octet b \<longleftrightarrow> b \<noteq> 0x3B \<and> b \<noteq> 0x3A"

lemma append_octet_room:
  "room r 1 \<Longrightarrow> append_header_octet r b
     = step_header_state (advance_line_offset (r\<lparr>r_scratch := r_scratch r @ [b]\<rparr>) 1) b (length (r_scratch r))"
  by (simp add: append_header_octet_def room_def Let_def)

lemma scan_name:
  assumes "unfolds ph n" "drop (r_cursor r) (r_input r) = ph @ rest" "room r (length ph + m)"
    and "list_all header_octet n"
    and "r_scratch r = []" "r_pending r = None" "r_parameters r = []" "r_header_state r = HName"
  shows "\<exists>q. scan_header r = scan_header q \<and> head_read q n [] \<and> drop (r_cursor q) (r_input q) = rest
    \<and> room q m \<and> same_line r q"
proof -
  let ?P = "\<lambda>q d. r_scratch q = d \<and> r_pending q = None \<and> r_parameters q = [] \<and> r_header_state q = HName"
  have "\<exists>q. scan_header r = scan_header q \<and> ?P q n \<and> drop (r_cursor q) (r_input q) = rest
    \<and> room q m \<and> same_line r q"
  proof (rule scan_consume [OF assms(1) _ assms(2,3), of n "[]" ?P])
    fix q d b more' assume q: "?P q d" "n = d @ b # more'" "room q 1"
    then have b: "b \<noteq> 0x3B" "b \<noteq> 0x3A" using assms(4) by (auto simp: header_octet_def)
    then have "append_header_octet q b = (Inr (), advance_line_offset (q\<lparr>r_scratch := r_scratch q @ [b]\<rparr>) 1)"
      using q by (simp add: append_octet_room step_header_state_def step_unquoted_def)
    then show "(b = 0x3A \<longrightarrow> r_header_state q = HQuoted)
        \<and> (\<exists>q'. append_header_octet q b = (Inr (), q') \<and> ?P q' (d @ [b]))"
      using b q by simp
  qed (use assms in simp_all)
  then show ?thesis
    by (auto simp: head_read_def close_pending_def parameters_text_def)
qed

text \<open>A parameter as the crate writes one: a name, an equals sign, a bare or a quoted value.\<close>

definition well_spelled :: "octets \<Rightarrow> bool" where
  "well_spelled v \<longleftrightarrow>
     (let inside = unq_value (unquote_parameter v)
      in parameter_is_representable inside \<and> quote_parameter inside = v)"

definition authored_parameter :: "parameter \<Rightarrow> bool" where
  "authored_parameter p \<longleftrightarrow>
     parameter_name_is_representable (pm_name p) \<and> pm_has_value p \<and> well_spelled (pm_value p)"

lemma well_spelled_shape:
  assumes "well_spelled v"
  obtains (bare) "list_all (\<lambda>b. b \<noteq> 0x3B \<and> b \<noteq> 0x3A \<and> b \<noteq> 0x2C \<and> b \<noteq> 0x22) v"
    | (quoted) inside where "v = 0x22 # inside @ [0x22]" "0x22 \<notin> set inside"
proof -
  define inside where "inside = unq_value (unquote_parameter v)"
  have i: "0x22 \<notin> set inside" "quote_parameter inside = v"
    using assms by (auto simp: well_spelled_def inside_def parameter_is_representable_def list_ex_iff Let_def)
  show thesis
  proof (cases "parameter_needs_quoting inside")
    case True
    then have "v = 0x22 # inside @ [0x22]"
      using i(2) by (auto simp: quote_parameter_def quote_parameter_into_def)
    then show thesis by (rule quoted) (rule i(1))
  next
    case False
    then have "v = inside" "list_all (\<lambda>b. b \<noteq> 0x3B \<and> b \<noteq> 0x3A \<and> b \<noteq> 0x2C) inside"
      using i(2) by (auto simp: quote_parameter_def parameter_needs_quoting_def list_ex_iff list_all_iff
          PARAMETER_MUST_QUOTE_def)
    then show thesis using i(1) by (intro bare) (auto simp: list_all_iff)
  qed
qed

lemma spelled_authored:
  "parameter_name_is_representable name \<Longrightarrow> parameter_value_is_writable v \<Longrightarrow>
     authored_parameter (spelled_parameter name v)"
  using unquote_quote [OF encode_caret_clean(1), of v]
  by (simp add: authored_parameter_def spelled_parameter_def parameter_new_def well_spelled_def Let_def
      parameter_value_is_writable_def quote_parameter_def quote_parameter_into_def split: if_splits)

text \<open>Inside a parameter: the header before it, the octets of it so far, the span still open.\<close>

definition within :: "reader \<Rightarrow> octets \<Rightarrow> parameter list \<Rightarrow> octets \<Rightarrow> parameter_span \<Rightarrow> bool" where
  "within q n qs tx sp \<longleftrightarrow>
     r_scratch q = (n @ parameters_text qs) @ tx \<and> r_pending q = Some sp \<and> r_name_end q = length n
   \<and> list_all2 (spells (n @ parameters_text qs)) (r_parameters q) qs"

lemma within_frame [simp]:
  "within (q\<lparr>r_folds := f, r_cursor := c\<rparr>) n qs tx sp = within q n qs tx sp"
  "within (q\<lparr>r_header_state := st\<rparr>) n qs tx sp = within q n qs tx sp"
  "within (advance_line_offset q k) n qs tx sp = within q n qs tx sp"
  by (simp_all add: within_def)

lemma within_scratch [simp]:
  "within q n qs tx sp \<Longrightarrow> within (q\<lparr>r_scratch := r_scratch q @ [b]\<rparr>) n qs (tx @ [b]) sp"
  by (simp add: within_def)

lemma append_semicolon:
  assumes "head_read q n qs" "room q 1"
  shows "\<exists>q'. append_header_octet q 0x3B = (Inr (), q')
    \<and> within q' n qs [0x3B] (span_opening (length (r_scratch q) + 1)) \<and> r_header_state q' = HParameterName"
proof -
  let ?q = "advance_line_offset (q\<lparr>r_scratch := r_scratch q @ [0x3B]\<rparr>) 1"
  let ?c = "close_pending ?q (length (r_scratch q))"
  have same: "r_parameters ?c = r_parameters (close_pending q (length (r_scratch q)))"
    "r_name_end ?c = r_name_end (close_pending q (length (r_scratch q)))"
    by (simp_all add: close_pending_def advance_line_offset_def Let_def split: option.split)
  have "length (r_parameters ?c) \<le> spans_held q"
    by (simp add: close_pending_def spans_held_def advance_line_offset_def Let_def split: option.split)
  then have "open_parameter ?q (length (r_scratch q)) =
      (Inr (), ?c\<lparr>r_pending := Some (span_opening (length (r_scratch q) + 1)), r_header_state := HParameterName\<rparr>)"
    using assms(2) by (simp add: open_parameter_def Let_def room_def)
  moreover have "r_header_state ?q \<noteq> HQuoted" using assms(1) by (simp add: head_read_def)
  ultimately show ?thesis
    using assms(2) same assms(1) [unfolded head_read_def]
    by (auto simp: append_octet_room step_header_state_def within_def)
qed

lemma scan_semicolon:
  assumes "unfolds ph [0x3B]" "drop (r_cursor r) (r_input r) = ph @ rest" "room r (length ph + m)"
    and "head_read r n qs"
  shows "\<exists>q. scan_header r = scan_header q
    \<and> within q n qs [0x3B] (span_opening (length (n @ parameters_text qs) + 1))
    \<and> r_header_state q = HParameterName \<and> drop (r_cursor q) (r_input q) = rest \<and> room q m \<and> same_line r q"
proof -
  let ?P = "\<lambda>q d. if d = [] then head_read q n qs
    else within q n qs [0x3B] (span_opening (length (n @ parameters_text qs) + 1)) \<and> r_header_state q = HParameterName"
  have "\<exists>q. scan_header r = scan_header q \<and> ?P q [0x3B :: octet] \<and> drop (r_cursor q) (r_input q) = rest
    \<and> room q m \<and> same_line r q"
  proof (rule scan_consume [OF assms(1) _ assms(2,3), of "[0x3B :: octet]" "[]" ?P])
    fix q d b more' assume q: "?P q d" "[0x3B :: octet] = d @ b # more'" "room q 1"
    then have d: "d = []" "b = 0x3B" by (cases d; simp)+
    then have h: "head_read q n qs" using q(1) by simp
    then have "length (r_scratch q) = length (n @ parameters_text qs)" by (simp add: head_read_def)
    then show "(b = 0x3A \<longrightarrow> r_header_state q = HQuoted)
        \<and> (\<exists>q'. append_header_octet q b = (Inr (), q') \<and> ?P q' (d @ [b]))"
      using append_semicolon [OF h q(3)] d by simp
  qed (use assms in \<open>simp_all add: head_read_stable split: if_splits\<close>)
  then show ?thesis by simp
qed

lemma scan_parameter_name:
  assumes "unfolds ph nm" "drop (r_cursor r) (r_input r) = ph @ rest" "room r (length ph + m)"
    and "within r n qs tx sp" "r_header_state r = HParameterName"
    and "list_all (\<lambda>b. header_octet b \<and> b \<noteq> 0x3D) nm"
  shows "\<exists>q. scan_header r = scan_header q \<and> within q n qs (tx @ nm) sp \<and> r_header_state q = HParameterName
    \<and> drop (r_cursor q) (r_input q) = rest \<and> room q m \<and> same_line r q"
proof -
  let ?P = "\<lambda>q d. within q n qs (tx @ d) sp \<and> r_header_state q = HParameterName"
  have "\<exists>q. scan_header r = scan_header q \<and> ?P q nm \<and> drop (r_cursor q) (r_input q) = rest
    \<and> room q m \<and> same_line r q"
  proof (rule scan_consume [OF assms(1) _ assms(2,3), of nm "[]" ?P])
    fix q d b more' assume q: "?P q d" "nm = d @ b # more'" "room q 1"
    then have b: "b \<noteq> 0x3B" "b \<noteq> 0x3A" "b \<noteq> 0x3D" using assms(6) by (auto simp: header_octet_def)
    then have "append_header_octet q b = (Inr (), advance_line_offset (q\<lparr>r_scratch := r_scratch q @ [b]\<rparr>) 1)"
      using q by (simp add: append_octet_room step_header_state_def step_unquoted_def)
    then show "(b = 0x3A \<longrightarrow> r_header_state q = HQuoted)
        \<and> (\<exists>q'. append_header_octet q b = (Inr (), q') \<and> ?P q' (d @ [b]))"
      using b q within_scratch [of q n qs "tx @ d" sp b] by simp
  qed (use assms in simp_all)
  then show ?thesis by blast
qed

lemma scan_equals:
  assumes "unfolds ph [0x3D]" "drop (r_cursor r) (r_input r) = ph @ rest" "room r (length ph + m)"
    and "within r n qs tx sp" "r_header_state r = HParameterName"
  shows "\<exists>q. scan_header r = scan_header q
    \<and> within q n qs (tx @ [0x3D]) (sp\<lparr>ps_name_end := length (n @ parameters_text qs @ tx), ps_has_value := True,
        ps_value_start := length (n @ parameters_text qs @ tx) + 1, ps_value_end := length (n @ parameters_text qs @ tx) + 1\<rparr>)
    \<and> r_header_state q = HValueStart \<and> drop (r_cursor q) (r_input q) = rest \<and> room q m \<and> same_line r q"
proof -
  let ?sp = "sp\<lparr>ps_name_end := length (n @ parameters_text qs @ tx), ps_has_value := True,
        ps_value_start := length (n @ parameters_text qs @ tx) + 1, ps_value_end := length (n @ parameters_text qs @ tx) + 1\<rparr>"
  let ?P = "\<lambda>q d. if d = [] then within q n qs tx sp \<and> r_header_state q = HParameterName
    else within q n qs (tx @ [0x3D]) ?sp \<and> r_header_state q = HValueStart"
  have "\<exists>q. scan_header r = scan_header q \<and> ?P q [0x3D :: octet] \<and> drop (r_cursor q) (r_input q) = rest
    \<and> room q m \<and> same_line r q"
  proof (rule scan_consume [OF assms(1) _ assms(2,3), of "[0x3D :: octet]" "[]" ?P])
    fix q d b more' assume q: "?P q d" "[0x3D :: octet] = d @ b # more'" "room q 1"
    then have d: "d = []" "b = 0x3D" by (cases d; simp)+
    let ?q = "advance_line_offset (q\<lparr>r_scratch := r_scratch q @ [b]\<rparr>) 1"
    have "append_header_octet q b
        = (Inr (), (begin_parameter_value ?q (length (r_scratch q)))\<lparr>r_header_state := HValueStart\<rparr>)"
      using q d by (simp add: append_octet_room step_header_state_def step_unquoted_def)
    moreover have "within (begin_parameter_value ?q (length (r_scratch q))) n qs (tx @ [0x3D]) ?sp"
      using q(1) d by (simp add: within_def begin_parameter_value_def)
    ultimately show "(b = 0x3A \<longrightarrow> r_header_state q = HQuoted)
        \<and> (\<exists>q'. append_header_octet q b = (Inr (), q') \<and> ?P q' (d @ [b]))"
      using d by simp
  qed (use assms in \<open>simp_all split: if_splits\<close>)
  then show ?thesis by simp
qed

text \<open>The state of the lexer inside a value.\<close>

definition value_state :: "octets \<Rightarrow> octets \<Rightarrow> header_state" where
  "value_state v d =
     (if d = [] then HValueStart
      else if hd v = 0x22 \<and> length d < length v then HQuoted else HValueText)"

lemma scan_parameter_value:
  assumes "unfolds ph v" "drop (r_cursor r) (r_input r) = ph @ rest" "room r (length ph + m)"
    and "within r n qs tx sp" "r_header_state r = HValueStart" "well_spelled v"
  shows "\<exists>q. scan_header r = scan_header q \<and> within q n qs (tx @ v) sp \<and> r_header_state q \<noteq> HQuoted
    \<and> drop (r_cursor q) (r_input q) = rest \<and> room q m \<and> same_line r q"
proof -
  let ?P = "\<lambda>q d. within q n qs (tx @ d) sp \<and> r_header_state q = value_state v d"
  have "\<exists>q. scan_header r = scan_header q \<and> ?P q v \<and> drop (r_cursor q) (r_input q) = rest
    \<and> room q m \<and> same_line r q"
  proof (rule scan_consume [OF assms(1) _ assms(2,3), of v "[]" ?P])
    fix q d b more' assume q: "?P q d" "v = d @ b # more'" "room q 1"
    let ?q = "advance_line_offset (q\<lparr>r_scratch := r_scratch q @ [b]\<rparr>) 1"
    have "(b = 0x3A \<longrightarrow> value_state v d = HQuoted)
      \<and> append_header_octet q b = (Inr (), ?q\<lparr>r_header_state := value_state v (d @ [b])\<rparr>)"
      using assms(6)
    proof (cases rule: well_spelled_shape)
      case bare
      then have b: "b \<noteq> 0x3B" "b \<noteq> 0x3A" "b \<noteq> 0x2C" "b \<noteq> 0x22" "hd v \<noteq> 0x22"
        using q(2) by (auto simp: hd_append list_all_iff dest: hd_in_set)
      then show ?thesis
        using q by (cases "d = []")
          (simp_all add: append_octet_room step_header_state_def step_unquoted_def value_state_def)
    next
      case (quoted inside)
      show ?thesis
      proof (cases d)
        case Nil
        then have "b = 0x22" "more' \<noteq> []" using q(2) quoted by auto
        then show ?thesis
          using q Nil by (simp add: append_octet_room step_header_state_def step_unquoted_def value_state_def)
      next
        case (Cons x e)
        then have x: "x = 0x22" "inside @ [0x22] = e @ b # more'" using q(2) quoted by auto
        have m: "b = 0x22 \<longleftrightarrow> more' = []"
          using x(2) quoted(2) by (cases more' rule: rev_cases) auto
        then show ?thesis
          using q x(1) Cons
          by (cases "more' = []") (simp_all add: append_octet_room step_header_state_def value_state_def)
      qed
    qed
    then show "(b = 0x3A \<longrightarrow> r_header_state q = HQuoted)
        \<and> (\<exists>q'. append_header_octet q b = (Inr (), q') \<and> ?P q' (d @ [b]))"
      using q within_scratch [of q n qs "tx @ d" sp b] by simp
  qed (use assms in \<open>simp_all add: value_state_def\<close>)
  then show ?thesis by (auto simp: value_state_def split: if_splits)
qed

lemma scan_parameter:
  assumes "unfolds ph (parameter_text p)" "drop (r_cursor r) (r_input r) = ph @ rest"
    and "room r (length ph + m)" "head_read r n qs" "authored_parameter p"
  shows "\<exists>q. scan_header r = scan_header q \<and> head_read q n (qs @ [p])
    \<and> drop (r_cursor q) (r_input q) = rest \<and> room q m \<and> same_line r q"
proof -
  have has: "pm_has_value p" "well_spelled (pm_value p)"
    and nm: "list_all (\<lambda>b. header_octet b \<and> b \<noteq> 0x3D) (pm_name p)"
    using assms(5)
    by (auto simp: authored_parameter_def parameter_name_is_representable_def PARAMETER_NAME_DELIMITERS_def
        list_ex_iff list_all_iff header_octet_def)
  have "unfolds ph ([0x3B] @ pm_name p @ [0x3D] @ pm_value p)"
    using assms(1) has(1) by (simp add: parameter_text_def)
  then obtain a b c d where ph: "ph = a @ b @ c @ d" and u: "unfolds a [0x3B]" "unfolds b (pm_name p)"
    "unfolds c [0x3D]" "unfolds d (pm_value p)"
    by (elim unfolds_append) blast
  let ?B = "n @ parameters_text qs"
  obtain q1 where q1: "scan_header r = scan_header q1" "within q1 n qs [0x3B] (span_opening (length ?B + 1))"
    "r_header_state q1 = HParameterName" "drop (r_cursor q1) (r_input q1) = b @ c @ d @ rest"
    "room q1 (length b + (length c + (length d + m)))" "same_line r q1"
    using scan_semicolon [OF u(1) _ _ assms(4), of "b @ c @ d @ rest" "length b + (length c + (length d + m))"] assms(2,3)
    by (auto simp: ph add.assoc)
  obtain q2 where q2: "scan_header q1 = scan_header q2"
    "within q2 n qs ([0x3B] @ pm_name p) (span_opening (length ?B + 1))"
    "r_header_state q2 = HParameterName" "drop (r_cursor q2) (r_input q2) = c @ d @ rest"
    "room q2 (length c + (length d + m))" "same_line q1 q2"
    using scan_parameter_name [OF u(2) q1(4,5,2,3) nm] by auto
  let ?at = "length (n @ parameters_text qs @ [0x3B] @ pm_name p)"
  let ?sp = "(span_opening (length ?B + 1))\<lparr>ps_name_end := ?at, ps_has_value := True,
      ps_value_start := ?at + 1, ps_value_end := ?at + 1\<rparr>"
  obtain q3 where q3: "scan_header q2 = scan_header q3"
    "within q3 n qs (([0x3B] @ pm_name p) @ [0x3D]) ?sp" "r_header_state q3 = HValueStart"
    "drop (r_cursor q3) (r_input q3) = d @ rest" "room q3 (length d + m)" "same_line q2 q3"
    using scan_equals [OF u(3) q2(4,5,2,3)] by auto
  obtain q where q: "scan_header q3 = scan_header q"
    "within q n qs ((([0x3B] @ pm_name p) @ [0x3D]) @ pm_value p) ?sp" "r_header_state q \<noteq> HQuoted"
    "drop (r_cursor q) (r_input q) = rest" "room q m" "same_line q3 q"
    using scan_parameter_value [OF u(4) q3(4,5,2,3) has(2)] by blast
  have tx: "parameter_text p = [0x3B] @ pm_name p @ [0x3D] @ pm_value p"
    using has(1) by (simp add: parameter_text_def)
  let ?stop = "length (?B @ parameter_text p)"
  have "spells (?B @ parameter_text p) (?sp\<lparr>ps_value_end := ?stop\<rparr>) p"
    using has(1) by (simp add: spells_def span_in_def span_opening_def slice_or_empty_def tx)
  moreover have "r_scratch q = ?B @ parameter_text p" using q(2) by (simp add: within_def tx)
  moreover have "list_all2 (spells (?B @ parameter_text p)) (r_parameters q) qs"
    using q(2) list_spells_append [of ?B] by (simp add: within_def)
  moreover have "parameters_text (qs @ [p]) = parameters_text qs @ parameter_text p"
    by (simp add: parameters_text_def)
  ultimately have "head_read q n (qs @ [p])"
    using q(2,3) by (simp add: head_read_def close_pending_def within_def list_all2_appendI)
  moreover have "same_line r q"
    using q1(6) q2(6) q3(6) q(6) by (meson same_line_trans)
  ultimately show ?thesis using q1(1) q2(1) q3(1) q(1,4,5) by auto
qed

lemma scan_parameters:
  assumes "unfolds ph (parameters_text ps)" "drop (r_cursor r) (r_input r) = ph @ rest"
    and "room r (length ph + m)" "head_read r n qs" "list_all authored_parameter ps"
  shows "\<exists>q. scan_header r = scan_header q \<and> head_read q n (qs @ ps)
    \<and> drop (r_cursor q) (r_input q) = rest \<and> room q m \<and> same_line r q"
  using assms
proof (induction ps arbitrary: ph r qs)
  case Nil
  then have "unfolds ph []" by (simp add: parameters_text_def)
  from scan_consume [OF this _ Nil.prems(2,3), of "[]" "[]" "\<lambda>q d. head_read q n qs"]
  show ?case using Nil.prems(4) by (auto simp: head_read_stable)
next
  case (Cons p ps)
  have "unfolds ph (parameter_text p @ parameters_text ps)"
    using Cons.prems(1) by (simp add: parameters_text_def)
  then obtain a b where ph: "ph = a @ b" and u: "unfolds a (parameter_text p)" "unfolds b (parameters_text ps)"
    by (rule unfolds_append)
  obtain q where q: "scan_header r = scan_header q" "head_read q n (qs @ [p])"
    "drop (r_cursor q) (r_input q) = b @ rest" "room q (length b + m)" "same_line r q"
    using scan_parameter [OF u(1) _ _ Cons.prems(4), of "b @ rest" "length b + m"] Cons.prems ph
    by (auto simp: add.assoc)
  obtain q' where "scan_header q = scan_header q'" "head_read q' n (qs @ p # ps)"
    "drop (r_cursor q') (r_input q') = rest" "room q' m" "same_line q q'"
    using Cons.IH [OF u(2) q(3,4,2)] Cons.prems(5) by auto
  then show ?case using q(1,5) same_line_trans [of r q q'] by (intro exI [of _ q']) simp
qed

lemma unfolds_Cons:
  "unfolds ph (c # cs) \<Longrightarrow> \<exists>p q. ph = p @ c # q \<and> unfolds p [] \<and> unfolds q cs \<and> c \<noteq> 0x0D \<and> c \<noteq> 0x0A"
proof (induction ph "c # cs" rule: unfolds.induct)
  case (unfolds_octet ph)
  then show ?case by (intro exI [of _ "[]"] exI [of _ ph]) (auto intro: unfolds.intros)
next
  case (unfolds_fold ph)
  then obtain p q where "ph = p @ c # q" "unfolds p []" "unfolds q cs" "c \<noteq> 0x0D" "c \<noteq> 0x0A" by blast
  then show ?case by (intro exI [of _ "0x0D # 0x0A # 0x20 # p"] exI [of _ q]) (auto intro: unfolds.intros)
qed

text \<open>The header of an authored line, and where the value begins.\<close>

lemma scan_whole_header:
  assumes u: "unfolds ph (n @ parameters_text qs @ 0x3A # v)"
    and d: "drop (r_cursor r) (r_input r) = ph @ rest" and room: "room r (length ph)"
    and n: "list_all header_octet n" and qs: "list_all authored_parameter qs"
    and r: "r_scratch r = []" "r_pending r = None" "r_parameters r = []" "r_header_state r = HName"
  obtains q ph' where "scan_header r = (Inr (), q)" "unfolds ph' v" "drop (r_cursor q) (r_input q) = ph' @ rest"
    "room q (length ph')" "same_line r q" "r_has_separator q" "header_slice q 0 (r_name_end q) = n"
    "list_all2 (spells (r_scratch q)) (r_parameters q) qs"
proof -
  obtain a b c where ph: "ph = a @ b @ c" and u': "unfolds a n" "unfolds b (parameters_text qs)" "unfolds c (0x3A # v)"
    using u by (elim unfolds_append) blast
  obtain c1 c2 where c: "c = c1 @ 0x3A # c2" and uc: "unfolds c1 []" "unfolds c2 v"
    using unfolds_Cons [OF u'(3)] by blast
  obtain q1 where q1: "scan_header r = scan_header q1" "head_read q1 n []"
    "drop (r_cursor q1) (r_input q1) = b @ c @ rest" "room q1 (length b + length c)" "same_line r q1"
    using scan_name [OF u'(1) _ _ n r, of "b @ c @ rest" "length b + length c"] d room ph by auto
  obtain q2 where q2: "scan_header q1 = scan_header q2" "head_read q2 n qs"
    "drop (r_cursor q2) (r_input q2) = c1 @ 0x3A # c2 @ rest" "room q2 (length c1 + Suc (length c2))" "same_line q1 q2"
    using scan_parameters [OF u'(2) q1(3,4,2) qs] c by auto
  from scan_consume [OF uc(1) _ q2(3,4), of "[]" "[]" "\<lambda>q d. head_read q n qs"] q2(2)
  obtain q3 where q3: "scan_header q2 = scan_header q3" "head_read q3 n qs"
    "drop (r_cursor q3) (r_input q3) = 0x3A # c2 @ rest" "room q3 (Suc (length c2))" "same_line q2 q3"
    by (auto simp: head_read_stable)
  let ?h = "close_pending q3 (length (r_scratch q3))"
  let ?q = "advance_line_offset (?h\<lparr>r_has_separator := True, r_cursor := r_cursor q3 + 1\<rparr>) 1"
  note at' = drop_Cons_nth [OF q3(3)] and no = no_terminator [OF q3(3)]
  have "scan_header q3 = (Inr (), ?q)"
    using at' no q3(2) by (subst scan_header.simps) (simp add: head_read_def close_header_def Let_def)
  then have s: "scan_header r = (Inr (), ?q)" using q1(1) q2(1) q3(1) by simp
  have spans: "spans_held ?q \<le> spans_held q3"
    by (simp add: spans_held_def close_pending_def Let_def split: option.split)
  show thesis
  proof (rule that [OF s uc(2)])
    show "drop (r_cursor ?q) (r_input ?q) = c2 @ rest" using at' by simp
    show "room ?q (length c2)" using q3(4) spans by (simp add: room_def)
    show "same_line r ?q" using q1(5) q2(5) q3(5) by (simp add: same_line_def)
    show "r_has_separator ?q" by simp
    show "header_slice ?q 0 (r_name_end ?q) = n"
    proof -
      have "r_name_end ?h = length n" "r_scratch q3 = n @ parameters_text qs"
        using q3(2) unfolding head_read_def by blast+
      then show ?thesis by (simp add: header_slice_def slice_or_empty_def)
    qed
    show "list_all2 (spells (r_scratch ?q)) (r_parameters ?q) qs"
    proof -
      have "list_all2 (spells (r_scratch q3)) (r_parameters ?h) qs"
        using q3(2) unfolding head_read_def by blast
      then show ?thesis by simp
    qed
  qed
qed

section \<open>The tokens of an authored line\<close>

inductive pulls :: "reader \<Rightarrow> token list \<Rightarrow> reader \<Rightarrow> bool" where
  pulls_none: "pulls r [] r"
| pulls_one: "next_token r = (Some (Inr t), q) \<Longrightarrow> pulls q ts p \<Longrightarrow> pulls r (t # ts) p"

lemma pulls_append: "pulls r ts q \<Longrightarrow> pulls q us p \<Longrightarrow> pulls r (ts @ us) p"
  by (induction rule: pulls.induct) (auto intro: pulls.intros)

lemma pulls_same_token:
  assumes "next_token q = next_token r" "ts \<noteq> []" "pulls q ts p"
  shows "pulls r ts p"
  using assms(3)
proof cases
  case pulls_none
  with assms(2) show ?thesis by simp
next
  case (pulls_one t q' ts')
  with assms(1) have "next_token r = (Some (Inr t), q')" by metis
  with pulls_one show ?thesis by (simp add: pulls.pulls_one)
qed

lemma drain_pulls: "pulls r ts q \<Longrightarrow> drain next_token r acc = drain next_token q (acc @ ts)"
proof (induction arbitrary: acc rule: pulls.induct)
  case (pulls_one r t q ts p)
  then show ?case by (simp add: drain.simps [of next_token r])
qed simp

definition parameter_token_of :: "parameter \<Rightarrow> token" where
  "parameter_token_of p = TParameter (pm_name p) (pm_value p) (pm_has_value p)"

lemma pulls_parameters:
  assumes "r_stage r = SParameter (length done')" "list_all2 (spells (r_scratch r)) (r_parameters r) (done' @ qs)"
  shows "pulls r (map parameter_token_of qs) (r\<lparr>r_stage := SParameter (length (done' @ qs))\<rparr>)"
  using assms
proof (induction qs arbitrary: done' r)
  case Nil
  then have "r\<lparr>r_stage := SParameter (length (done' @ []))\<rparr> = r" by simp
  then show ?case by (simp add: pulls_none)
next
  case (Cons q qs)
  let ?i = "length done'"
  let ?r = "r\<lparr>r_stage := SParameter (?i + 1)\<rparr>"
  have i: "?i < length (r_parameters r)" using Cons.prems(2) by (auto dest: list_all2_lengthD)
  have "spells (r_scratch r) (r_parameters r ! ?i) q"
    using list_all2_nthD [OF Cons.prems(2) i] by simp
  then have "parameter_token ?r ?i = parameter_token_of q"
    using i by (simp add: parameter_token_def parameter_token_of_def spells_def header_slice_def Let_def)
  then have n: "next_token r = (Some (Inr (parameter_token_of q)), ?r)"
    using Cons.prems(1) i by (simp add: next_token_def advance.simps [of r])
  have "pulls ?r (map parameter_token_of qs) (?r\<lparr>r_stage := SParameter (length ((done' @ [q]) @ qs))\<rparr>)"
    using Cons.prems by (intro Cons.IH) simp_all
  then show ?case using n by (auto intro: pulls_one)
qed

definition token_octets :: "token \<Rightarrow> octets" where
  "token_octets t = (case t of TValue bs _ \<Rightarrow> bs | _ \<Rightarrow> [])"

definition is_value :: "token \<Rightarrow> bool" where
  "is_value t = (case t of TValue bs _ \<Rightarrow> True | _ \<Rightarrow> False)"

text \<open>The octets of a value up to its first fold.\<close>

lemma unfolds_run:
  assumes "unfolds ph v"
  shows "list_all (\<lambda>b. b \<noteq> 0x0D \<and> b \<noteq> 0x0A) ph \<and> v = ph
    \<or> (\<exists>a ph' v'. ph = a @ 0x0D # 0x0A # 0x20 # ph' \<and> v = a @ v' \<and> unfolds ph' v'
        \<and> list_all (\<lambda>b. b \<noteq> 0x0D \<and> b \<noteq> 0x0A) a)"
  using assms
proof induction
  case (unfolds_octet b ph cs)
  from unfolds_octet.IH show ?case
  proof (elim disjE exE)
    fix a ph' v' assume "ph = a @ 0x0D # 0x0A # 0x20 # ph' \<and> cs = a @ v' \<and> unfolds ph' v'
        \<and> list_all (\<lambda>b. b \<noteq> 0x0D \<and> b \<noteq> 0x0A) a"
    then show ?thesis
      using unfolds_octet.hyps by (intro disjI2 exI [of _ "b # a"] exI [of _ ph'] exI [of _ v']) simp
  qed (use unfolds_octet.hyps in simp)
next
  case (unfolds_fold ph cs)
  then show ?case by (intro disjI2 exI [of _ "[]"] exI [of _ ph] exI [of _ cs]) simp
qed simp

lemma scan_break:
  assumes "drop (r_cursor r) (r_input r) = a @ 0x0D # rest" "list_all (\<lambda>b. b \<noteq> 0x0D \<and> b \<noteq> 0x0A) a"
  shows "scan_to_break r = (r_cursor r + length a, r\<lparr>r_cursor := r_cursor r + length a\<rparr>)"
    and "slice_or_empty (r_input r) (r_cursor r) (r_cursor r + length a) = a"
    and "drop (r_cursor r + length a) (r_input r) = 0x0D # rest"
proof -
  have "takeWhile (\<lambda>octet. \<not> (octet = 0x0D \<or> octet = 0x0A)) (a @ 0x0D # rest) = a"
    using assms(2) by (induction a) auto
  then show "scan_to_break r = (r_cursor r + length a, r\<lparr>r_cursor := r_cursor r + length a\<rparr>)"
    using assms(1) by (simp add: scan_to_break_def Let_def)
  have d: "drop (length a) (drop (r_cursor r) (r_input r)) = 0x0D # rest" by (simp add: assms(1))
  then show e: "drop (r_cursor r + length a) (r_input r) = 0x0D # rest" by (metis drop_drop add.commute)
  have "r_cursor r + length a < length (r_input r)" using drop_Cons_nth [OF e] by simp
  then show "slice_or_empty (r_input r) (r_cursor r) (r_cursor r + length a) = a"
    unfolding slice_or_empty_def assms(1) by simp
qed

definition opens_no_fold :: "octets \<Rightarrow> bool" where
  "opens_no_fold bs \<longleftrightarrow> bs = [] \<or> \<not> is_fold_whitespace (hd bs)"

lemma pulls_value:
  assumes "unfolds ph v" "r_stage r = SValue" "drop (r_cursor r) (r_input r) = ph @ 0x0D # 0x0A # rest"
    and "room r (length ph)" "opens_no_fold rest" "r_has_separator r"
  shows "\<exists>ts q. pulls r ts q \<and> ts \<noteq> [] \<and> list_all is_value ts \<and> concat (map token_octets ts) = v
    \<and> r_stage q = Ending \<and> r_ending q = Some CrLf \<and> r_has_separator q
    \<and> drop (r_cursor q) (r_input q) = rest \<and> same_line r q"
  using assms
proof (induction "length ph" arbitrary: ph v r rule: less_induct)
  case less
  from unfolds_run [OF less.prems(1)] show ?case
  proof (elim disjE exE conjE)
    assume run: "list_all (\<lambda>b. b \<noteq> 0x0D \<and> b \<noteq> 0x0A) ph" "v = ph"
    note b = scan_break [OF less.prems(3) run(1)]
    let ?e = "r_cursor r + length ph"
    let ?q = "advance_line_offset (r\<lparr>r_cursor := ?e\<rparr>) (length ph)"
    note t = crlf_terminator [OF b(3)]
    have "take_fold ?q CrLf 2 = (Inr False, ?q)"
    proof (cases rest)
      case Nil
      then have "length (r_input r) \<le> ?e + 2" using t by simp
      then show ?thesis by (simp add: take_fold_def Let_def)
    next
      case (Cons x xs)
      then have "?e + 2 < length (r_input r) \<and> r_input r ! (?e + 2) = x"
        using t drop_Cons_nth [of "?e + 2" "r_input r" x xs] by simp
      then show ?thesis
        using less.prems(5) Cons by (simp add: take_fold_def Let_def opens_no_fold_def)
    qed
    then have "next_token r = (Some (Inr (TValue ph False)),
        ?q\<lparr>r_ending := Some CrLf, r_cursor := ?e + 2, r_stage := Ending\<rparr>)"
      using less.prems(2) b t by (simp add: next_token_def advance.simps [of r] next_value_chunk_def Let_def)
    then show ?thesis
      using run t less.prems(6)
      by (intro exI [of _ "[TValue ph False]"] exI)
         (auto intro: pulls.intros simp: is_value_def token_octets_def same_line_def)
  next
    fix a ph' v' assume split: "ph = a @ 0x0D # 0x0A # 0x20 # ph'" "v = a @ v'" "unfolds ph' v'"
      "list_all (\<lambda>b. b \<noteq> 0x0D \<and> b \<noteq> 0x0A) a"
    have d: "drop (r_cursor r) (r_input r) = a @ 0x0D # 0x0A # 0x20 # ph' @ 0x0D # 0x0A # rest"
      using less.prems(3) split(1) by simp
    note b = scan_break [OF d split(4)]
    let ?e = "r_cursor r + length a"
    let ?q = "advance_line_offset (r\<lparr>r_cursor := ?e\<rparr>) (length a)"
    have room: "room ?q (Suc (length ph'))"
      using less.prems(4) split(1) by (simp add: room_def spans_held_def)
    have d': "drop (r_cursor ?q) (r_input ?q) = 0x0D # 0x0A # 0x20 # ph' @ 0x0D # 0x0A # rest" using b(3) by simp
    note f = crlf_fold [OF d' room]
    let ?r = "?q\<lparr>r_folds := r_folds ?q @ [\<lparr>fold_offset = r_line_offset ?q, fold_tab = False, fold_newline = CrLf\<rparr>],
        r_cursor := r_cursor ?q + 3\<rparr>"
    have n: "next_token r = (Some (Inr (TValue a True)), ?r)"
      using less.prems(2) b f(1) crlf_terminator [OF b(3)]
      by (simp add: next_token_def advance.simps [of r] next_value_chunk_def Let_def)
    have "room ?r (length ph')" using room by (simp add: room_def spans_held_def)
    then obtain ts q where "pulls ?r ts q" "list_all is_value ts" "concat (map token_octets ts) = v'"
      "r_stage q = Ending" "r_ending q = Some CrLf" "r_has_separator q" "drop (r_cursor q) (r_input q) = rest" "same_line ?r q"
      using less.hyps [of ph' v' ?r] split f(2) less.prems by auto
    then show ?thesis
      using n split(2)
      by (intro exI [of _ "TValue a True # ts"] exI [of _ q])
         (auto intro: pulls.intros simp: is_value_def token_octets_def same_line_def)
  qed
qed

text \<open>The tokens of one line, its folds and the chunks of its value left open.\<close>

definition line_tokens :: "octets \<Rightarrow> parameter list \<Rightarrow> octets \<Rightarrow> token list \<Rightarrow> bool" where
  "line_tokens n qs v ts \<longleftrightarrow>
     (\<exists>vs folds. ts = TName n # map parameter_token_of qs @ vs @ [TEndOfLine folds (Some CrLf) True]
        \<and> list_all is_value vs \<and> concat (map token_octets vs) = v)"

lemma pulls_line:
  assumes u: "unfolds ph (n @ parameters_text qs @ 0x3A # v)" and st: "r_stage r = LineStart"
    and d: "drop (r_cursor r) (r_input r) = ph @ 0x0D # 0x0A # rest" and room: "room (begin_line r) (length ph)"
    and n: "list_all header_octet n" and qs: "list_all authored_parameter qs" and rest: "opens_no_fold rest"
  shows "\<exists>ts q. pulls r ts q \<and> line_tokens n qs v ts \<and> r_stage q = LineStart
    \<and> drop (r_cursor q) (r_input q) = rest \<and> same_line r q"
proof -
  have d': "drop (r_cursor (begin_line r)) (r_input (begin_line r)) = ph @ 0x0D # 0x0A # rest"
    using d by (simp add: begin_line_def)
  obtain q ph' where q: "scan_header (begin_line r) = (Inr (), q)" "unfolds ph' v"
    "drop (r_cursor q) (r_input q) = ph' @ 0x0D # 0x0A # rest" "room q (length ph')" "same_line (begin_line r) q"
    "r_has_separator q" "header_slice q 0 (r_name_end q) = n"
    "list_all2 (spells (r_scratch q)) (r_parameters q) qs"
    by (rule scan_whole_header [OF u d' room n qs]) (simp_all add: begin_line_def)
  have "\<not> length (r_input r) \<le> r_cursor r" using d by (metis append_is_Nil_conv drop_eq_Nil list.distinct(1))
  then have "start_line r = (Some (Inr ()), q\<lparr>r_stage := SName\<rparr>)" using q(1) by (simp add: start_line_def)
  then have "next_token r = (Some (Inr (TName n)), q\<lparr>r_stage := SParameter 0\<rparr>)"
    using st q(7) by (simp add: next_token_def advance.simps [of r] advance.simps [of "q\<lparr>r_stage := SName\<rparr>"] header_slice_def)
  moreover have "pulls (q\<lparr>r_stage := SParameter 0\<rparr>) (map parameter_token_of qs) (q\<lparr>r_stage := SParameter (length qs)\<rparr>)"
    using pulls_parameters [of "q\<lparr>r_stage := SParameter 0\<rparr>" "[]" qs] q(8) by simp
  moreover obtain ts p where p: "pulls (q\<lparr>r_stage := SValue\<rparr>) ts p" "ts \<noteq> []" "list_all is_value ts"
    "concat (map token_octets ts) = v" "r_stage p = Ending" "r_ending p = Some CrLf" "r_has_separator p"
    "drop (r_cursor p) (r_input p) = rest" "same_line q p"
    using pulls_value [OF q(2), of "q\<lparr>r_stage := SValue\<rparr>" rest] q(3,4,6) rest
    by (auto simp: room_def spans_held_def same_line_def)
  moreover have "pulls (q\<lparr>r_stage := SParameter (length qs)\<rparr>) ts p"
  proof (rule pulls_same_token [OF _ p(2,1)])
    show "next_token (q\<lparr>r_stage := SValue\<rparr>) = next_token (q\<lparr>r_stage := SParameter (length qs)\<rparr>)"
      using q(6,8) by (simp add: next_token_def advance.simps [of "q\<lparr>r_stage := SParameter (length qs)\<rparr>"]
          list_all2_lengthD)
  qed
  moreover have "next_token p = (Some (Inr (TEndOfLine (r_folds p) (Some CrLf) True)), p\<lparr>r_stage := LineStart\<rparr>)"
    using p(5-7) by (simp add: next_token_def advance.simps [of p])
  ultimately have "pulls r (TName n # map parameter_token_of qs @ ts @ [TEndOfLine (r_folds p) (Some CrLf) True])
      (p\<lparr>r_stage := LineStart\<rparr>)"
    by (blast intro: pulls.intros pulls_append)
  then show ?thesis
    using p q(5)
    by (intro exI [of _ "TName n # map parameter_token_of qs @ ts @ [TEndOfLine (r_folds p) (Some CrLf) True]"]
        exI [of _ "p\<lparr>r_stage := LineStart\<rparr>"])
       (auto simp: line_tokens_def same_line_def begin_line_def)
qed

section \<open>Authored properties\<close>

text \<open>
  What the write side keeps true of a line it authors: a name that reads back whole and is no
  boundary, a value without control characters, parameters spelled the way they are written, and a
  layout that is folded afresh and ended by CRLF.
\<close>

definition authored :: "property \<Rightarrow> bool" where
  "authored p \<longleftrightarrow>
     property_name_is_representable (pr_name p) \<and> \<not> names_a_component_boundary (pr_name p)
   \<and> plain (pr_value_text p) \<and> list_all authored_parameter (pr_parameters p)"

definition fresh_layout :: "line_layout \<Rightarrow> bool" where
  "fresh_layout l \<longleftrightarrow> lay_refold l \<and> lay_has_separator l \<and> lay_ending l = Some CrLf"

lemma control_octets: "\<not> is_control_octet b \<Longrightarrow> b \<noteq> 0x0D \<and> b \<noteq> 0x0A" "\<not> is_ascii_control b \<Longrightarrow> b \<noteq> 0x0D \<and> b \<noteq> 0x0A"
  by (auto simp: is_control_octet_def is_ascii_control_def)

lemma well_spelled_unbroken: "well_spelled v \<Longrightarrow> list_all (\<lambda>b. b \<noteq> 0x0D \<and> b \<noteq> 0x0A) v"
proof -
  assume "well_spelled v"
  then obtain inside where i: "parameter_is_representable inside" "quote_parameter inside = v"
    by (auto simp: well_spelled_def Let_def)
  have "set v \<subseteq> insert 0x22 (set inside)"
    using i(2) by (auto simp: quote_parameter_def quote_parameter_into_def split: if_splits)
  then show ?thesis
    using i(1) control_octets(1) by (fastforce simp: parameter_is_representable_def list_ex_iff list_all_iff)
qed

lemma authored_text:
  assumes "authored p" "lay_has_separator (pr_layout p)"
  shows "list_all (\<lambda>b. b \<noteq> 0x0D \<and> b \<noteq> 0x0A) (line_text (LProperty p))"
    and "line_text (LProperty p) = pr_name p @ parameters_text (pr_parameters p) @ 0x3A # pr_value_text p"
    and "list_all header_octet (pr_name p)" "pr_name p \<noteq> []"
proof -
  have n: "list_all (\<lambda>b. b \<noteq> 0x0D \<and> b \<noteq> 0x0A \<and> header_octet b) (pr_name p)" "pr_name p \<noteq> []"
    using assms(1) control_octets(1)
    by (auto simp: authored_def property_name_is_representable_def list_ex_iff list_all_iff header_octet_def)
  have q: "list_all (\<lambda>b. b \<noteq> 0x0D \<and> b \<noteq> 0x0A) (parameter_text q)" if "authored_parameter q" for q
    using that well_spelled_unbroken [of "pm_value q"] control_octets(1)
    by (auto simp: authored_parameter_def parameter_name_is_representable_def parameter_text_def list_ex_iff list_all_iff)
  then have "list_all (\<lambda>b. b \<noteq> 0x0D \<and> b \<noteq> 0x0A) (parameters_text (pr_parameters p))"
    using assms(1) by (auto simp: authored_def parameters_text_def list_all_iff)
  moreover have "list_all (\<lambda>b. b \<noteq> 0x0D \<and> b \<noteq> 0x0A) (pr_value_text p)"
    using assms(1) control_octets(2) by (auto simp: authored_def plain_def list_all_iff)
  ultimately show "list_all (\<lambda>b. b \<noteq> 0x0D \<and> b \<noteq> 0x0A) (line_text (LProperty p))"
    using n assms(2) by (auto simp: list_all_iff)
  show "line_text (LProperty p) = pr_name p @ parameters_text (pr_parameters p) @ 0x3A # pr_value_text p"
    using assms(2) by simp
  show "list_all header_octet (pr_name p)" "pr_name p \<noteq> []" using n by (auto simp: list_all_iff)
qed

text \<open>What a list of authored properties is written as: one folded line after another.\<close>

lemma authored_line_written:
  assumes "authored p" "fresh_layout (pr_layout p)"
  shows "\<exists>ph. unfolds ph (line_text (LProperty p)) \<and> opens_no_fold (ph @ 0x0D # 0x0A # rest)
    \<and> write_line (vec_put :: ('e, octets) put) (LProperty p) False acc = (Inr False, acc @ ph @ [0x0D, 0x0A])"
proof -
  have lay: "lay_refold (pr_layout p)" "lay_has_separator (pr_layout p)" "lay_ending (pr_layout p) = Some CrLf"
    using assms(2) by (simp_all add: fresh_layout_def)
  note text' = authored_text [OF assms(1) lay(2)]
  obtain breaks where b: "leads (line_text (LProperty p)) breaks"
    "write_property (vec_put :: ('e, octets) put) p acc
      = (Inr (), acc @ weave 0 (line_text (LProperty p)) (map canonical_fold breaks) @ [0x0D, 0x0A])"
    using write_property_leads [OF lay(1)] lay(3) by fastforce
  let ?ph = "weave 0 (line_text (LProperty p)) (map canonical_fold breaks)"
  obtain c cs where c: "line_text (LProperty p) = c # cs" using text'(2,4) by (cases "pr_name p") auto
  have "opens_no_fold (?ph @ 0x0D # 0x0A # rest)"
  proof (cases breaks)
    case Nil
    then show ?thesis using b(1) c by (simp add: leads_def opens_no_fold_def is_fold_whitespace_def del: line_text.simps)
  next
    case (Cons x xs)
    then show ?thesis using b(1) c
      by (auto simp del: line_text.simps simp: leads_def opens_no_fold_def is_fold_whitespace_def)
  qed
  then show ?thesis
    using unfolds_weave [OF text'(1), of 0 breaks] b(2) lay(3)
    by (intro exI [of _ ?ph]) (simp add: write_line_def vec_put_def)
qed

lemma authored_items_written:
  assumes "list_all (\<lambda>p. authored p \<and> fresh_layout (pr_layout p)) ps"
  shows "\<exists>phs. list_all2 (\<lambda>p ph. unfolds ph (line_text (LProperty p))) ps phs
    \<and> opens_no_fold (concat (map (\<lambda>ph. ph @ [0x0D, 0x0A]) phs))
    \<and> list_all (\<lambda>ph. \<forall>rest. opens_no_fold (ph @ 0x0D # 0x0A # rest)) phs
    \<and> write_items_loop (vec_put :: ('e, octets) put) [] (map IProperty ps) False acc
      = (Inr (), acc @ concat (map (\<lambda>ph. ph @ [0x0D, 0x0A]) phs))"
  using assms
proof (induction ps arbitrary: acc)
  case Nil
  show ?case by (intro exI [of _ "[]"]) (simp add: opens_no_fold_def write_items_loop.simps)
next
  case (Cons p ps)
  obtain ph where ph: "unfolds ph (line_text (LProperty p))" "opens_no_fold (ph @ 0x0D # 0x0A # [])"
    "write_line (vec_put :: ('e, octets) put) (LProperty p) False acc = (Inr False, acc @ ph @ [0x0D, 0x0A])"
    using authored_line_written [of p "[]"] Cons.prems by auto
  have every: "opens_no_fold (ph @ 0x0D # 0x0A # rest)" for rest
    using ph(2) by (cases ph) (simp_all add: opens_no_fold_def)
  obtain phs where phs: "list_all2 (\<lambda>p ph. unfolds ph (line_text (LProperty p))) ps phs"
    "list_all (\<lambda>ph. \<forall>rest. opens_no_fold (ph @ 0x0D # 0x0A # rest)) phs"
    "write_items_loop (vec_put :: ('e, octets) put) [] (map IProperty ps) False (acc @ ph @ [0x0D, 0x0A])
      = (Inr (), (acc @ ph @ [0x0D, 0x0A]) @ concat (map (\<lambda>ph. ph @ [0x0D, 0x0A]) phs))"
    using Cons.IH [of "acc @ ph @ [0x0D, 0x0A]"] Cons.prems by auto
  then show ?case
    using ph(1,3) every by (intro exI [of _ "ph # phs"]) (simp add: write_items_loop.simps [of _ _ "_ # _"])
qed

lemma pulls_lines:
  assumes "list_all2 (\<lambda>p ph. unfolds ph (pr_name p @ parameters_text (pr_parameters p) @ 0x3A # pr_value_text p)) ps phs"
    and "list_all (\<lambda>ph. \<forall>rest. opens_no_fold (ph @ 0x0D # 0x0A # rest)) phs"
    and "list_all (\<lambda>p. list_all header_octet (pr_name p) \<and> list_all authored_parameter (pr_parameters p)) ps"
    and "r_stage r = LineStart" "drop (r_cursor r) (r_input r) = concat (map (\<lambda>ph. ph @ [0x0D, 0x0A]) phs)"
    and "room (begin_line r) (length (concat phs))"
  shows "\<exists>tss q. pulls r (concat tss) q \<and> r_stage q = LineStart \<and> drop (r_cursor q) (r_input q) = []
    \<and> list_all2 (\<lambda>p. line_tokens (pr_name p) (pr_parameters p) (pr_value_text p)) ps tss"
  using assms
proof (induction ps phs arbitrary: r rule: list_all2_induct)
  case Nil
  then show ?case by (intro exI [of _ "[]"] exI [of _ r]) (simp add: pulls_none)
next
  case (Cons p ps ph phs)
  let ?rest = "concat (map (\<lambda>ph. ph @ [0x0D, 0x0A]) phs)"
  have rest: "opens_no_fold ?rest"
    using Cons.prems(1) by (cases phs) (auto simp: opens_no_fold_def)
  have "room (begin_line r) (length ph)" by (rule room_less [OF Cons.prems(5)]) simp
  then obtain ts q where q: "pulls r ts q" "line_tokens (pr_name p) (pr_parameters p) (pr_value_text p) ts"
    "r_stage q = LineStart" "drop (r_cursor q) (r_input q) = ?rest" "same_line r q"
    using pulls_line [OF Cons.hyps(1) Cons.prems(3), of ?rest] Cons.prems rest by auto
  have "room (begin_line q) (length (concat phs))"
    using Cons.prems(5) q(5) by (auto simp: room_def begin_line_def spans_held_def same_line_def)
  with Cons.IH [of q] Cons.prems q(3,4) obtain tss q' where "pulls q (concat tss) q'" "r_stage q' = LineStart"
    "drop (r_cursor q') (r_input q') = []"
    "list_all2 (\<lambda>p. line_tokens (pr_name p) (pr_parameters p) (pr_value_text p)) ps tss" by auto
  then show ?case
    using q(1,2) pulls_append by (intro exI [of _ "ts # tss"] exI [of _ q']) auto
qed

lemma authored_lines_lexed:
  assumes "list_all (\<lambda>p. authored p \<and> fresh_layout (pr_layout p)) ps"
    and "bytes = to_bytes \<lparr>doc_items = map IProperty ps\<rparr>"
    and "length bytes \<le> min u32_max (min (gl_header_bytes lim) (min (gl_folds_per_line lim) (gl_parameters lim)))"
  shows "\<exists>tss. lex bytes lim = Some (concat tss, None)
    \<and> list_all2 (\<lambda>p. line_tokens (pr_name p) (pr_parameters p) (pr_value_text p)) ps tss"
proof -
  obtain phs where phs: "list_all2 (\<lambda>p ph. unfolds ph (line_text (LProperty p))) ps phs"
    "list_all (\<lambda>ph. \<forall>rest. opens_no_fold (ph @ 0x0D # 0x0A # rest)) phs"
    "write_items_loop (vec_put :: (unit, octets) put) [] (map IProperty ps) False []
      = (Inr (), concat (map (\<lambda>ph. ph @ [0x0D, 0x0A]) phs))"
    using authored_items_written [OF assms(1), of "[]"] by auto
  have bytes: "bytes = concat (map (\<lambda>ph. ph @ [0x0D, 0x0A]) phs)"
    using phs(3) by (simp add: assms(2) to_bytes_def serialize_def write_items_def)
  have "length (concat phs) \<le> length bytes"
    unfolding bytes by (induction phs) auto
  then have room: "room (begin_line (reader_new bytes lim)) (length (concat phs))"
    using assms(3) by (auto simp: room_def begin_line_def reader_new_def spans_held_def)
  have us: "list_all2 (\<lambda>p ph. unfolds ph (pr_name p @ parameters_text (pr_parameters p) @ 0x3A # pr_value_text p)) ps phs"
    using phs(1) assms(1) authored_text(2) by (force simp: list_all2_conv_all_nth list_all_length fresh_layout_def)
  have names: "list_all (\<lambda>p. list_all header_octet (pr_name p) \<and> list_all authored_parameter (pr_parameters p)) ps"
    using assms(1) authored_text(3) by (auto simp: list_all_iff fresh_layout_def authored_def)
  obtain tss q where q: "pulls (reader_new bytes lim) (concat tss) q" "r_stage q = LineStart"
    "drop (r_cursor q) (r_input q) = []"
    "list_all2 (\<lambda>p. line_tokens (pr_name p) (pr_parameters p) (pr_value_text p)) ps tss"
    using pulls_lines [OF us phs(2) names _ _ room] by (auto simp: reader_new_def bytes)
  have "next_token q = (None, q\<lparr>r_stage := Done\<rparr>)"
    using q(2,3) by (simp add: next_token_def advance.simps [of q] start_line_def)
  then have "lex bytes lim = Some (concat tss, None)"
    using drain_pulls [OF q(1), of "[]"] by (simp add: lex_def drain.simps [of next_token q])
  then show ?thesis using q(4) by blast
qed

section \<open>Every door keeps a line authored\<close>

lemma edits_keep_authored:
  "refuse_unwritable_edits edits = Inr () \<Longrightarrow> list_all authored_parameter ps \<Longrightarrow>
     list_all authored_parameter (apply_parameter_edits ps edits)"
proof (induction edits arbitrary: ps)
  case (Cons entry edits)
  have filtered: "list_all authored_parameter (filter P ps)" for P
    using Cons.prems(2) by (auto simp: list_all_iff)
  have "list_all authored_parameter (assign_parameter ps (ed_name entry) v)" if "ed_value entry = Some v" for v
    using Cons.prems that spelled_authored [of "ed_name entry" v]
    by (auto simp: assign_parameter_splice list_all_iff dest: set_takeWhileD set_dropWhileD split: if_splits)
  then show ?case
    using Cons filtered by (auto split: option.splits if_splits)
qed simp

lemma plain_refused: "refuse_control_characters bs = (if plain bs then Inr () else Inl MutIllegalControlCharacter)"
  by (auto simp: refuse_control_characters_def plain_def list_ex_iff list_all_iff)

lemma set_raw_authored: "authored p \<Longrightarrow> authored (snd (set_raw bytes p))"
  by (auto simp: set_raw_def plain_refused authored_def set_value_text_def split: sum.split)

lemma guard_set_authored:
  assumes "authored p"
  shows "authored (snd (guard_set encode coupled x p))"
proof (cases "guard_set encode coupled x p")
  case (Pair r p')
  show ?thesis
  proof (cases r)
    case (Inl e)
    then show ?thesis using assms Pair guard_set_refused by fastforce
  next
    case (Inr u)
    with Pair obtain t where "refuse_unwritable_edits (coupled x) = Inr ()" "plain t" "pr_value_text p' = t"
      "pr_parameters p' = apply_parameter_edits (pr_parameters p) (coupled x)" "pr_name p' = pr_name p"
      by (metis guard_set_done)
    then show ?thesis using assms Pair edits_keep_authored by (simp add: authored_def)
  qed
qed

lemma authored_items:
  "list_all authored (component_properties c) \<longleftrightarrow>
     list_all (\<lambda>i. case i of IProperty p \<Rightarrow> authored p | IComponent _ \<Rightarrow> True) (c_items c)"
proof -
  have "list_all authored (List.map_filter as_property is)
      \<longleftrightarrow> list_all (\<lambda>i. case i of IProperty p \<Rightarrow> authored p | IComponent _ \<Rightarrow> True) is" for "is"
    by (induction "is") (auto simp: map_filter_def split: item.split)
  then show ?thesis by (simp add: component_properties_def)
qed

lemma edited_items_authored:
  assumes "list_all authored (component_properties c)" "refuse_unwritable_edits edits = Inr ()"
    and "for_each_property_with_id c id' (\<lambda>p. edit_parameters p (\<lambda>held. apply_parameter_edits held edits)) = (b, c')"
  shows "list_all authored (component_properties c')"
proof -
  have "authored (edit_parameters p (\<lambda>held. apply_parameter_edits held edits))" if "authored p" for p
    using that edits_keep_authored [OF assms(2)] by (simp add: authored_def edit_parameters_def Let_def)
  then show ?thesis
    using assms(1,3) unfolding authored_items
    by (auto simp: for_each_property_with_id_def set_items_def list_all_iff split: item.splits if_splits)
qed

section \<open>Properties\<close>



text \<open>
  C8. What the crate authors cannot be read as anything else: a document of authored lines, folded
  as the writer folds them, is read back line for line, each with its name, its parameters and its
  value and no line more, as long as it is within the reader's limits.  No octet of a value or of a
  parameter opens a second content line.
\<close>

theorem authored_lines_read_back:
  assumes "list_all (\<lambda>p. authored p \<and> fresh_layout (pr_layout p)) ps"
    and "length (to_bytes \<lparr>doc_items = map IProperty ps\<rparr>)
      \<le> min u32_max (min (gl_header_bytes lim) (min (gl_folds_per_line lim) (gl_parameters lim)))"
  shows "\<exists>tss. lex (to_bytes \<lparr>doc_items = map IProperty ps\<rparr>) lim = Some (concat tss, None)
    \<and> list_all2 (\<lambda>p. line_tokens (pr_name p) (pr_parameters p) (pr_value_text p)) ps tss"
  by (rule authored_lines_lexed [OF assms(1) refl assms(2)])

theorem authored_lines_read_back_witness:
  "\<exists>tss. lex (to_bytes \<lparr>doc_items = map IProperty
        [property_new (ascii ''X'') [] (ascii ''a'') (layout_canonical CrLf)]\<rparr>)
        \<lparr>gl_header_bytes = 64, gl_parameters = 64, gl_folds_per_line = 64\<rparr> = Some (concat tss, None)
    \<and> length tss = 1"
proof -
  let ?ps = "[property_new (ascii ''X'') [] (ascii ''a'') (layout_canonical CrLf)]"
  let ?lim = "\<lparr>gl_header_bytes = 64, gl_parameters = 64, gl_folds_per_line = 64\<rparr>"
  have "list_all (\<lambda>p. authored p \<and> fresh_layout (pr_layout p)) ?ps" by code_simp
  moreover have "to_bytes \<lparr>doc_items = map IProperty ?ps\<rparr> = [0x58, 0x3A, 0x61, 0x0D, 0x0A]"
    by (simp add: to_bytes_def serialize_def write_items_def write_items_loop.simps write_line_def write_property_def
        property_new_def layout_canonical_def line_writer_new_def push_def push_refolded_def
        push_refolded_loop.simps REFOLD_WIDTH_def emit_octets_def vec_put_def finish_def Let_def)
  then have "length (to_bytes \<lparr>doc_items = map IProperty ?ps\<rparr>)
      \<le> min u32_max (min (gl_header_bytes ?lim) (min (gl_folds_per_line ?lim) (gl_parameters ?lim)))"
    by (simp add: u32_max_def)
  ultimately obtain tss where "lex (to_bytes \<lparr>doc_items = map IProperty ?ps\<rparr>) ?lim = Some (concat tss, None)"
    "list_all2 (\<lambda>p. line_tokens (pr_name p) (pr_parameters p) (pr_value_text p)) ?ps tss"
    using authored_lines_read_back by blast
  then show ?thesis using list_all2_lengthD by force
qed

end
