(* ===== verification/Spec2Isabelle.thy ===== *)
theory Spec2Isabelle
  imports Civil_Time Parse_Limits Emit_Sinks Recur_Search Recur_Readings Change_Frame Authored_Lines
begin

text \<open>
  A verification library for icalkit, the Rust crate under \<open>src/crates/icalkit\<close> that reads, changes
  and writes iCalendar (RFC 5545) objects without losing an octet, and computes recurrence sets.  All
  paths below are under \<open>src/crates/icalkit/src/internal\<close>.

  \<^bold>\<open>The program.\<close>  \<open>core\<close> reads octets with a pull lexer under a ledger of limits, builds a document
  tree that keeps every octet, decodes typed values from it, applies checked changes to it, and emits
  it again.  \<open>recur\<close> decodes recurrence rules, walks their periods, expands a period to its
  candidates, selects by position, merges the result with \<open>RDATE\<close>, \<open>EXDATE\<close> and overrides, and drives
  all that from a resumable search.  \<open>tz\<close>, \<open>itip\<close>, \<open>dav\<close> and \<open>query\<close> build on both.

  \<^bold>\<open>How code becomes theory.\<close>  A struct is a \<open>record\<close>, an enum a \<open>datatype\<close>, a function a definition of
  the same name (prefixed with its type where the name is taken); a method that mutates its receiver
  returns the new state beside its result; \<open>Result\<close> is \<open>error + value\<close> with \<open>Inl\<close> the error, \<open>Option\<close>
  is \<open>option\<close>; a checked, saturating or wrapping machine operation is written out at its width.  A
  diagnostic sink is a function \<open>'k sink_push\<close> on a state \<open>'k\<close> of the caller's and is threaded with the
  meter as an \<open>env\<close>.  A loop over an unbounded input is a \<open>partial_function (option)\<close> and every such
  loop has a lemma that it returns.  \<open>Cow\<close> and borrowed slices are the octets they hold.

  \<^bold>\<open>Theories of the core.\<close>
  \<^item> \<open>Prelude\<close>: octets, ASCII text, saturating arithmetic, the shared lemmas.
  \<^item> \<open>Gregorian\<close>, \<open>Civil_Arith\<close>: \<open>core/gregorian.rs\<close>, \<open>core/grammar/instant.rs\<close>, \<open>core/arith.rs\<close>.
    \<open>Civil_Time\<close> proves the day count, the conversions to the timeline and back, and the additions;
    \<open>Civil_Order\<close> gives the values their linear orders.
  \<^item> \<open>Ledger\<close>: \<open>core/grammar/budget.rs\<close>, the limits and the meter, with the machine of charging calls
    and what any sequence of them keeps.  \<open>Diagnostics\<close>: the codes, places, subjects and sinks.
  \<^item> \<open>Text_Escape\<close>, \<open>Caret\<close>: the escape tables of TEXT and of RFC 6868, with their round trips from
    one locale \<open>octet_escape\<close>.
  \<^item> \<open>Syntax\<close>, \<open>Lexer\<close>: line endings, folds, tokens and the pull reader, method by method; the locales
    \<open>token_source\<close> and \<open>line_source\<close> state what its callers rely on.
  \<^item> \<open>Component_Tree\<close>, \<open>Property_Ident\<close>: the document tree with its edits and explicit-stack walks,
    and the identities of properties.
  \<^item> \<open>Parse\<close>, \<open>Round_Trip\<close>, \<open>Parse_Limits\<close>: the tree builder, and the proofs that a document is written
    back octet for octet, that a parse fails at a bound only, and that it always answers.
  \<^item> \<open>Emit\<close>, \<open>Emit_Sinks\<close>: the writer, its refolding and the sinks.
  \<^item> \<open>Codec_Text\<close>, \<open>Codec_Values\<close>, \<open>Codec_Text_Values\<close>: \<open>core/codec.rs\<close>, the decoder, encoder and
    coupled parameters of every value type; \<open>Codec_Round_Trip\<close> states the contract of a codec as the
    locale \<open>value_codec\<close> and interprets it on each of them.
  \<^item> \<open>Typed_Access\<close>, \<open>Mutate\<close>: \<open>core/view.rs\<close>, \<open>core/access.rs\<close>, \<open>core/mutate.rs\<close>, \<open>core/change.rs\<close>.
    \<open>Mutation_Laws\<close> extends the codec locale to a write through the guard that is read back,
    \<open>Change_Frame\<close> shows what a change leaves alone, and \<open>Authored_Lines\<close> follows the lexer over what
    the writer emits: no value or parameter can open a second content line.

  \<^bold>\<open>Theories of recurrence.\<close>
  \<^item> \<open>Recur_Rule\<close>: \<open>recur/rule.rs\<close> and the expand/limit table of \<open>recur/table.rs\<close>.
  \<^item> \<open>Recur_Grammar\<close>: \<open>recur/grammar.rs\<close>, both readings of a \<open>RECUR\<close> value; \<open>Recur_Readings\<close> proves
    that they agree.
  \<^item> \<open>Recur_Period\<close>, \<open>Recur_Weeks\<close>, \<open>Recur_Expand\<close>: the walk over periods, week numbers and the
    expansion of a period; \<open>Recur_Candidates\<close> proves the expansion against a declarative set.
  \<^item> \<open>Recur_Select\<close>, \<open>Recur_Input\<close>, \<open>Recur_Merge\<close>: \<open>BYSETPOS\<close>, the checked input, and the one-pass
    merge against set arithmetic.
  \<^item> \<open>Recur_Engine\<close>, \<open>Recur_Search\<close>: the rule stream, the offers and the whole search, with the proofs
    that it ends and keeps to its limits.

  \<^bold>\<open>Bounds and fuel.\<close>  No definition has fuel.  The theorems about whole documents assume lengths
  within \<open>u32\<close>, the width of a span in the code, or within the limits of the policy; where a theorem
  needs neither it has no such hypothesis.

  \<^bold>\<open>Not modelled.\<close>  \<open>FLOAT\<close> and \<open>GEO\<close> values are \<open>f64\<close>, whose parsing is the standard library's and
  for which the code has no encoder.  \<open>Display\<close>, \<open>Debug\<close> and \<open>Hash\<close> implementations, plain getters (they
  are the record fields) and the public facade carry no logic of their own.  \<open>core/schema.rs\<close>, \<open>tz\<close>,
  \<open>itip\<close>, \<open>dav\<close> and \<open>query\<close> are planned next, in that order of their weight for the calendar itself:
  zone resolution, scheduling decisions, query matching, then the protocol readers.
\<close>

end
